theory Spec2Isabelle
  imports Main "HOL-Library.Word"
begin

section \<open>Data model of the knowledge-base metadata store\<close>

text \<open>
  The rows of \<^verbatim>\<open>meta-schema.ts\<close> as records, the status columns as the two union types
  declared at the top of \<^verbatim>\<open>kb-worker.ts\<close>. Identifiers (UUID strings) and paths are
  \<open>string\<close>; \<open>Date.now()\<close> is a \<open>nat\<close> handed in by the caller. Decoded text is a
  list of UTF-16 code units, which is what a JavaScript string's \<open>length\<close>, \<open>slice\<close> and
  \<open>trim\<close> work on; file contents are lists of bytes.
\<close>

type_synonym unit16 = "16 word"
type_synonym jsstring = "unit16 list"
type_synonym byte = "8 word"

datatype JobStatus = Pending | Processing | Paused | Done | Failed | Canceled

datatype JobItemStatus = ItemPending | ItemProcessing | ItemDone | ItemFailed | ItemSkipped

text \<open>The messages stored in \<open>error_message\<close> columns and carried by thrown errors.\<close>

datatype error =
    KbIdEmpty              \<comment> \<open>handlers: the kbId parameter is empty\<close>
  | KbIdOrJobIdEmpty       \<comment> \<open>pause, resume, cancel: kbId or jobId is empty\<close>
  | SourcesEmpty           \<comment> \<open>importFiles: sources is not a non-empty array\<close>
  | NoFilesFound           \<comment> \<open>importFiles: the resolved file list is empty\<close>
  | FileUnreadable         \<comment> \<open>importOneFile: stat failed\<close>
  | NotAFile               \<comment> \<open>importOneFile: the path is not a regular file\<close>
  | UnknownMethod string   \<comment> \<open>dispatch: no handler for the method\<close>
  | WorkerExited           \<comment> \<open>client: the worker process exited\<close>
  | Timeout string         \<comment> \<open>client: the call's timer fired; carries the method\<close>
  | ConstraintViolation    \<comment> \<open>SQLite: PRIMARY KEY or UNIQUE constraint failed\<close>
  | SqliteError            \<comment> \<open>SQLite: a script could not be executed\<close>
  | Thrown string          \<comment> \<open>any other error, with its message\<close>

datatype ImportSource =
    Files "string list"
  | Directory "string list" "bool option"

record job =
  job_id :: string
  job_type :: string
  job_status :: JobStatus
  job_payload :: "ImportSource list"
  progress_current :: nat
  progress_total :: nat
  job_error_message :: "error option"
  job_created_at :: nat
  job_started_at :: "nat option"
  job_finished_at :: "nat option"
  job_updated_at :: nat
  job_heartbeat_at :: "nat option"

record job_item =
  item_id :: string
  item_job_id :: string
  item_source_path :: string
  item_status :: JobItemStatus
  item_error_message :: "error option"
  item_created_at :: nat
  item_updated_at :: nat
  item_started_at :: "nat option"
  item_finished_at :: "nat option"

datatype DocumentKind = KindFile | KindNote

record document =
  doc_id :: string
  doc_kind :: DocumentKind
  doc_title :: string
  doc_source_path :: "string option"
  doc_blob_rel_path :: "string option"
  doc_mime_type :: "string option"
  doc_size_bytes :: nat
  doc_sha256 :: "string option"
  doc_created_at :: nat
  doc_updated_at :: nat

record chunk =
  chunk_id :: string
  chunk_document_id :: string
  chunk_index :: nat
  chunk_content :: jsstring
  chunk_created_at :: nat

text \<open>
  One database file. \<open>schema_objects\<close> holds the names of the tables, indexes and
  triggers that exist; the rows of each table are kept in insertion order.
\<close>

record store =
  schema_objects :: "string list"
  schema_migrations :: "(int \<times> string \<times> nat) list"
  jobs :: "job list"
  job_items :: "job_item list"
  documents :: "document list"
  chunks :: "chunk list"

definition empty_store :: store where
  "empty_store = \<lparr>schema_objects = [], schema_migrations = [], jobs = [], job_items = [],
     documents = [], chunks = []\<rparr>"

section \<open>A connection and its commit points\<close>

text \<open>
  A better-sqlite3 handle. A statement run outside a transaction commits by itself
  (autocommit); \<open>sqlite.transaction(fn)()\<close> runs \<open>fn\<close> and commits once, or rolls
  everything back and rethrows when \<open>fn\<close> throws. \<open>commits\<close> lists, oldest first, the
  states this handle has made durable: a crash leaves the file in the last of them.
\<close>

record conn =
  cur :: store
  commits :: "store list"

definition open_conn :: "store \<Rightarrow> conn" where
  "open_conn s = \<lparr>cur = s, commits = []\<rparr>"

definition autocommit :: "(store \<Rightarrow> store) \<Rightarrow> conn \<Rightarrow> conn" where
  "autocommit f c = \<lparr>cur = f (cur c), commits = commits c @ [f (cur c)]\<rparr>"

definition transaction :: "(store \<Rightarrow> error + store) \<Rightarrow> conn \<Rightarrow> error option \<times> conn" where
  "transaction body c =
     (case body (cur c) of
        Inl e \<Rightarrow> (Some e, c)
      | Inr s \<Rightarrow> (None, \<lparr>cur = s, commits = commits c @ [s]\<rparr>))"

section \<open>Migration (\<^verbatim>\<open>meta-db.ts\<close>, \<^verbatim>\<open>meta-schema.ts\<close>)\<close>

text \<open>
  A migration's SQL is a script of \<open>CREATE ... IF NOT EXISTS\<close> statements; it is kept as
  the list of the object names it creates. Whether the engine can execute a script
  (disk full, corrupt file) is the environment's: \<open>ok\<close> says so.
\<close>

record migration =
  mig_id :: int
  mig_name :: string
  mig_sql :: "string list"

definition KNOWLEDGE_META_MIGRATIONS :: "migration list" where
  "KNOWLEDGE_META_MIGRATIONS =
     [\<lparr>mig_id = 1, mig_name = ''init'',
        mig_sql = [''schema_migrations'', ''documents'', ''idx_documents_kind'',
          ''idx_documents_updated_at'', ''chunks'', ''idx_chunks_document_id'', ''chunks_fts'',
          ''chunks_ai'', ''chunks_ad'', ''chunks_au'', ''notes'', ''jobs'', ''idx_jobs_status'',
          ''idx_jobs_updated_at'']\<rparr>,
      \<lparr>mig_id = 2, mig_name = ''job_items'',
        mig_sql = [''job_items'', ''idx_job_items_job_id'', ''idx_job_items_status'',
          ''idx_job_items_job_source_path'']\<rparr>]"

fun create_if_not_exists :: "string list \<Rightarrow> string list \<Rightarrow> string list" where
  "create_if_not_exists [] objs = objs"
| "create_if_not_exists (n # ns) objs =
     create_if_not_exists ns (if n \<in> set objs then objs else objs @ [n])"

definition exec_script :: "(string list \<Rightarrow> bool) \<Rightarrow> string list \<Rightarrow> store \<Rightarrow> error + store" where
  "exec_script ok sql s =
     (if ok sql then Inr (s\<lparr>schema_objects := create_if_not_exists sql (schema_objects s)\<rparr>)
      else Inl SqliteError)"

text \<open>\<open>INSERT INTO schema_migrations\<close>: \<open>id\<close> is the primary key.\<close>

definition insert_schema_migration :: "int \<Rightarrow> string \<Rightarrow> nat \<Rightarrow> store \<Rightarrow> error + store" where
  "insert_schema_migration i name now s =
     (if i \<in> fst ` set (schema_migrations s) then Inl ConstraintViolation
      else Inr (s\<lparr>schema_migrations := schema_migrations s @ [(i, name, now)]\<rparr>))"

text \<open>The body of the \<open>for (const migration of pending)\<close> loop, run inside \<open>tx\<close>.\<close>

fun apply_pending :: "(string list \<Rightarrow> bool) \<Rightarrow> nat \<Rightarrow> migration list \<Rightarrow> store \<Rightarrow> error + store" where
  "apply_pending ok now [] s = Inr s"
| "apply_pending ok now (m # ms) s =
     (case exec_script ok (mig_sql m) s of
        Inl e \<Rightarrow> Inl e
      | Inr s1 \<Rightarrow>
          (case insert_schema_migration (mig_id m) (mig_name m) now s1 of
             Inl e \<Rightarrow> Inl e
           | Inr s2 \<Rightarrow> apply_pending ok now ms s2))"

text \<open>\<open>SELECT COALESCE(MAX(id), 0) AS id FROM schema_migrations\<close>:
  \<open>MAX(id)\<close> over no rows is NULL, hence 0; over some rows it is their maximum.\<close>

definition max_migration_id :: "store \<Rightarrow> int" where
  "max_migration_id s =
     (case map fst (schema_migrations s) of [] \<Rightarrow> 0 | i # is \<Rightarrow> fold max is i)"

definition pending_migrations :: "migration list \<Rightarrow> store \<Rightarrow> migration list" where
  "pending_migrations ms s = sort_key mig_id (filter (\<lambda>m. mig_id m > max_migration_id s) ms)"

text \<open>
  \<open>migrateKnowledgeMetaDb\<close>: the \<open>schema_migrations\<close> table is created by a statement of
  its own; then all pending migrations run inside the single transaction \<open>tx\<close>.
\<close>

definition create_schema_migrations_table :: "store \<Rightarrow> store" where
  "create_schema_migrations_table s =
     s\<lparr>schema_objects := create_if_not_exists [''schema_migrations''] (schema_objects s)\<rparr>"

definition migrateKnowledgeMetaDb ::
  "(string list \<Rightarrow> bool) \<Rightarrow> migration list \<Rightarrow> nat \<Rightarrow> conn \<Rightarrow> error option \<times> conn" where
  "migrateKnowledgeMetaDb ok ms now c =
     (let c1 = autocommit create_schema_migrations_table c;
          pending = pending_migrations ms (cur c1)
      in if pending = [] then (None, c1)
         else transaction (apply_pending ok now pending) c1)"

definition openKnowledgeMetaDb ::
  "(string list \<Rightarrow> bool) \<Rightarrow> migration list \<Rightarrow> nat \<Rightarrow> store \<Rightarrow> error option \<times> conn" where
  "openKnowledgeMetaDb ok ms now file = migrateKnowledgeMetaDb ok ms now (open_conn file)"

section \<open>Opening a knowledge base: crash recovery (\<open>getDb\<close>)\<close>

text \<open>
  \<open>UPDATE jobs SET status = 'paused', updated_at = ? WHERE status = 'processing'\<close> and
  \<open>UPDATE job_items SET status = 'pending', updated_at = ? WHERE status = 'processing'\<close>
\<close>

definition recover_jobs :: "nat \<Rightarrow> store \<Rightarrow> store" where
  "recover_jobs now s =
     s\<lparr>jobs := map (\<lambda>j. if job_status j = Processing
                           then j\<lparr>job_status := Paused, job_updated_at := now\<rparr> else j) (jobs s)\<rparr>"

definition recover_items :: "nat \<Rightarrow> store \<Rightarrow> store" where
  "recover_items now s =
     s\<lparr>job_items := map (\<lambda>i. if item_status i = ItemProcessing
                           then i\<lparr>item_status := ItemPending, item_updated_at := now\<rparr> else i)
                        (job_items s)\<rparr>"

text \<open>
  The part of \<open>getDb\<close> after a cache miss: open and migrate (an error there is thrown
  on to the caller), then the two recovery statements, each run on the handle as it is:
  no \<open>BEGIN\<close> and no \<open>transaction\<close> surrounds them. \<open>tm\<close> is the clock read by the
  migration, \<open>now\<close> the one read by \<open>getDb\<close>.
\<close>

definition recover :: "nat \<Rightarrow> conn \<Rightarrow> conn" where
  "recover now c = autocommit (recover_items now) (autocommit (recover_jobs now) c)"

definition getDb_open ::
  "(string list \<Rightarrow> bool) \<Rightarrow> migration list \<Rightarrow> nat \<Rightarrow> nat \<Rightarrow> store \<Rightarrow> error option \<times> conn" where
  "getDb_open ok ms tm now file =
     (case openKnowledgeMetaDb ok ms tm file of
        (Some e, c) \<Rightarrow> (Some e, c)
      | (None, c) \<Rightarrow> (None, recover now c))"

section \<open>Chunking (\<open>chunkTextStream\<close>)\<close>

text \<open>
  \<open>String.prototype.trim\<close> removes the WhiteSpace and LineTerminator code units of
  ECMAScript from both ends of a string.
\<close>

definition is_js_whitespace :: "unit16 \<Rightarrow> bool" where
  "is_js_whitespace c =
     (c \<in> {0x09, 0x0A, 0x0B, 0x0C, 0x0D, 0x20, 0xA0, 0x1680, 0x2028, 0x2029, 0x202F, 0x205F,
            0x3000, 0xFEFF} \<or> (0x2000 \<le> c \<and> c \<le> 0x200A))"

definition trim :: "jsstring \<Rightarrow> jsstring" where
  "trim s = rev (dropWhile is_js_whitespace (rev (dropWhile is_js_whitespace s)))"

text \<open>
  The \<open>while (carry.length >= chunkSize)\<close> loop of \<open>push\<close>; \<open>out\<close> is the array
  \<open>chunks\<close> of the source. The loop does not end when \<open>chunkSize - overlap\<close> is not
  positive, hence the option: \<open>None\<close> is "never returns".
\<close>

partial_function (option) push_loop ::
  "nat \<Rightarrow> nat \<Rightarrow> 'a list \<Rightarrow> 'a list list \<Rightarrow> ('a list list \<times> 'a list) option" where
  "push_loop chunkSize overlap carry out =
     (if chunkSize \<le> length carry
      then push_loop chunkSize overlap
             (drop (nat (max 0 (int chunkSize - int overlap))) carry)
             (out @ [take chunkSize carry])
      else Some (out, carry))"

declare push_loop.simps [code]

text \<open>\<open>push\<close> returns the chunks and leaves the new carry; \<open>flush\<close> empties the carry.\<close>

definition chunker_push ::
  "nat \<Rightarrow> nat \<Rightarrow> 'a list \<Rightarrow> 'a list \<Rightarrow> ('a list list \<times> 'a list) option" where
  "chunker_push chunkSize overlap carry text = push_loop chunkSize overlap (carry @ text) []"

definition chunker_flush :: "jsstring \<Rightarrow> jsstring option \<times> jsstring" where
  "chunker_flush carry =
     (let rest = trim carry in (if length rest > 0 then Some rest else None, []))"

section \<open>The environment of the worker\<close>

text \<open>
  What Node provides and the repository does not define: \<open>path.extname\<close>,
  \<open>String.prototype.toLowerCase\<close>, \<open>path.basename\<close>, the SHA-256 digest in hex of the
  bytes fed to the hash, and the streaming UTF-8 \<open>StringDecoder\<close> (\<open>write\<close> takes the
  bytes of an incomplete sequence kept from the previous call and the buffer, and returns
  the text and the bytes it keeps; \<open>end\<close> returns the text for the bytes still kept).
  Two more things are the machine's: whether SQLite can execute a migration script
  (\<open>sql_ok\<close>), and the regular files that the walk of \<open>collectFilesFromDirectory\<close> finds
  under a directory, in the order it finds them, given the \<open>recursive\<close> flag.
\<close>

record env =
  extname :: "string \<Rightarrow> string"
  toLowerCase :: "string \<Rightarrow> string"
  basename :: "string \<Rightarrow> string"
  sha256_hex :: "byte list \<Rightarrow> string"
  decoder_write :: "byte list \<Rightarrow> byte list \<Rightarrow> jsstring \<times> byte list"
  decoder_end :: "byte list \<Rightarrow> jsstring"
  sql_ok :: "string list \<Rightarrow> bool"
  collectFilesFromDirectory :: "string \<Rightarrow> bool \<Rightarrow> string list"

text \<open>
  What \<open>fs.promises.stat\<close> and \<open>fs.createReadStream\<close> report for a source path: nothing
  there, something that is not a regular file, or a regular file with its \<open>stat.size\<close>,
  the buffers the read stream yields in order, and the error the stream throws after
  them, if it throws.
\<close>

datatype fsnode = Absent | NotRegular | Regular nat "byte list list" "string option"

section \<open>Importing one file (\<open>importOneFile\<close>)\<close>

definition textExts :: "string list" where
  "textExts = [''.txt'', ''.md'', ''.markdown'', ''.mdx'', ''.json'', ''.jsonl'', ''.yaml'',
     ''.yml'', ''.csv'', ''.ts'', ''.tsx'', ''.js'', ''.jsx'', ''.mjs'', ''.cjs'', ''.py'', ''.go'',
     ''.rs'', ''.java'', ''.kt'', ''.kts'', ''.rb'', ''.php'', ''.html'', ''.htm'', ''.css'', ''.scss'',
     ''.xml'', ''.toml'', ''.ini'', ''.sh'', ''.bash'', ''.zsh'', ''.sql'']"

definition isSupportedTextExtension :: "env \<Rightarrow> string \<Rightarrow> bool" where
  "isSupportedTextExtension e filePath = (toLowerCase e (extname e filePath) \<in> set textExts)"

definition guessMimeType :: "env \<Rightarrow> string \<Rightarrow> string option" where
  "guessMimeType e filePath =
     map_of [(''.txt'', ''text/plain''), (''.md'', ''text/markdown''),
       (''.markdown'', ''text/markdown''), (''.json'', ''application/json''),
       (''.csv'', ''text/csv''), (''.png'', ''image/png''), (''.jpg'', ''image/jpeg''),
       (''.jpeg'', ''image/jpeg''), (''.webp'', ''image/webp''), (''.gif'', ''image/gif''),
       (''.pdf'', ''application/pdf'')]
       (toLowerCase e (extname e filePath))"

definition getBlobRelPath :: "env \<Rightarrow> string \<Rightarrow> string \<Rightarrow> string" where
  "getBlobRelPath e documentId sourcePath = ''blobs/'' @ documentId @ extname e sourcePath"

definition bufferLooksBinary :: "byte list \<Rightarrow> bool" where
  "bufferLooksBinary buf = (0 \<in> set buf)"

text \<open>The three prepared statements; \<open>id\<close> is the primary key of both tables, and
  \<open>chunks.document_id\<close> references \<open>documents(id)\<close> with foreign keys enforced.\<close>

definition insertDocument ::
  "string \<Rightarrow> string \<Rightarrow> string \<Rightarrow> string \<Rightarrow> string option \<Rightarrow> nat \<Rightarrow> nat \<Rightarrow> store \<Rightarrow> error + store" where
  "insertDocument documentId title sourcePath blobRelPath mime sizeBytes now s =
     (if documentId \<in> doc_id ` set (documents s) then Inl ConstraintViolation
      else Inr (s\<lparr>documents := documents s @
        [\<lparr>doc_id = documentId, doc_kind = KindFile, doc_title = title,
          doc_source_path = Some sourcePath, doc_blob_rel_path = Some blobRelPath,
          doc_mime_type = mime, doc_size_bytes = sizeBytes, doc_sha256 = None,
          doc_created_at = now, doc_updated_at = now\<rparr>]\<rparr>))"

definition updateSha :: "string \<Rightarrow> nat \<Rightarrow> string \<Rightarrow> store \<Rightarrow> store" where
  "updateSha digest now documentId s =
     s\<lparr>documents := map (\<lambda>d. if doc_id d = documentId
                                then d\<lparr>doc_sha256 := Some digest, doc_updated_at := now\<rparr> else d)
                          (documents s)\<rparr>"

text \<open>
  \<open>chunks.content\<close> is a \<open>TEXT\<close> column: the string bound to it is written as UTF-8
  and read back from UTF-8. A surrogate pair comes back as it was; a surrogate code unit
  that is not part of a pair (one half of a pair that a window edge has cut, for
  instance) comes back as U+FFFD. \<open>sqlite_text\<close> is what the column gives back for the
  string bound to it.
\<close>

definition is_high_surrogate :: "unit16 \<Rightarrow> bool" where
  "is_high_surrogate c = (0xD800 \<le> c \<and> c \<le> 0xDBFF)"

definition is_low_surrogate :: "unit16 \<Rightarrow> bool" where
  "is_low_surrogate c = (0xDC00 \<le> c \<and> c \<le> 0xDFFF)"

fun sqlite_text :: "jsstring \<Rightarrow> jsstring" where
  "sqlite_text [] = []"
| "sqlite_text [c] = [if is_high_surrogate c \<or> is_low_surrogate c then 0xFFFD else c]"
| "sqlite_text (c # d # cs) =
     (if is_high_surrogate c \<and> is_low_surrogate d then c # d # sqlite_text cs
      else (if is_high_surrogate c \<or> is_low_surrogate c then 0xFFFD else c) #
           sqlite_text (d # cs))"

definition insertChunk ::
  "string \<Rightarrow> string \<Rightarrow> nat \<Rightarrow> jsstring \<Rightarrow> nat \<Rightarrow> store \<Rightarrow> error + store" where
  "insertChunk cid documentId idx content now s =
     (if cid \<in> chunk_id ` set (chunks s) \<or> documentId \<notin> doc_id ` set (documents s)
      then Inl ConstraintViolation
      else Inr (s\<lparr>chunks := chunks s @
        [\<lparr>chunk_id = cid, chunk_document_id = documentId, chunk_index = idx,
          chunk_content = sqlite_text content, chunk_created_at = now\<rparr>]\<rparr>))"

text \<open>
  \<open>for (const part of parts) insertChunk.run(crypto.randomUUID(), documentId,
  chunkIndex++, part, Date.now())\<close>: \<open>ids k\<close> is the UUID drawn for chunk index \<open>k\<close>.
\<close>

fun insert_parts ::
  "(nat \<Rightarrow> string) \<Rightarrow> string \<Rightarrow> nat \<Rightarrow> jsstring list \<Rightarrow> store \<Rightarrow> nat \<Rightarrow> error + store \<times> nat" where
  "insert_parts ids documentId now [] s chunkIndex = Inr (s, chunkIndex)"
| "insert_parts ids documentId now (part # parts) s chunkIndex =
     (case insertChunk (ids chunkIndex) documentId chunkIndex part now s of
        Inl e \<Rightarrow> Inl e
      | Inr s' \<Rightarrow> insert_parts ids documentId now parts s' (Suc chunkIndex))"

text \<open>The local variables of the streaming loop.\<close>

record import_state =
  st_store :: store
  st_hashed :: "byte list"
  st_blob :: "byte list"
  st_pending :: "byte list"
  st_carry :: jsstring
  st_chunkIndex :: nat
  st_decidedBinary :: bool
  st_canIndex :: bool

text \<open>\<open>chunker.push(text)\<close> followed by the insertion of the parts.\<close>

definition index_text ::
  "(nat \<Rightarrow> string) \<Rightarrow> string \<Rightarrow> nat \<Rightarrow> jsstring \<Rightarrow> import_state \<Rightarrow> (error + import_state) option" where
  "index_text ids documentId now text st =
     (case chunker_push 2000 200 (st_carry st) text of
        None \<Rightarrow> None
      | Some (parts, carry') \<Rightarrow>
          (case insert_parts ids documentId now parts (st_store st) (st_chunkIndex st) of
             Inl e \<Rightarrow> Some (Inl e)
           | Inr (s', k) \<Rightarrow>
               Some (Inr (st\<lparr>st_carry := carry', st_store := s', st_chunkIndex := k\<rparr>))))"

text \<open>The body of \<open>for await (const buf of reader)\<close>.\<close>

definition step_buffer ::
  "env \<Rightarrow> (nat \<Rightarrow> string) \<Rightarrow> string \<Rightarrow> nat \<Rightarrow> byte list \<Rightarrow> import_state \<Rightarrow> (error + import_state) option" where
  "step_buffer e ids documentId now buffer st0 =
     (let st = st0\<lparr>st_hashed := st_hashed st0 @ buffer, st_blob := st_blob st0 @ buffer\<rparr>
      in if \<not> st_canIndex st then Some (Inr st)
         else if \<not> st_decidedBinary st \<and> bufferLooksBinary buffer
           then Some (Inr (st\<lparr>st_decidedBinary := True, st_canIndex := False\<rparr>))
         else (case decoder_write e (st_pending st) buffer of
                 (text, pending') \<Rightarrow>
                   index_text ids documentId now text
                     (st\<lparr>st_decidedBinary := True, st_pending := pending'\<rparr>)))"

fun stream_loop ::
  "env \<Rightarrow> (nat \<Rightarrow> string) \<Rightarrow> string \<Rightarrow> nat \<Rightarrow> byte list list \<Rightarrow> import_state \<Rightarrow> (error + import_state) option" where
  "stream_loop e ids documentId now [] st = Some (Inr st)"
| "stream_loop e ids documentId now (buf # bufs) st =
     (case step_buffer e ids documentId now buf st of
        None \<Rightarrow> None
      | Some (Inl err) \<Rightarrow> Some (Inl err)
      | Some (Inr st') \<Rightarrow> stream_loop e ids documentId now bufs st')"

text \<open>
  After the loop: \<open>decoder.end()\<close>, and when \<open>canIndex\<close> the tail is pushed and the
  chunker flushed.
\<close>

definition finish_index ::
  "env \<Rightarrow> (nat \<Rightarrow> string) \<Rightarrow> string \<Rightarrow> nat \<Rightarrow> import_state \<Rightarrow> (error + import_state) option" where
  "finish_index e ids documentId now st =
     (if \<not> st_canIndex st then Some (Inr st)
      else (case index_text ids documentId now (decoder_end e (st_pending st)) st of
              None \<Rightarrow> None
            | Some (Inl err) \<Rightarrow> Some (Inl err)
            | Some (Inr st1) \<Rightarrow>
                (case chunker_flush (st_carry st1) of
                   (None, carry') \<Rightarrow> Some (Inr (st1\<lparr>st_carry := carry'\<rparr>))
                 | (Some rest, carry') \<Rightarrow>
                     (case insertChunk (ids (st_chunkIndex st1)) documentId (st_chunkIndex st1)
                             rest now (st_store st1) of
                        Inl err \<Rightarrow> Some (Inl err)
                      | Inr s' \<Rightarrow>
                          Some (Inr (st1\<lparr>st_carry := carry', st_store := s',
                                         st_chunkIndex := Suc (st_chunkIndex st1)\<rparr>))))))"

record import_result =
  res_status :: JobItemStatus
  res_documentId :: "string option"
  res_error :: "error option"

text \<open>\<open>UPDATE job_items SET updated_at = ? WHERE id = ?\<close> of the \<open>finally\<close> block.\<close>

definition touch_item :: "nat \<Rightarrow> string \<Rightarrow> store \<Rightarrow> store" where
  "touch_item now jobItemId s =
     s\<lparr>job_items := map (\<lambda>i. if item_id i = jobItemId then i\<lparr>item_updated_at := now\<rparr> else i)
                          (job_items s)\<rparr>"

text \<open>
  What runs between \<open>BEGIN\<close> and \<open>COMMIT\<close>: the result is the store to commit, the
  bytes of the blob and \<open>canIndex\<close>, or the error that reaches the \<open>catch\<close>.
\<close>

definition import_body ::
  "env \<Rightarrow> string \<Rightarrow> (nat \<Rightarrow> string) \<Rightarrow> nat \<Rightarrow> string \<Rightarrow> nat \<Rightarrow> byte list list \<Rightarrow> string option \<Rightarrow>
     store \<Rightarrow> (error + store \<times> byte list \<times> bool) option" where
  "import_body e documentId ids now sourcePath sizeBytes bufs rerr s =
     (case insertDocument documentId (basename e sourcePath) sourcePath
             (getBlobRelPath e documentId sourcePath) (guessMimeType e sourcePath) sizeBytes now s of
        Inl err \<Rightarrow> Some (Inl err)
      | Inr s1 \<Rightarrow>
          (case stream_loop e ids documentId now bufs
                  \<lparr>st_store = s1, st_hashed = [], st_blob = [], st_pending = [], st_carry = [],
                    st_chunkIndex = 0, st_decidedBinary = False,
                    st_canIndex = isSupportedTextExtension e sourcePath\<rparr> of
             None \<Rightarrow> None
           | Some (Inl err) \<Rightarrow> Some (Inl err)
           | Some (Inr st) \<Rightarrow>
               (case rerr of
                  Some msg \<Rightarrow> Some (Inl (Thrown msg))
                | None \<Rightarrow>
                    (case finish_index e ids documentId now st of
                       None \<Rightarrow> None
                     | Some (Inl err) \<Rightarrow> Some (Inl err)
                     | Some (Inr st') \<Rightarrow>
                         Some (Inr (updateSha (sha256_hex e (st_hashed st')) now documentId
                                      (st_store st'),
                                    st_blob st', st_canIndex st'))))))"

text \<open>
  \<open>importOneFile\<close>. \<open>blobs\<close> is the \<open>blobs/\<close> directory of the knowledge base, by
  relative path. On an error the transaction is rolled back (the store is the one at
  \<open>BEGIN\<close>) and the blob file is removed; the \<open>finally\<close> block then touches the job item.
  The two early returns happen before the \<open>try\<close>.
\<close>

definition importOneFile ::
  "env \<Rightarrow> string \<Rightarrow> (nat \<Rightarrow> string) \<Rightarrow> nat \<Rightarrow> fsnode \<Rightarrow> string \<Rightarrow> string \<Rightarrow>
     store \<times> (string \<rightharpoonup> byte list) \<Rightarrow> (import_result \<times> store \<times> (string \<rightharpoonup> byte list)) option" where
  "importOneFile e documentId ids now node sourcePath jobItemId sb =
     (case sb of (s, blobs) \<Rightarrow>
      (case node of
         Absent \<Rightarrow>
           Some (\<lparr>res_status = ItemFailed, res_documentId = None,
                   res_error = Some FileUnreadable\<rparr>, s, blobs)
       | NotRegular \<Rightarrow>
           Some (\<lparr>res_status = ItemSkipped, res_documentId = None,
                   res_error = Some NotAFile\<rparr>, s, blobs)
       | Regular sizeBytes bufs rerr \<Rightarrow>
           (case import_body e documentId ids now sourcePath sizeBytes bufs rerr s of
              None \<Rightarrow> None
            | Some (Inr (s', blob, canIndex)) \<Rightarrow>
                Some (\<lparr>res_status = (if canIndex then ItemDone else ItemSkipped),
                        res_documentId = Some documentId, res_error = None\<rparr>,
                      touch_item now jobItemId s',
                      blobs(getBlobRelPath e documentId sourcePath \<mapsto> blob))
            | Some (Inl err) \<Rightarrow>
                Some (\<lparr>res_status = ItemFailed, res_documentId = None, res_error = Some err\<rparr>,
                      touch_item now jobItemId s,
                      blobs(getBlobRelPath e documentId sourcePath := None)))))"

section \<open>The job scheduler of one knowledge base\<close>

text \<open>
  The state of the worker as far as one knowledge base is concerned: its database file
  and blob directory, whether \<open>dbCache\<close> holds its handle, its entry in \<open>runningByKb\<close>,
  the set \<open>inMemoryCanceledJobs\<close>, the run loop suspended at
  \<open>await importOneFile(...)\<close> (job id, item id and source path of \<open>next\<close>), and the
  payloads of the \<open>job:update\<close> events sent so far.

  JavaScript runs a handler without interruption up to its next \<open>await\<close>. The run loop
  is suspended only while \<open>importOneFile\<close> runs; that call is taken as one step, made when
  it settles. Every other function below is one uninterrupted run, and one clock value
  stands for the \<open>Date.now()\<close> calls of a run.
\<close>

record worker =
  w_db :: store
  w_blobs :: "string \<rightharpoonup> byte list"
  w_opened :: bool
  w_running :: "string option"
  w_canceled :: "string set"
  w_inflight :: "(string \<times> string \<times> string) option"
  w_events :: "job option list"

definition init_worker :: "store \<Rightarrow> worker" where
  "init_worker file = \<lparr>w_db = file, w_blobs = Map.empty, w_opened = False, w_running = None,
     w_canceled = {}, w_inflight = None, w_events = []\<rparr>"

text \<open>\<open>getDb\<close>: the cached handle, or open, migrate and recover. A migration error is
  thrown to the caller and nothing is cached.\<close>

definition getDb :: "env \<Rightarrow> nat \<Rightarrow> worker \<Rightarrow> error option \<times> worker" where
  "getDb e now w =
     (if w_opened w then (None, w)
      else (case getDb_open (sql_ok e) KNOWLEDGE_META_MIGRATIONS now now (w_db w) of
              (Some err, c) \<Rightarrow> (Some err, w\<lparr>w_db := cur c\<rparr>)
            | (None, c) \<Rightarrow> (None, w\<lparr>w_db := cur c, w_opened := True\<rparr>)))"

text \<open>\<open>jobSummary\<close> (\<open>row ?? null\<close>) and \<open>sendEvent("job:update", ...)\<close>.\<close>

definition jobSummary :: "store \<Rightarrow> string \<Rightarrow> job option" where
  "jobSummary s jobId = find (\<lambda>j. job_id j = jobId) (jobs s)"

definition sendJobUpdate :: "string \<Rightarrow> worker \<Rightarrow> worker" where
  "sendJobUpdate jobId w = w\<lparr>w_events := w_events w @ [jobSummary (w_db w) jobId]\<rparr>"

text \<open>An \<open>UPDATE ... WHERE\<close> on each of the two tables.\<close>

definition update_jobs :: "(job \<Rightarrow> bool) \<Rightarrow> (job \<Rightarrow> job) \<Rightarrow> store \<Rightarrow> store" where
  "update_jobs P f s = s\<lparr>jobs := map (\<lambda>j. if P j then f j else j) (jobs s)\<rparr>"

definition update_items :: "(job_item \<Rightarrow> bool) \<Rightarrow> (job_item \<Rightarrow> job_item) \<Rightarrow> store \<Rightarrow> store" where
  "update_items P f s = s\<lparr>job_items := map (\<lambda>i. if P i then f i else i) (job_items s)\<rparr>"

text \<open>The statements of \<open>processImportJob\<close>, in the order in which they appear.\<close>

definition mark_job_processing :: "nat \<Rightarrow> string \<Rightarrow> store \<Rightarrow> store" where
  "mark_job_processing now jobId =
     update_jobs (\<lambda>j. job_id j = jobId)
       (\<lambda>j. j\<lparr>job_status := Processing,
              job_started_at := (case job_started_at j of None \<Rightarrow> Some now | Some t \<Rightarrow> Some t),
              job_updated_at := now, job_heartbeat_at := Some now\<rparr>)"

definition job_status_of :: "store \<Rightarrow> string \<Rightarrow> JobStatus option" where
  "job_status_of s jobId = map_option job_status (find (\<lambda>j. job_id j = jobId) (jobs s))"

text \<open>\<open>SELECT ... WHERE job_id = ? AND status = 'pending' ORDER BY created_at ASC LIMIT 1\<close>:
  the rows in table order, sorted (stably) by \<open>created_at\<close>; the first one.\<close>

definition next_pending_item :: "store \<Rightarrow> string \<Rightarrow> job_item option" where
  "next_pending_item s jobId =
     (case sort_key item_created_at
             (filter (\<lambda>i. item_job_id i = jobId \<and> item_status i = ItemPending) (job_items s)) of
        [] \<Rightarrow> None
      | i # _ \<Rightarrow> Some i)"

definition mark_job_done :: "nat \<Rightarrow> string \<Rightarrow> store \<Rightarrow> store" where
  "mark_job_done now jobId =
     update_jobs (\<lambda>j. job_id j = jobId)
       (\<lambda>j. j\<lparr>job_status := Done, job_finished_at := Some now, job_updated_at := now,
              job_heartbeat_at := Some now\<rparr>)"

definition mark_item_processing :: "nat \<Rightarrow> string \<Rightarrow> store \<Rightarrow> store" where
  "mark_item_processing now itemId =
     update_items (\<lambda>i. item_id i = itemId)
       (\<lambda>i. i\<lparr>item_status := ItemProcessing, item_started_at := Some now,
              item_updated_at := now\<rparr>)"

definition finish_item :: "nat \<Rightarrow> import_result \<Rightarrow> string \<Rightarrow> store \<Rightarrow> store" where
  "finish_item now res itemId =
     update_items (\<lambda>i. item_id i = itemId)
       (\<lambda>i. i\<lparr>item_status := res_status res, item_error_message := res_error res,
              item_finished_at := Some now, item_updated_at := now\<rparr>)"

text \<open>\<open>SELECT COUNT(*) FROM job_items WHERE job_id = ? AND status IN ('done', 'failed',
  'skipped')\<close>\<close>

definition doneCount :: "store \<Rightarrow> string \<Rightarrow> nat" where
  "doneCount s jobId =
     length (filter (\<lambda>i. item_job_id i = jobId \<and>
                          item_status i \<in> {ItemDone, ItemFailed, ItemSkipped}) (job_items s))"

definition set_progress :: "nat \<Rightarrow> nat \<Rightarrow> string \<Rightarrow> store \<Rightarrow> store" where
  "set_progress now n jobId =
     update_jobs (\<lambda>j. job_id j = jobId)
       (\<lambda>j. j\<lparr>progress_current := n, job_updated_at := now, job_heartbeat_at := Some now\<rparr>)"

definition mark_job_failed :: "nat \<Rightarrow> error \<Rightarrow> string \<Rightarrow> store \<Rightarrow> store" where
  "mark_job_failed now err jobId =
     update_jobs (\<lambda>j. job_id j = jobId)
       (\<lambda>j. j\<lparr>job_status := Failed, job_error_message := Some err,
              job_finished_at := Some now, job_updated_at := now\<rparr>)"

text \<open>
  The \<open>while (true)\<close> loop from its top to where it next waits or ends: it ends on a
  canceled job id, on a missing, finished or paused job, and, after marking the job
  \<open>done\<close>, when no item is pending; otherwise it marks the oldest pending item
  \<open>processing\<close> and waits for \<open>importOneFile\<close>.
\<close>

datatype loop_outcome = Suspended worker | Exited worker

definition loop_iteration :: "nat \<Rightarrow> string \<Rightarrow> worker \<Rightarrow> loop_outcome" where
  "loop_iteration now jobId w =
     (if jobId \<in> w_canceled w then Exited w
      else (case job_status_of (w_db w) jobId of
              None \<Rightarrow> Exited w
            | Some Done \<Rightarrow> Exited w
            | Some Failed \<Rightarrow> Exited w
            | Some Canceled \<Rightarrow> Exited w
            | Some Paused \<Rightarrow> Exited w
            | Some _ \<Rightarrow>
                (case next_pending_item (w_db w) jobId of
                   None \<Rightarrow>
                     Exited (sendJobUpdate jobId (w\<lparr>w_db := mark_job_done now jobId (w_db w)\<rparr>))
                 | Some i \<Rightarrow>
                     Suspended (w\<lparr>w_db := mark_item_processing now (item_id i) (w_db w),
                                   w_inflight := Some (jobId, item_id i, item_source_path i)\<rparr>))))"

text \<open>
  \<open>processImportJob\<close> up to where its loop first waits or ends; \<open>None\<close> is the early
  \<open>return\<close> taken when a different job is recorded as running.
\<close>

definition job_run :: "nat \<Rightarrow> string \<Rightarrow> worker \<Rightarrow> loop_outcome option" where
  "job_run now jobId w =
     (if (case w_running w of None \<Rightarrow> False | Some r \<Rightarrow> r \<noteq> [] \<and> r \<noteq> jobId) then None
      else Some (loop_iteration now jobId
                   (sendJobUpdate jobId
                      (w\<lparr>w_running := Some jobId,
                         w_db := mark_job_processing now jobId (w_db w)\<rparr>))))"

text \<open>
  What \<open>scheduleNextPendingJob\<close> selects: nothing while some job is \<open>paused\<close>; otherwise
  the oldest \<open>pending\<close> import job, if its id is not empty (\<open>if (next?.id)\<close>).
\<close>

definition next_pending_job :: "store \<Rightarrow> string option" where
  "next_pending_job s =
     (if \<exists>j\<in>set (jobs s). job_status j = Paused then None
      else (case sort_key job_created_at
                   (filter (\<lambda>j. job_type j = ''import_files'' \<and> job_status j = Pending) (jobs s)) of
              [] \<Rightarrow> None
            | j # _ \<Rightarrow> if job_id j = [] then None else Some (job_id j)))"

definition pending_count :: "store \<Rightarrow> nat" where
  "pending_count s = length (filter (\<lambda>j. job_status j = Pending) (jobs s))"

text \<open>
  \<open>scheduleNextPendingJob\<close> starts the selected job with \<open>processImportJob\<close>, whose
  \<open>finally\<close> block deletes the \<open>runningByKb\<close> entry and calls \<open>scheduleNextPendingJob\<close>
  again. The two are written as one recursion; it ends because every job it starts was
  \<open>pending\<close> and is no longer, and nothing in between makes a job \<open>pending\<close>.
\<close>

lemma pending_count_update_less:
  assumes "\<exists>j\<in>set (jobs s). P j \<and> job_status j = Pending"
    and "\<And>j. job_status (f j) \<noteq> Pending"
  shows "pending_count (update_jobs P f s) < pending_count s"
proof -
  have "length (filter (\<lambda>j. job_status j = Pending) (map (\<lambda>j. if P j then f j else j) xs))
        < length (filter (\<lambda>j. job_status j = Pending) xs)"
    if "\<exists>j\<in>set xs. P j \<and> job_status j = Pending" for xs
    using that
  proof (induction xs)
    case Nil
    then show ?case by simp
  next
    case (Cons x xs)
    have le: "length (filter (\<lambda>j. job_status j = Pending) (map (\<lambda>j. if P j then f j else j) ys))
        \<le> length (filter (\<lambda>j. job_status j = Pending) ys)" for ys
      using assms(2) by (induction ys) auto
    show ?case
    proof (cases "P x \<and> job_status x = Pending")
      case True
      then show ?thesis using le[of xs] assms(2) by auto
    next
      case False
      then have "\<exists>j\<in>set xs. P j \<and> job_status j = Pending" using Cons.prems by auto
      from Cons.IH[OF this] show ?thesis using assms(2) by auto
    qed
  qed
  then show ?thesis using assms(1) by (simp add: pending_count_def update_jobs_def)
qed

lemma pending_count_update_le:
  assumes "\<And>j. job_status (f j) \<noteq> Pending"
  shows "pending_count (update_jobs P f s) \<le> pending_count s"
proof -
  have "length (filter (\<lambda>j. job_status j = Pending) (map (\<lambda>j. if P j then f j else j) ys))
        \<le> length (filter (\<lambda>j. job_status j = Pending) ys)" for ys
    using assms by (induction ys) auto
  then show ?thesis by (simp add: pending_count_def update_jobs_def)
qed

lemma pending_count_update_items [simp]:
  "pending_count (update_items P f s) = pending_count s"
  by (simp add: pending_count_def update_items_def)

lemma hd_sort_key_mem: "sort_key f xs = y # ys \<Longrightarrow> y \<in> set xs"
  by (metis list.set_intros(1) set_sort)

lemma next_pending_job_pending:
  assumes "next_pending_job s = Some jobId"
  shows "\<exists>j\<in>set (jobs s). job_id j = jobId \<and> job_status j = Pending"
proof -
  from assms obtain j js where
    srt: "sort_key job_created_at
            (filter (\<lambda>j. job_type j = ''import_files'' \<and> job_status j = Pending) (jobs s)) = j # js"
    and jid: "job_id j = jobId"
    by (auto simp: next_pending_job_def split: if_splits list.splits)
  from hd_sort_key_mem[OF srt] have "j \<in> set (jobs s)" "job_status j = Pending" by auto
  then show ?thesis using jid by auto
qed

lemma loop_iteration_exit_pending:
  "loop_iteration now jobId w = Exited w' \<Longrightarrow> pending_count (w_db w') \<le> pending_count (w_db w)"
  using pending_count_update_le[of _ "\<lambda>j. job_id j = jobId" "w_db w"]
  by (auto simp: loop_iteration_def sendJobUpdate_def mark_job_done_def
      split: if_splits option.splits JobStatus.splits)

lemma job_run_exit_pending:
  assumes "job_run now jobId w = Some (Exited w')"
    and "\<exists>j\<in>set (jobs (w_db w)). job_id j = jobId \<and> job_status j = Pending"
  shows "pending_count (w_db w') < pending_count (w_db w)"
proof -
  let ?w1 = "sendJobUpdate jobId (w\<lparr>w_running := Some jobId,
               w_db := mark_job_processing now jobId (w_db w)\<rparr>)"
  have run: "loop_iteration now jobId ?w1 = Exited w'"
    using assms(1) by (auto simp: job_run_def split: if_splits)
  have "pending_count (w_db ?w1) < pending_count (w_db w)"
    using pending_count_update_less[of "w_db w" "\<lambda>j. job_id j = jobId"] assms(2)
    by (simp add: sendJobUpdate_def mark_job_processing_def)
  with loop_iteration_exit_pending[OF run] show ?thesis by simp
qed

function scheduleNextPendingJob :: "nat \<Rightarrow> worker \<Rightarrow> worker" where
  "scheduleNextPendingJob now w =
     (case next_pending_job (w_db w) of
        None \<Rightarrow> w
      | Some jobId \<Rightarrow>
          (case job_run now jobId w of
             None \<Rightarrow> w
           | Some (Suspended w') \<Rightarrow> w'
           | Some (Exited w') \<Rightarrow> scheduleNextPendingJob now (w'\<lparr>w_running := None\<rparr>)))"
  by pat_completeness auto
termination
proof (relation "measure (\<lambda>(now, w). pending_count (w_db w))")
  show "wf (measure (\<lambda>(now, w). pending_count (w_db w)))" by simp
next
  fix now w jobId x w'
  assume "next_pending_job (w_db w) = Some jobId" "job_run now jobId w = Some x" "x = Exited w'"
  then show "((now, w'\<lparr>w_running := None\<rparr>), (now, w)) \<in> measure (\<lambda>(now, w). pending_count (w_db w))"
    using job_run_exit_pending[of now jobId w w'] next_pending_job_pending[of "w_db w" jobId]
    by simp
qed

definition processImportJob :: "nat \<Rightarrow> string \<Rightarrow> worker \<Rightarrow> worker" where
  "processImportJob now jobId w =
     (case job_run now jobId w of
        None \<Rightarrow> w
      | Some (Suspended w') \<Rightarrow> w'
      | Some (Exited w') \<Rightarrow> scheduleNextPendingJob now (w'\<lparr>w_running := None\<rparr>))"

declare scheduleNextPendingJob.simps [simp del]

section \<open>The request handlers\<close>

text \<open>\<open>resolveImportFileList\<close>: the paths of the sources in order, de-duplicated by
  \<open>[...new Set(files)]\<close>, which keeps the first occurrence of each path.\<close>

definition dedupe :: "'a list \<Rightarrow> 'a list" where
  "dedupe xs = rev (remdups (rev xs))"

definition resolveImportFileList :: "env \<Rightarrow> ImportSource list \<Rightarrow> string list" where
  "resolveImportFileList e sources =
     dedupe (concat (map (\<lambda>source. case source of
         Files paths \<Rightarrow> paths
       | Directory paths recursive \<Rightarrow>
           concat (map (\<lambda>dir. collectFilesFromDirectory e dir
                                 (case recursive of None \<Rightarrow> True | Some b \<Rightarrow> b)) paths)) sources))"

text \<open>\<open>insertJob\<close> and \<open>insertItem\<close>: primary keys, and the unique index on
  \<open>(job_id, source_path)\<close>. \<open>itemIds k\<close> is the UUID drawn for the \<open>k\<close>-th file.\<close>

definition insertJob :: "string \<Rightarrow> ImportSource list \<Rightarrow> nat \<Rightarrow> nat \<Rightarrow> store \<Rightarrow> error + store" where
  "insertJob jobId payload fileCount now s =
     (if jobId \<in> job_id ` set (jobs s) then Inl ConstraintViolation
      else Inr (s\<lparr>jobs := jobs s @
        [\<lparr>job_id = jobId, job_type = ''import_files'', job_status = Pending,
          job_payload = payload, progress_current = 0, progress_total = fileCount,
          job_error_message = None, job_created_at = now, job_started_at = None,
          job_finished_at = None, job_updated_at = now, job_heartbeat_at = None\<rparr>]\<rparr>))"

definition insertItem :: "string \<Rightarrow> string \<Rightarrow> string \<Rightarrow> nat \<Rightarrow> store \<Rightarrow> error + store" where
  "insertItem itemId jobId sourcePath now s =
     (if itemId \<in> item_id ` set (job_items s) \<or> jobId \<notin> job_id ` set (jobs s) \<or>
         (jobId, sourcePath) \<in> (\<lambda>i. (item_job_id i, item_source_path i)) ` set (job_items s)
      then Inl ConstraintViolation
      else Inr (s\<lparr>job_items := job_items s @
        [\<lparr>item_id = itemId, item_job_id = jobId, item_source_path = sourcePath,
          item_status = ItemPending, item_error_message = None, item_created_at = now,
          item_updated_at = now, item_started_at = None, item_finished_at = None\<rparr>]\<rparr>))"

fun insert_items :: "(nat \<Rightarrow> string) \<Rightarrow> string \<Rightarrow> nat \<Rightarrow> string list \<Rightarrow> nat \<Rightarrow> store \<Rightarrow> error + store" where
  "insert_items itemIds jobId now [] k s = Inr s"
| "insert_items itemIds jobId now (sourcePath # files) k s =
     (case insertItem (itemIds k) jobId sourcePath now s of
        Inl err \<Rightarrow> Inl err
      | Inr s' \<Rightarrow> insert_items itemIds jobId now files (Suc k) s')"

text \<open>The transaction of \<open>handleImportFiles\<close>: on an error it is rolled back and the
  error is thrown on.\<close>

definition insert_job_with_items ::
  "string \<Rightarrow> (nat \<Rightarrow> string) \<Rightarrow> ImportSource list \<Rightarrow> string list \<Rightarrow> nat \<Rightarrow> store \<Rightarrow> error + store" where
  "insert_job_with_items jobId itemIds sources files now s =
     (case insertJob jobId sources (length files) now s of
        Inl err \<Rightarrow> Inl err
      | Inr s1 \<Rightarrow> insert_items itemIds jobId now files 0 s1)"

definition handleImportFiles ::
  "env \<Rightarrow> string \<Rightarrow> (nat \<Rightarrow> string) \<Rightarrow> nat \<Rightarrow> string \<Rightarrow> ImportSource list \<Rightarrow> worker \<Rightarrow>
     (error + string) \<times> worker" where
  "handleImportFiles e jobId itemIds now kbId sources w =
     (if kbId = [] then (Inl KbIdEmpty, w)
      else if sources = [] then (Inl SourcesEmpty, w)
      else (case getDb e now w of
              (Some err, w1) \<Rightarrow> (Inl err, w1)
            | (None, w1) \<Rightarrow>
                (let files = resolveImportFileList e sources
                 in if files = [] then (Inl NoFilesFound, w1)
                    else (case insert_job_with_items jobId itemIds sources files now (w_db w1) of
                            Inl err \<Rightarrow> (Inl err, w1)
                          | Inr s \<Rightarrow>
                              (let w2 = w1\<lparr>w_db := s\<rparr>;
                                   w3 = (if w_running w2 = None
                                         then processImportJob now jobId w2 else w2)
                               in (Inr jobId, sendJobUpdate jobId w3))))))"

text \<open>\<open>handleEnsureInitialized\<close>, and what \<open>handleListJobs\<close> and \<open>handleGetStats\<close> do
  to the state: they open the knowledge base.\<close>

definition handleEnsureInitialized :: "env \<Rightarrow> nat \<Rightarrow> string \<Rightarrow> worker \<Rightarrow> (error + unit) \<times> worker" where
  "handleEnsureInitialized e now kbId w =
     (if kbId = [] then (Inl KbIdEmpty, w)
      else (case getDb e now w of
              (Some err, w1) \<Rightarrow> (Inl err, w1)
            | (None, w1) \<Rightarrow> (Inr (), w1)))"

definition pause_job :: "nat \<Rightarrow> string \<Rightarrow> store \<Rightarrow> store" where
  "pause_job now jobId =
     update_jobs (\<lambda>j. job_id j = jobId \<and> job_status j \<in> {Pending, Processing})
       (\<lambda>j. j\<lparr>job_status := Paused, job_updated_at := now\<rparr>)"

definition handlePauseJob :: "env \<Rightarrow> nat \<Rightarrow> string \<Rightarrow> string \<Rightarrow> worker \<Rightarrow> (error + unit) \<times> worker" where
  "handlePauseJob e now kbId jobId w =
     (if kbId = [] \<or> jobId = [] then (Inl KbIdOrJobIdEmpty, w)
      else (case getDb e now w of
              (Some err, w1) \<Rightarrow> (Inl err, w1)
            | (None, w1) \<Rightarrow>
                (Inr (), sendJobUpdate jobId (w1\<lparr>w_db := pause_job now jobId (w_db w1)\<rparr>))))"

definition resume_job :: "nat \<Rightarrow> string \<Rightarrow> store \<Rightarrow> store" where
  "resume_job now jobId =
     update_jobs (\<lambda>j. job_id j = jobId \<and> job_status j \<in> {Paused, Pending})
       (\<lambda>j. j\<lparr>job_status := Pending, job_updated_at := now\<rparr>)"

definition handleResumeJob :: "env \<Rightarrow> nat \<Rightarrow> string \<Rightarrow> string \<Rightarrow> worker \<Rightarrow> (error + unit) \<times> worker" where
  "handleResumeJob e now kbId jobId w =
     (if kbId = [] \<or> jobId = [] then (Inl KbIdOrJobIdEmpty, w)
      else (case getDb e now w of
              (Some err, w1) \<Rightarrow> (Inl err, w1)
            | (None, w1) \<Rightarrow>
                (let w2 = w1\<lparr>w_db := resume_job now jobId (w_db w1)\<rparr>;
                     w3 = (if w_running w2 = None then processImportJob now jobId w2 else w2)
                 in (Inr (), sendJobUpdate jobId w3))))"

definition cancel_job :: "nat \<Rightarrow> string \<Rightarrow> store \<Rightarrow> store" where
  "cancel_job now jobId =
     update_jobs (\<lambda>j. job_id j = jobId)
       (\<lambda>j. j\<lparr>job_status := Canceled,
              job_finished_at := (case job_finished_at j of None \<Rightarrow> Some now | Some t \<Rightarrow> Some t),
              job_updated_at := now\<rparr>)"

definition cancel_items :: "nat \<Rightarrow> string \<Rightarrow> store \<Rightarrow> store" where
  "cancel_items now jobId =
     update_items (\<lambda>i. item_job_id i = jobId \<and> item_status i \<in> {ItemPending, ItemProcessing})
       (\<lambda>i. i\<lparr>item_status := ItemSkipped, item_updated_at := now\<rparr>)"

text \<open>\<open>handleCancelJob\<close> adds the job id to \<open>inMemoryCanceledJobs\<close> before it opens the
  knowledge base.\<close>

definition handleCancelJob :: "env \<Rightarrow> nat \<Rightarrow> string \<Rightarrow> string \<Rightarrow> worker \<Rightarrow> (error + unit) \<times> worker" where
  "handleCancelJob e now kbId jobId w =
     (if kbId = [] \<or> jobId = [] then (Inl KbIdOrJobIdEmpty, w)
      else (case getDb e now (w\<lparr>w_canceled := insert jobId (w_canceled w)\<rparr>) of
              (Some err, w1) \<Rightarrow> (Inl err, w1)
            | (None, w1) \<Rightarrow>
                (Inr (), sendJobUpdate jobId
                   (w1\<lparr>w_db := cancel_items now jobId (cancel_job now jobId (w_db w1))\<rparr>))))"

section \<open>The run loop after \<open>importOneFile\<close> has settled\<close>

text \<open>
  When the awaited call returns \<open>result\<close>: the item gets the reported status, the progress
  of the job is counted again, an event is sent, and the loop goes round; when it leaves
  the loop, the \<open>finally\<close> block deletes the \<open>runningByKb\<close> entry and schedules the next
  job.
\<close>

definition after_exit :: "nat \<Rightarrow> loop_outcome \<Rightarrow> worker" where
  "after_exit now outcome =
     (case outcome of
        Suspended w' \<Rightarrow> w'
      | Exited w' \<Rightarrow> scheduleNextPendingJob now (w'\<lparr>w_running := None\<rparr>))"

definition file_settled :: "nat \<Rightarrow> import_result \<Rightarrow> worker \<Rightarrow> worker" where
  "file_settled now result w =
     (case w_inflight w of
        None \<Rightarrow> w
      | Some (jobId, itemId, sourcePath) \<Rightarrow>
          (let s1 = finish_item now result itemId (w_db w);
               s2 = set_progress now (doneCount s1 jobId) jobId s1
           in after_exit now
                (loop_iteration now jobId
                   (sendJobUpdate jobId (w\<lparr>w_db := s2, w_inflight := None\<rparr>)))))"

text \<open>The suspended loop resumes when \<open>importOneFile\<close>, run on what the file system holds
  at the source path, returns.\<close>

definition file_done :: "env \<Rightarrow> string \<Rightarrow> (nat \<Rightarrow> string) \<Rightarrow> nat \<Rightarrow> fsnode \<Rightarrow> worker \<Rightarrow> worker" where
  "file_done e documentId chunkIds now node w =
     (case w_inflight w of
        None \<Rightarrow> w
      | Some (jobId, itemId, sourcePath) \<Rightarrow>
          (case importOneFile e documentId chunkIds now node sourcePath itemId
                  (w_db w, w_blobs w) of
             None \<Rightarrow> w
           | Some (result, s, b) \<Rightarrow> file_settled now result (w\<lparr>w_db := s, w_blobs := b\<rparr>)))"

text \<open>When the awaited call rejects instead (an error outside its own \<open>try\<close>), the
  \<open>catch\<close> block of \<open>processImportJob\<close> marks the job \<open>failed\<close>.\<close>

definition file_throws :: "nat \<Rightarrow> error \<Rightarrow> worker \<Rightarrow> worker" where
  "file_throws now err w =
     (case w_inflight w of
        None \<Rightarrow> w
      | Some (jobId, itemId, sourcePath) \<Rightarrow>
          after_exit now
            (Exited (sendJobUpdate jobId
               (w\<lparr>w_db := mark_job_failed now err jobId (w_db w), w_inflight := None\<rparr>))))"

text \<open>The worker process ends (crash or exit) and a new one starts: the files stay, the
  memory of the process is gone.\<close>

definition restart :: "worker \<Rightarrow> worker" where
  "restart w = w\<lparr>w_opened := False, w_running := None, w_canceled := {}, w_inflight := None\<rparr>"

section \<open>Runs of the worker\<close>

text \<open>
  What can happen to one knowledge base, one step at a time. The UUIDs a step draws and
  the clock it reads are part of the step. \<open>CancelElsewhere\<close> is a \<open>kb.cancelJob\<close> request
  that names another knowledge base: of this one it touches only the shared set of
  canceled job ids.
\<close>

datatype step =
    ImportFiles string "nat \<Rightarrow> string" nat string "ImportSource list"
  | EnsureInitialized nat string
  | PauseJob nat string string
  | ResumeJob nat string string
  | CancelJob nat string string
  | CancelElsewhere string
  | FileDone string "nat \<Rightarrow> string" nat fsnode
  | FileThrows nat error
  | Restart

fun do_step :: "env \<Rightarrow> step \<Rightarrow> worker \<Rightarrow> worker" where
  "do_step e (ImportFiles jobId itemIds now kbId sources) w =
     snd (handleImportFiles e jobId itemIds now kbId sources w)"
| "do_step e (EnsureInitialized now kbId) w = snd (handleEnsureInitialized e now kbId w)"
| "do_step e (PauseJob now kbId jobId) w = snd (handlePauseJob e now kbId jobId w)"
| "do_step e (ResumeJob now kbId jobId) w = snd (handleResumeJob e now kbId jobId w)"
| "do_step e (CancelJob now kbId jobId) w = snd (handleCancelJob e now kbId jobId w)"
| "do_step e (CancelElsewhere jobId) w = w\<lparr>w_canceled := insert jobId (w_canceled w)\<rparr>"
| "do_step e (FileDone documentId chunkIds now node) w = file_done e documentId chunkIds now node w"
| "do_step e (FileThrows now err) w = file_throws now err w"
| "do_step e Restart w = restart w"

definition run_steps :: "env \<Rightarrow> step list \<Rightarrow> worker \<Rightarrow> worker" where
  "run_steps e steps w = fold (do_step e) steps w"

section \<open>The request protocol (\<open>process.on("message")\<close>, \<^verbatim>\<open>worker-client.ts\<close>)\<close>

text \<open>
  An inbound message of the worker, as far as the listener looks at it: something that
  is not an object, or an object with its \<open>id\<close> and \<open>method\<close> fields (\<open>None\<close> when the
  field is missing) and its \<open>params\<close>. An outbound response carries the id and either
  \<open>ok: false\<close> with the error or \<open>ok: true\<close> with the result.
\<close>

datatype 'p inbound = NotAnObject | Request "string option" "string option" 'p

datatype 'r outbound = Response string "error + 'r"

text \<open>
  The method table of the worker is an object literal with nine keys; each handler,
  applied to the params, gives what awaiting it gives: an error thrown, a result, or
  \<open>None\<close> when it never settles.
\<close>

record ('p, 'r) kb_handlers =
  h_ensureInitialized :: "'p \<Rightarrow> (error + 'r) option"
  h_importFiles :: "'p \<Rightarrow> (error + 'r) option"
  h_listJobs :: "'p \<Rightarrow> (error + 'r) option"
  h_pauseJob :: "'p \<Rightarrow> (error + 'r) option"
  h_resumeJob :: "'p \<Rightarrow> (error + 'r) option"
  h_cancelJob :: "'p \<Rightarrow> (error + 'r) option"
  h_search :: "'p \<Rightarrow> (error + 'r) option"
  h_createNote :: "'p \<Rightarrow> (error + 'r) option"
  h_getStats :: "'p \<Rightarrow> (error + 'r) option"

definition handler_names :: "string list" where
  "handler_names = [''kb.ensureInitialized'', ''kb.importFiles'', ''kb.listJobs'', ''kb.pauseJob'',
     ''kb.resumeJob'', ''kb.cancelJob'', ''kb.search'', ''kb.createNote'', ''kb.getStats'']"

definition handlers :: "('p, 'r) kb_handlers \<Rightarrow> string \<rightharpoonup> ('p \<Rightarrow> (error + 'r) option)" where
  "handlers hs =
     [''kb.ensureInitialized'' \<mapsto> h_ensureInitialized hs,
      ''kb.importFiles'' \<mapsto> h_importFiles hs,
      ''kb.listJobs'' \<mapsto> h_listJobs hs,
      ''kb.pauseJob'' \<mapsto> h_pauseJob hs,
      ''kb.resumeJob'' \<mapsto> h_resumeJob hs,
      ''kb.cancelJob'' \<mapsto> h_cancelJob hs,
      ''kb.search'' \<mapsto> h_search hs,
      ''kb.createNote'' \<mapsto> h_createNote hs,
      ''kb.getStats'' \<mapsto> h_getStats hs]"

text \<open>
  \<open>handlers[method]\<close> is a property read on that object: for a name that is not one of
  its nine keys it gives the property of that name that the object inherits from
  \<open>Object.prototype\<close>, if there is one. All of them are truthy, so the listener goes on
  to call what it has read, as a plain function (\<open>this\<close> is \<open>undefined\<close>) with the params
  as the one argument. \<open>__proto__\<close> reads as \<open>Object.prototype\<close> itself, which is not a
  function; the call throws a \<open>TypeError\<close>. \<open>Object\<close> (the \<open>constructor\<close>) returns
  an object for every argument; \<open>toString\<close> returns \<open>"[object Undefined]"\<close>;
  \<open>isPrototypeOf\<close> returns \<open>false\<close> for an argument that is not an object; every
  other call converts \<open>this\<close> to an object, which throws a \<open>TypeError\<close>. The values
  returned are given by a record; the message of a \<open>TypeError\<close> is not modelled.
\<close>

datatype ('p, 'r) property = Method "'p \<Rightarrow> (error + 'r) option" | NotCallable

record ('p, 'r) js_values =
  js_is_object :: "'p \<Rightarrow> bool"
  js_Object :: "'p \<Rightarrow> 'r"
  js_undefined_tag :: 'r
  js_false :: 'r

definition type_error :: error where
  "type_error = Thrown ''TypeError''"

definition object_prototype_names :: "string list" where
  "object_prototype_names = [''constructor'', ''__defineGetter__'', ''__defineSetter__'',
     ''hasOwnProperty'', ''__lookupGetter__'', ''__lookupSetter__'', ''isPrototypeOf'',
     ''propertyIsEnumerable'', ''toString'', ''valueOf'', ''__proto__'', ''toLocaleString'']"

definition object_prototype :: "('p, 'r) js_values \<Rightarrow> string \<rightharpoonup> ('p, 'r) property" where
  "object_prototype js =
     [''constructor'' \<mapsto> Method (\<lambda>params. Some (Inr (js_Object js params))),
      ''__defineGetter__'' \<mapsto> Method (\<lambda>params. Some (Inl type_error)),
      ''__defineSetter__'' \<mapsto> Method (\<lambda>params. Some (Inl type_error)),
      ''hasOwnProperty'' \<mapsto> Method (\<lambda>params. Some (Inl type_error)),
      ''__lookupGetter__'' \<mapsto> Method (\<lambda>params. Some (Inl type_error)),
      ''__lookupSetter__'' \<mapsto> Method (\<lambda>params. Some (Inl type_error)),
      ''isPrototypeOf'' \<mapsto>
        Method (\<lambda>params. Some (if js_is_object js params then Inl type_error
                                 else Inr (js_false js))),
      ''propertyIsEnumerable'' \<mapsto> Method (\<lambda>params. Some (Inl type_error)),
      ''toString'' \<mapsto> Method (\<lambda>params. Some (Inr (js_undefined_tag js))),
      ''valueOf'' \<mapsto> Method (\<lambda>params. Some (Inl type_error)),
      ''__proto__'' \<mapsto> NotCallable,
      ''toLocaleString'' \<mapsto> Method (\<lambda>params. Some (Inl type_error))]"

definition get_property ::
  "('p, 'r) kb_handlers \<Rightarrow> ('p, 'r) js_values \<Rightarrow> string \<Rightarrow> ('p, 'r) property option" where
  "get_property hs js m =
     (case handlers hs m of
        Some handler \<Rightarrow> Some (Method handler)
      | None \<Rightarrow> object_prototype js m)"

text \<open>The listener answers nothing to a message that is not an object or whose \<open>id\<close> or
  \<open>method\<close> is missing or empty.\<close>

definition on_message ::
  "('p, 'r) kb_handlers \<Rightarrow> ('p, 'r) js_values \<Rightarrow> 'p inbound \<Rightarrow> 'r outbound list" where
  "on_message hs js msg =
     (case msg of
        NotAnObject \<Rightarrow> []
      | Request None m params \<Rightarrow> []
      | Request (Some i) None params \<Rightarrow> []
      | Request (Some i) (Some m) params \<Rightarrow>
          (if i = [] \<or> m = [] then []
           else (case get_property hs js m of
                   None \<Rightarrow> [Response i (Inl (UnknownMethod m))]
                 | Some NotCallable \<Rightarrow> [Response i (Inl type_error)]
                 | Some (Method handler) \<Rightarrow>
                     (case handler params of
                        None \<Rightarrow> []
                      | Some (Inr result) \<Rightarrow> [Response i (Inr result)]
                      | Some (Inl err) \<Rightarrow> [Response i (Inl err)]))))"

text \<open>
  The client: the map \<open>pending\<close> in insertion order, with the method of each call (its
  timeout message names it), and the promises settled so far, each with its id and its
  rejection or result.
\<close>

record 'r client =
  c_pending :: "(string \<times> string) list"
  c_settled :: "(string \<times> (error + 'r)) list"

text \<open>
  What happens to the client: \<open>call\<close> registers a pending call; a response arrives from
  the worker; the timer of a call fires (a timer that was cleared does not); the worker
  exits or errors, which runs \<open>dispose\<close>.
\<close>

datatype 'r client_event =
    Call string string
  | Arrives "'r outbound"
  | TimerFires string
  | Dispose

definition remove_pending :: "string \<Rightarrow> (string \<times> string) list \<Rightarrow> (string \<times> string) list" where
  "remove_pending i ps = filter (\<lambda>p. fst p \<noteq> i) ps"

fun client_step :: "'r client_event \<Rightarrow> 'r client \<Rightarrow> 'r client" where
  "client_step (Call i m) c = c\<lparr>c_pending := remove_pending i (c_pending c) @ [(i, m)]\<rparr>"
| "client_step (Arrives (Response i res)) c =
     (case map_of (c_pending c) i of
        None \<Rightarrow> c
      | Some m \<Rightarrow> c\<lparr>c_pending := remove_pending i (c_pending c),
                      c_settled := c_settled c @ [(i, res)]\<rparr>)"
| "client_step (TimerFires i) c =
     (case map_of (c_pending c) i of
        None \<Rightarrow> c
      | Some m \<Rightarrow> c\<lparr>c_pending := remove_pending i (c_pending c),
                      c_settled := c_settled c @ [(i, Inl (Timeout m))]\<rparr>)"
| "client_step Dispose c =
     c\<lparr>c_pending := [],
       c_settled := c_settled c @ map (\<lambda>p. (fst p, Inl WorkerExited)) (c_pending c)\<rparr>"

section \<open>Reference states used to state the results\<close>

text \<open>
  \<open>after_create\<close> is the handle once the \<open>CREATE TABLE IF NOT EXISTS schema_migrations\<close>
  statement has committed; \<open>applied now P s\<close> is the store in which the scripts of
  \<open>P\<close> have run in list order and each is recorded, in that order, at time \<open>now\<close>.
\<close>

definition after_create :: "conn \<Rightarrow> conn" where
  "after_create c = \<lparr>cur = create_schema_migrations_table (cur c),
      commits = commits c @ [create_schema_migrations_table (cur c)]\<rparr>"

definition applied :: "nat \<Rightarrow> migration list \<Rightarrow> store \<Rightarrow> store" where
  "applied now P s =
     s\<lparr>schema_objects := foldl (\<lambda>objs m. create_if_not_exists (mig_sql m) objs) (schema_objects s) P,
       schema_migrations := schema_migrations s @ map (\<lambda>m. (mig_id m, mig_name m, now)) P\<rparr>"

text \<open>
  A migrated database file in which a crash left job \<open>j1\<close> and its only item \<open>i1\<close>
  in \<open>processing\<close>.
\<close>

definition migrated_store :: store where
  "migrated_store = applied 1 KNOWLEDGE_META_MIGRATIONS (create_schema_migrations_table empty_store)"

definition crashed_store :: store where
  "crashed_store = migrated_store\<lparr>
     jobs := [\<lparr>job_id = ''j1'', job_type = ''import_files'', job_status = Processing,
               job_payload = [Files [''/tmp/a.txt'']], progress_current = 0, progress_total = 1,
               job_error_message = None, job_created_at = 2, job_started_at = Some 2,
               job_finished_at = None, job_updated_at = 2, job_heartbeat_at = Some 2\<rparr>],
     job_items := [\<lparr>item_id = ''i1'', item_job_id = ''j1'', item_source_path = ''/tmp/a.txt'',
               item_status = ItemProcessing, item_error_message = None, item_created_at = 2,
               item_updated_at = 3, item_started_at = Some 3, item_finished_at = None\<rparr>]\<rparr>"

section \<open>Reference notions for chunking and import\<close>

text \<open>
  \<open>stitch overlap cs\<close> reassembles a text from chunks that each repeat the last
  \<open>overlap\<close> code units of the text before them: the first chunk whole, and every later
  one without its first \<open>overlap\<close> code units.
\<close>

fun stitch :: "nat \<Rightarrow> 'a list list \<Rightarrow> 'a list" where
  "stitch overlap [] = []"
| "stitch overlap (c # cs) = c @ concat (map (drop overlap) cs)"

text \<open>The rows written for the chunks \<open>ps\<close> of one document, the first with index \<open>k\<close>.\<close>

fun chunk_rows :: "(nat \<Rightarrow> string) \<Rightarrow> string \<Rightarrow> nat \<Rightarrow> nat \<Rightarrow> jsstring list \<Rightarrow> chunk list" where
  "chunk_rows ids documentId now k [] = []"
| "chunk_rows ids documentId now k (p # ps) =
     \<lparr>chunk_id = ids k, chunk_document_id = documentId, chunk_index = k,
       chunk_content = sqlite_text p, chunk_created_at = now\<rparr> #
     chunk_rows ids documentId now (Suc k) ps"

text \<open>
  The decoded text content of a file: what the \<open>StringDecoder\<close> returns for its
  buffers, one after the other, and then for \<open>end()\<close>.
\<close>

fun decode_stream :: "env \<Rightarrow> byte list \<Rightarrow> byte list list \<Rightarrow> jsstring" where
  "decode_stream e pending [] = decoder_end e pending"
| "decode_stream e pending (buf # bufs) =
     (case decoder_write e pending buf of (text, pending') \<Rightarrow> text @ decode_stream e pending' bufs)"

definition decoded_text :: "env \<Rightarrow> byte list list \<Rightarrow> jsstring" where
  "decoded_text e bufs = decode_stream e [] bufs"

text \<open>
  What holds of the streaming loop between buffers, while the file is being indexed:
  \<open>E\<close> are the chunks written so far, \<open>T\<close> the text decoded so far, \<open>base\<close> the
  store after the document row was inserted. The chunk of index \<open>k\<close> is the window of
  2000 code units that starts at \<open>1800 * k\<close>, and the carry is the text from the start
  of the next window on.
\<close>

definition chunk_inv ::
  "(nat \<Rightarrow> string) \<Rightarrow> string \<Rightarrow> nat \<Rightarrow> store \<Rightarrow> import_state \<Rightarrow> jsstring \<Rightarrow> jsstring list \<Rightarrow> bool" where
  "chunk_inv ids d now base st T E \<longleftrightarrow>
     st_store st = base\<lparr>chunks := chunks base @ chunk_rows ids d now 0 E\<rparr> \<and>
     st_chunkIndex st = length E \<and> stitch 200 (E @ [st_carry st]) = T \<and>
     (\<forall>c\<in>set E. length c = 2000) \<and> length (st_carry st) < 2000 \<and>
     (E \<noteq> [] \<longrightarrow> 200 \<le> length (st_carry st)) \<and>
     (\<forall>k<length E. E ! k = take 2000 (drop (1800 * k) T)) \<and>
     st_carry st = drop (1800 * length E) T"

text \<open>The \<open>documents\<close> row of a file whose import has committed.\<close>

definition stored_document :: "env \<Rightarrow> string \<Rightarrow> string \<Rightarrow> nat \<Rightarrow> byte list list \<Rightarrow> nat \<Rightarrow> document" where
  "stored_document e documentId sourcePath sizeBytes bufs now =
     \<lparr>doc_id = documentId, doc_kind = KindFile, doc_title = basename e sourcePath,
       doc_source_path = Some sourcePath,
       doc_blob_rel_path = Some (getBlobRelPath e documentId sourcePath),
       doc_mime_type = guessMimeType e sourcePath, doc_size_bytes = sizeBytes,
       doc_sha256 = Some (sha256_hex e (concat bufs)), doc_created_at = now,
       doc_updated_at = now\<rparr>"

text \<open>
  An environment for the examples: POSIX paths and contents of 7-bit characters, for
  which the decoder returns one code unit per byte and keeps nothing. The digest is a
  stand-in (no result depends on its value); every script executes; every directory is
  empty.
\<close>

definition ascii_extname :: "string \<Rightarrow> string" where
  "ascii_extname p =
     (let name = rev (takeWhile (\<lambda>c. c \<noteq> CHR ''/'') (rev p));
          ext = rev (takeWhile (\<lambda>c. c \<noteq> CHR ''.'') (rev name))
      in if length ext + 1 < length name then CHR ''.'' # ext else [])"

definition ascii_lower :: "string \<Rightarrow> string" where
  "ascii_lower = map (\<lambda>c. case map_of (zip ''ABCDEFGHIJKLMNOPQRSTUVWXYZ''
                                           ''abcdefghijklmnopqrstuvwxyz'') c of
                            None \<Rightarrow> c | Some l \<Rightarrow> l)"

definition ascii_env :: env where
  "ascii_env = \<lparr>extname = ascii_extname, toLowerCase = ascii_lower,
      basename = (\<lambda>p. rev (takeWhile (\<lambda>c. c \<noteq> CHR ''/'') (rev p))),
      sha256_hex = (\<lambda>bs. ''digest''),
      decoder_write = (\<lambda>pending buf. (map ucast buf, [])),
      decoder_end = (\<lambda>pending. []),
      sql_ok = (\<lambda>q. True),
      collectFilesFromDirectory = (\<lambda>dir recursive. [])\<rparr>"

section \<open>Example runs of the scheduler\<close>

text \<open>A three-byte text file, read as one buffer.\<close>

definition small_file :: fsnode where
  "small_file = Regular 3 [[97, 32, 98]] None"

text \<open>A new knowledge base after one file was imported: job \<open>A\<close> is \<open>done\<close>.\<close>

definition finished_worker :: worker where
  "finished_worker =
     run_steps ascii_env
       [ImportFiles ''A'' (\<lambda>k. ''a-item'') 10 ''kb'' [Files [''/tmp/a.txt'']],
        FileDone ''d1'' (\<lambda>k. ''c1'') 12 small_file]
       (init_worker empty_store)"

text \<open>
  Job \<open>A\<close> is imported and starts; it is canceled while its only file is being
  imported; the import of the file returns; \<open>A\<close> is resumed; job \<open>B\<close> is imported.
\<close>

definition cancel_resume_import :: "step list" where
  "cancel_resume_import =
     [ImportFiles ''A'' (\<lambda>k. ''a-item'') 10 ''kb'' [Files [''/tmp/a.txt'']],
      CancelJob 11 ''kb'' ''A'',
      FileDone ''d1'' (\<lambda>k. ''c1'') 12 small_file,
      ResumeJob 13 ''kb'' ''A'',
      ImportFiles ''B'' (\<lambda>k. ''b-item'') 14 ''kb'' [Files [''/tmp/b.txt'']]]"

text \<open>Job \<open>A\<close> is paused while its only file is being imported; then the import of the
  file returns.\<close>

definition pause_during_last_file :: "step list" where
  "pause_during_last_file =
     [ImportFiles ''A'' (\<lambda>k. ''a-item'') 10 ''kb'' [Files [''/tmp/a.txt'']],
      PauseJob 11 ''kb'' ''A'',
      FileDone ''d1'' (\<lambda>k. ''c1'') 12 small_file]"

section \<open>Reference notions for the request protocol\<close>

text \<open>A message that is not an object, or whose \<open>id\<close> or \<open>method\<close> is missing or
  empty.\<close>

definition malformed :: "'p inbound \<Rightarrow> bool" where
  "malformed msg =
     (case msg of
        NotAnObject \<Rightarrow> True
      | Request i m params \<Rightarrow> i = None \<or> i = Some [] \<or> m = None \<or> m = Some [])"

text \<open>
  An example: the params are a \<open>kbId\<close> and a \<open>jobId\<close>, \<open>kb.pauseJob\<close> is the handler run
  on the knowledge base in which job \<open>A\<close> is done, and the other eight handlers stand for
  handlers that resolve; results carry nothing. A client with one pending call, whose
  method is the empty string.
\<close>

definition example_handlers :: "(string \<times> string, unit) kb_handlers" where
  "example_handlers =
     \<lparr>h_ensureInitialized = (\<lambda>params. Some (Inr ())),
      h_importFiles = (\<lambda>params. Some (Inr ())),
      h_listJobs = (\<lambda>params. Some (Inr ())),
      h_pauseJob = (\<lambda>params. Some (fst (handlePauseJob ascii_env 30 (fst params) (snd params)
                                          finished_worker))),
      h_resumeJob = (\<lambda>params. Some (Inr ())),
      h_cancelJob = (\<lambda>params. Some (Inr ())),
      h_search = (\<lambda>params. Some (Inr ())),
      h_createNote = (\<lambda>params. Some (Inr ())),
      h_getStats = (\<lambda>params. Some (Inr ()))\<rparr>"

definition example_js :: "(string \<times> string, unit) js_values" where
  "example_js = \<lparr>js_is_object = (\<lambda>params. True), js_Object = (\<lambda>params. ()),
     js_undefined_tag = (), js_false = ()\<rparr>"

definition example_client :: "unit client" where
  "example_client = \<lparr>c_pending = [(''c1'', [])], c_settled = []\<rparr>"

section \<open>Reference notions for the progress of a job\<close>

text \<open>\<open>SELECT COUNT(*) FROM job_items WHERE job_id = ?\<close>: the number of items of a job.\<close>

definition itemCount :: "store \<Rightarrow> string \<Rightarrow> nat" where
  "itemCount s jobId = length (filter (\<lambda>i. item_job_id i = jobId) (job_items s))"

text \<open>
  A later observation \<open>j'\<close> of the job observed as \<open>j\<close>: the same id, the same
  \<open>progress_total\<close>, and a \<open>progress_current\<close> that is not smaller. A later \<open>jobs\<close> table
  holds a later observation of every row at the same position. Two observations by
  \<open>job:update\<close> events are in order when they are of different jobs or the second is a
  later observation.
\<close>

definition job_le :: "job \<Rightarrow> job \<Rightarrow> bool" where
  "job_le j j' =
     (job_id j' = job_id j \<and> progress_total j' = progress_total j \<and>
      progress_current j \<le> progress_current j')"

definition jobs_le :: "job list \<Rightarrow> job list \<Rightarrow> bool" where
  "jobs_le js js' = (length js \<le> length js' \<and> list_all2 job_le js (take (length js) js'))"

definition obs_le :: "job option \<Rightarrow> job option \<Rightarrow> bool" where
  "obs_le a b =
     (case (a, b) of
        (Some j, Some j') \<Rightarrow> job_id j' = job_id j \<longrightarrow> job_le j j'
      | _ \<Rightarrow> True)"

text \<open>
  What every state of the tables satisfies: job ids and item ids are unique (primary
  keys); \<open>progress_current\<close> is at most the number of finished items of the job, and
  \<open>progress_total\<close> is the number of its items; every item belongs to a job (foreign
  key).
\<close>

definition rows_inv :: "store \<Rightarrow> bool" where
  "rows_inv s =
     (distinct (map job_id (jobs s)) \<and> distinct (map item_id (job_items s)) \<and>
      (\<forall>j\<in>set (jobs s). progress_current j \<le> doneCount s (job_id j) \<and>
                         itemCount s (job_id j) = progress_total j) \<and>
      (\<forall>i\<in>set (job_items s). item_job_id i \<in> job_id ` set (jobs s)))"

text \<open>The events sent so far are in order, and the table holds a later observation of
  every job that an event has shown.\<close>

definition seen_inv :: "store \<Rightarrow> job option list \<Rightarrow> bool" where
  "seen_inv s evs =
     (rows_inv s \<and> sorted_wrt obs_le evs \<and>
      (\<forall>j. Some j \<in> set evs \<longrightarrow> (\<exists>r\<in>set (jobs s). job_le j r)))"

definition worker_inv :: "worker \<Rightarrow> bool" where
  "worker_inv w = seen_inv (w_db w) (w_events w)"

text \<open>A later state of the worker: a later table, and more events.\<close>

definition worker_le :: "worker \<Rightarrow> worker \<Rightarrow> bool" where
  "worker_le w w' =
     (jobs_le (jobs (w_db w)) (jobs (w_db w')) \<and> (\<exists>extra. w_events w' = w_events w @ extra))"

definition keeps :: "worker \<Rightarrow> worker \<Rightarrow> bool" where
  "keeps w w' = (worker_inv w \<longrightarrow> worker_inv w' \<and> worker_le w w')"

definition outcome_worker :: "loop_outcome \<Rightarrow> worker" where
  "outcome_worker outcome = (case outcome of Suspended w \<Rightarrow> w | Exited w \<Rightarrow> w)"

text \<open>
  A job that can still run is \<open>pending\<close>, \<open>processing\<close> or \<open>paused\<close>. As long as no
  finished job is started again: a \<open>done\<close> job has all its progress, and the progress of
  a job that can still run is the number of its finished items; while the knowledge base
  is open, an item of such a job is \<open>processing\<close> only if the run loop waits for it; and
  the run loop waits only in an open knowledge base, for an item of the job recorded as
  running.
\<close>

definition live :: "JobStatus \<Rightarrow> bool" where
  "live st = (st = Pending \<or> st = Processing \<or> st = Paused)"

definition has_live :: "store \<Rightarrow> string \<Rightarrow> bool" where
  "has_live s jobId = (\<exists>j\<in>set (jobs s). job_id j = jobId \<and> live (job_status j))"

definition progress_inv :: "store \<Rightarrow> bool" where
  "progress_inv s =
     (\<forall>j\<in>set (jobs s).
        (job_status j = Done \<longrightarrow> progress_current j = progress_total j) \<and>
        (live (job_status j) \<longrightarrow> progress_current j = doneCount s (job_id j)))"

definition processing_inv :: "worker \<Rightarrow> bool" where
  "processing_inv w =
     (w_opened w \<longrightarrow>
      (\<forall>i\<in>set (job_items (w_db w)).
         item_status i = ItemProcessing \<and> has_live (w_db w) (item_job_id i) \<longrightarrow>
         (\<exists>p. w_inflight w = Some (item_job_id i, item_id i, p))))"

definition inflight_inv :: "worker \<Rightarrow> bool" where
  "inflight_inv w =
     (\<forall>jobId itemId p. w_inflight w = Some (jobId, itemId, p) \<longrightarrow>
        w_opened w \<and> w_running w = Some jobId \<and>
        (\<exists>i\<in>set (job_items (w_db w)). item_id i = itemId \<and> item_job_id i = jobId))"

definition loop_inv :: "worker \<Rightarrow> bool" where
  "loop_inv w = (progress_inv (w_db w) \<and> processing_inv w \<and> inflight_inv w)"

definition rows_live :: "store \<Rightarrow> string \<Rightarrow> bool" where
  "rows_live s jobId = (\<forall>j\<in>set (jobs s). job_id j = jobId \<longrightarrow> live (job_status j))"

definition ok_state :: "worker \<Rightarrow> bool" where
  "ok_state w = (worker_inv w \<and> loop_inv w \<and> w_opened w)"

definition ok_outcome :: "loop_outcome \<Rightarrow> bool" where
  "ok_outcome outcome =
     (ok_state (outcome_worker outcome) \<and> (\<forall>w'. outcome = Exited w' \<longrightarrow> w_inflight w' = None))"

text \<open>
  A run in which no \<open>kb.resumeJob\<close> request names a job that is \<open>done\<close>, \<open>failed\<close> or
  \<open>canceled\<close> when the request arrives.
\<close>

definition resume_allowed :: "step \<Rightarrow> worker \<Rightarrow> bool" where
  "resume_allowed st w =
     (case st of
        ResumeJob now kbId jobId \<Rightarrow>
          job_status_of (w_db w) jobId \<notin> {Some Done, Some Failed, Some Canceled}
      | _ \<Rightarrow> True)"

fun resumes_allowed :: "env \<Rightarrow> step list \<Rightarrow> worker \<Rightarrow> bool" where
  "resumes_allowed e [] w = True"
| "resumes_allowed e (st # steps) w =
     (resume_allowed st w \<and> resumes_allowed e steps (do_step e st w))"

text \<open>Job \<open>A\<close> is paused while its only file is being imported, the import of the file
  returns, and \<open>A\<close> is resumed.\<close>

definition pause_resume :: "step list" where
  "pause_resume = pause_during_last_file @ [ResumeJob 13 ''kb'' ''A'']"

text \<open>
  Job \<open>A\<close> starts; job \<open>B\<close> is imported and waits; \<open>B\<close> is canceled; the file of \<open>A\<close>
  is imported; the worker process is replaced; \<open>B\<close> is resumed.
\<close>

definition resume_canceled_job :: "step list" where
  "resume_canceled_job =
     [ImportFiles ''A'' (\<lambda>k. ''a-item'') 10 ''kb'' [Files [''/tmp/a.txt'']],
      ImportFiles ''B'' (\<lambda>k. ''b-item'') 11 ''kb'' [Files [''/tmp/b.txt'']],
      CancelJob 12 ''kb'' ''B'',
      FileDone ''d1'' (\<lambda>k. ''c1'') 13 small_file,
      Restart,
      ResumeJob 14 ''kb'' ''B'']"

section \<open>Migration: one transaction for the whole run\<close>

lemma fold_max_ge: "i \<in> set (x # xs) \<Longrightarrow> (i::int) \<le> fold max xs x"
  using Max.set_eq_fold[of x xs] Max_ge[of "set (x # xs)" i] by simp

lemma fold_max_mem: "fold max xs (x::int) \<in> set (x # xs)"
  using Max.set_eq_fold[of x xs] Max_in[of "set (x # xs)"] by simp

lemma max_migration_id_upper:
  "i \<in> fst ` set (schema_migrations s) \<Longrightarrow> i \<le> max_migration_id s"
proof -
  assume a: "i \<in> fst ` set (schema_migrations s)"
  then obtain x xs where xs: "map fst (schema_migrations s) = x # xs"
    by (cases "schema_migrations s") auto
  have "i \<in> set (map fst (schema_migrations s))" using a by simp
  then have "i \<in> set (x # xs)" using xs by simp
  then show ?thesis using fold_max_ge[of i x xs] by (simp add: max_migration_id_def xs)
qed

lemma max_migration_id_cases:
  "max_migration_id s = 0 \<and> schema_migrations s = [] \<or> max_migration_id s \<in> fst ` set (schema_migrations s)"
proof (cases "map fst (schema_migrations s)")
  case Nil
  then show ?thesis by (simp add: max_migration_id_def)
next
  case (Cons x xs)
  have "fold max xs x \<in> set (x # xs)" by (rule fold_max_mem)
  then have "fold max xs x \<in> set (map fst (schema_migrations s))" by (simp only: Cons)
  then have "fold max xs x \<in> fst ` set (schema_migrations s)" by simp
  then show ?thesis by (simp add: max_migration_id_def Cons)
qed

lemma apply_pending_ok:
  "\<forall>m\<in>set ms. ok (mig_sql m) \<Longrightarrow> distinct (map mig_id ms) \<Longrightarrow>
   mig_id ` set ms \<inter> fst ` set (schema_migrations s) = {} \<Longrightarrow>
   apply_pending ok now ms s =
     Inr (s\<lparr>schema_objects := foldl (\<lambda>objs m. create_if_not_exists (mig_sql m) objs) (schema_objects s) ms,
           schema_migrations := schema_migrations s @ map (\<lambda>m. (mig_id m, mig_name m, now)) ms\<rparr>)"
proof (induction ms arbitrary: s)
  case Nil
  then show ?case by simp
next
  case (Cons m ms)
  let ?s2 = "s\<lparr>schema_objects := create_if_not_exists (mig_sql m) (schema_objects s),
               schema_migrations := schema_migrations s @ [(mig_id m, mig_name m, now)]\<rparr>"
  have fresh: "mig_id m \<notin> fst ` set (schema_migrations s)" using Cons.prems(3) by auto
  have step: "apply_pending ok now (m # ms) s = apply_pending ok now ms ?s2"
    using Cons.prems(1) fresh by (simp add: exec_script_def insert_schema_migration_def)
  have disj: "mig_id ` set ms \<inter> fst ` set (schema_migrations ?s2) = {}"
    using Cons.prems(2,3) by auto
  show ?case
    unfolding step using Cons.IH[of ?s2] Cons.prems(1,2) disj by simp
qed

lemma apply_pending_fails:
  "\<not> ((\<forall>m\<in>set ms. ok (mig_sql m)) \<and> distinct (map mig_id ms) \<and>
      mig_id ` set ms \<inter> fst ` set (schema_migrations s) = {}) \<Longrightarrow>
   \<exists>e. apply_pending ok now ms s = Inl e"
proof (induction ms arbitrary: s)
  case Nil
  then show ?case by simp
next
  case (Cons m ms)
  show ?case
  proof (cases "ok (mig_sql m) \<and> mig_id m \<notin> fst ` set (schema_migrations s)")
    case False
    then show ?thesis by (auto simp: exec_script_def insert_schema_migration_def)
  next
    case True
    let ?s2 = "s\<lparr>schema_objects := create_if_not_exists (mig_sql m) (schema_objects s),
               schema_migrations := schema_migrations s @ [(mig_id m, mig_name m, now)]\<rparr>"
    have step: "apply_pending ok now (m # ms) s = apply_pending ok now ms ?s2"
      using True by (simp add: exec_script_def insert_schema_migration_def)
    have "\<not> ((\<forall>m\<in>set ms. ok (mig_sql m)) \<and> distinct (map mig_id ms) \<and>
      mig_id ` set ms \<inter> fst ` set (schema_migrations ?s2) = {})"
      using Cons.prems True by auto
    then show ?thesis unfolding step by (rule Cons.IH)
  qed
qed

lemma pending_fresh:
  "mig_id ` set (pending_migrations ms s) \<inter> fst ` set (schema_migrations s) = {}"
proof -
  have "\<And>m. m \<in> set (pending_migrations ms s) \<Longrightarrow> mig_id m \<notin> fst ` set (schema_migrations s)"
  proof
    fix m assume m: "m \<in> set (pending_migrations ms s)" and i: "mig_id m \<in> fst ` set (schema_migrations s)"
    from m have "max_migration_id s < mig_id m" by (simp add: pending_migrations_def)
    with max_migration_id_upper[OF i] show False by simp
  qed
  then show ?thesis by auto
qed

lemma pending_after_create:
  "pending_migrations ms (create_schema_migrations_table s) = pending_migrations ms s"
  by (simp add: pending_migrations_def create_schema_migrations_table_def max_migration_id_def)

lemma migrate_unfold:
  "migrateKnowledgeMetaDb ok ms now c =
     (if pending_migrations ms (cur c) = [] then (None, after_create c)
      else transaction (apply_pending ok now (pending_migrations ms (cur c))) (after_create c))"
  by (simp add: migrateKnowledgeMetaDb_def autocommit_def Let_def after_create_def
      pending_after_create)

lemma migrate_none:
  "pending_migrations ms (cur c) = [] \<Longrightarrow> migrateKnowledgeMetaDb ok ms now c = (None, after_create c)"
  by (simp add: migrate_unfold)

lemma migrate_ok:
  assumes "pending_migrations ms (cur c) = P" "P \<noteq> []"
    "\<forall>m\<in>set P. ok (mig_sql m)" "distinct (map mig_id P)"
  shows "migrateKnowledgeMetaDb ok ms now c =
     (None, \<lparr>cur = applied now P (cur (after_create c)),
              commits = commits (after_create c) @ [applied now P (cur (after_create c))]\<rparr>)"
proof -
  have "mig_id ` set P \<inter> fst ` set (schema_migrations (cur (after_create c))) = {}"
    using pending_fresh[of ms "cur c"] assms(1)
    by (simp add: after_create_def create_schema_migrations_table_def)
  then have "apply_pending ok now P (cur (after_create c)) = Inr (applied now P (cur (after_create c)))"
    using apply_pending_ok[of P ok "cur (after_create c)" now] assms(3,4) by (simp add: applied_def)
  then show ?thesis using assms(1,2) by (simp add: migrate_unfold transaction_def)
qed

lemma migrate_fail:
  assumes "pending_migrations ms (cur c) = P"
    "\<not> ((\<forall>m\<in>set P. ok (mig_sql m)) \<and> distinct (map mig_id P))"
  shows "\<exists>e. migrateKnowledgeMetaDb ok ms now c = (Some e, after_create c)"
proof -
  obtain e where "apply_pending ok now P (cur (after_create c)) = Inl e"
    using apply_pending_fails[of P ok "cur (after_create c)" now] assms(2) by blast
  moreover have "P \<noteq> []" using assms(2) by auto
  ultimately show ?thesis using assms(1) by (simp add: migrate_unfold transaction_def)
qed

lemma migrate_cur:
  assumes "migrateKnowledgeMetaDb ok ms tm c = (None, c')"
  shows "jobs (cur c') = jobs (cur c) \<and> job_items (cur c') = job_items (cur c) \<and>
     documents (cur c') = documents (cur c) \<and> chunks (cur c') = chunks (cur c)"
proof (cases "pending_migrations ms (cur c) = []")
  case True
  then show ?thesis using assms
    by (auto simp: migrate_none after_create_def create_schema_migrations_table_def)
next
  case False
  show ?thesis
  proof (cases "(\<forall>m\<in>set (pending_migrations ms (cur c)). ok (mig_sql m)) \<and>
                distinct (map mig_id (pending_migrations ms (cur c)))")
    case True
    then show ?thesis using assms migrate_ok[OF refl False, of ok tm]
      by (auto simp: after_create_def create_schema_migrations_table_def applied_def)
  next
    case False
    then show ?thesis using assms migrate_fail[OF refl False, of tm] by auto
  qed
qed

lemma recover_cur: "cur (recover now c) = recover_items now (recover_jobs now (cur c))"
  by (simp add: recover_def autocommit_def)

lemma recover_commits:
  "commits (recover now c) = commits c @ [recover_jobs now (cur c), recover_items now (recover_jobs now (cur c))]"
  by (simp add: recover_def autocommit_def)

lemma recover_fixed:
  "\<forall>j\<in>set (jobs s). job_status j \<noteq> Processing \<Longrightarrow>
   \<forall>i\<in>set (job_items s). item_status i \<noteq> ItemProcessing \<Longrightarrow>
   recover_items now (recover_jobs now s) = s"
  by (simp add: recover_items_def recover_jobs_def map_idI)

lemma create_if_not_exists_mono: "set objs \<subseteq> set (create_if_not_exists q objs)"
proof (induction q arbitrary: objs)
  case Nil
  then show ?case by simp
next
  case (Cons n q)
  have "set objs \<subseteq> set (if n \<in> set objs then objs else objs @ [n])" by auto
  also have "\<dots> \<subseteq> set (create_if_not_exists q (if n \<in> set objs then objs else objs @ [n]))"
    by (rule Cons.IH)
  finally show ?case by simp
qed

lemma foldl_create_mono:
  "set objs \<subseteq> set (foldl (\<lambda>objs m. create_if_not_exists (mig_sql m) objs) objs ms)"
proof (induction ms arbitrary: objs)
  case Nil
  then show ?case by simp
next
  case (Cons m ms)
  show ?case using Cons.IH[of "create_if_not_exists (mig_sql m) objs"]
      create_if_not_exists_mono[of objs "mig_sql m"] by auto
qed

lemma create_table_idem:
  "create_schema_migrations_table (create_schema_migrations_table s) = create_schema_migrations_table s"
  by (simp add: create_schema_migrations_table_def)

lemma create_table_applied:
  "create_schema_migrations_table (applied now P (create_schema_migrations_table s))
     = applied now P (create_schema_migrations_table s)"
proof -
  have "''schema_migrations'' \<in> set (schema_objects (create_schema_migrations_table s))"
    by (simp add: create_schema_migrations_table_def)
  then have "''schema_migrations'' \<in> set (schema_objects (applied now P (create_schema_migrations_table s)))"
    using foldl_create_mono[of "schema_objects (create_schema_migrations_table s)" P]
    by (auto simp: applied_def)
  then show ?thesis by (simp add: create_schema_migrations_table_def)
qed

lemma migrate_again:
  assumes "migrateKnowledgeMetaDb ok ms tm c = (None, c')"
    and so: "schema_objects (cur d) = schema_objects (cur c')"
    and sm: "schema_migrations (cur d) = schema_migrations (cur c')"
  shows "\<exists>d'. migrateKnowledgeMetaDb ok ms tm' d = (None, d') \<and> cur d' = cur d"
proof -
  define P where "P = pending_migrations ms (cur c)"
  have idem: "create_schema_migrations_table (cur c') = cur c'"
    and le: "\<forall>m\<in>set ms. mig_id m \<le> max_migration_id (cur c')"
  proof -
    show "create_schema_migrations_table (cur c') = cur c'"
    proof (cases "P = []")
      case True
      then show ?thesis using assms by (auto simp: P_def migrate_none after_create_def create_table_idem)
    next
      case False
      show ?thesis
      proof (cases "(\<forall>m\<in>set P. ok (mig_sql m)) \<and> distinct (map mig_id P)")
        case True
        then show ?thesis using assms migrate_ok[OF P_def[symmetric] False, of ok tm]
          by (auto simp: after_create_def create_table_applied)
      next
        case False
        then show ?thesis using assms migrate_fail[OF P_def[symmetric] False, of tm] by auto
      qed
    qed
    show "\<forall>m\<in>set ms. mig_id m \<le> max_migration_id (cur c')"
    proof (cases "P = []")
      case True
      then have "cur c' = create_schema_migrations_table (cur c)"
        using assms by (auto simp: P_def migrate_none after_create_def)
      then have "max_migration_id (cur c') = max_migration_id (cur c)"
        by (simp add: create_schema_migrations_table_def max_migration_id_def)
      moreover have "filter (\<lambda>m. max_migration_id (cur c) < mig_id m) ms = []"
        using True set_sort[of mig_id "filter (\<lambda>m. max_migration_id (cur c) < mig_id m) ms"]
        unfolding P_def pending_migrations_def by (metis set_empty)
      ultimately show ?thesis by (auto simp: filter_empty_conv)
    next
      case False
      have ok: "(\<forall>m\<in>set P. ok (mig_sql m)) \<and> distinct (map mig_id P)"
        using assms migrate_fail[OF P_def[symmetric], of ok tm] by auto
      have c': "cur c' = applied tm P (create_schema_migrations_table (cur c))"
        using assms migrate_ok[OF P_def[symmetric] False, of ok tm] ok by (auto simp: after_create_def)
      have ids: "fst ` set (schema_migrations (cur c')) = fst ` set (schema_migrations (cur c)) \<union> mig_id ` set P"
        by (force simp: c' applied_def create_schema_migrations_table_def)
      obtain p where p: "p \<in> set P" using False by (cases P) auto
      then have pgt: "max_migration_id (cur c) < mig_id p" by (simp add: P_def pending_migrations_def)
      have pin: "mig_id p \<le> max_migration_id (cur c')"
        using p ids by (intro max_migration_id_upper) auto
      have old: "max_migration_id (cur c) \<le> max_migration_id (cur c')"
        using pgt pin by simp
      show ?thesis
      proof
        fix m assume "m \<in> set ms"
        show "mig_id m \<le> max_migration_id (cur c')"
        proof (cases "max_migration_id (cur c) < mig_id m")
          case True
          then have "m \<in> set P" using \<open>m \<in> set ms\<close> by (simp add: P_def pending_migrations_def)
          then show ?thesis using ids by (intro max_migration_id_upper) auto
        next
          case False
          then show ?thesis using old by simp
        qed
      qed
    qed
  qed
  have "max_migration_id (cur d) = max_migration_id (cur c')"
    by (simp add: max_migration_id_def sm)
  then have "filter (\<lambda>m. max_migration_id (cur d) < mig_id m) ms = []"
    using le by (auto simp: filter_empty_conv)
  then have "pending_migrations ms (cur d) = []"
    by (simp add: pending_migrations_def)
  moreover have "''schema_migrations'' \<in> set (schema_objects (cur c'))"
    using arg_cong[OF idem, of schema_objects]
    by (simp add: create_schema_migrations_table_def split: if_splits)
  ultimately show ?thesis using so by (simp add: migrate_none after_create_def create_schema_migrations_table_def)
qed


text \<open>
  C8 (as amended). \<open>migrateKnowledgeMetaDb\<close> selects exactly the migrations whose id
  exceeds the recorded maximum, sorted by ascending id. If there are none, only the
  \<open>schema_migrations\<close> table statement commits. Otherwise all of them run inside one
  transaction, each recorded right after its script: when every script executes and the
  ids are distinct there is exactly one more commit, holding all of them applied and
  recorded in that order; when one fails, the call throws and the handle is back at the
  state before the first of them, so no migration of the run remains applied or recorded.
\<close>

theorem migrate_single_transaction:
  "let P = sort_key mig_id (filter (\<lambda>m. max_migration_id (cur c) < mig_id m) ms);
       s2 = applied now P (cur (after_create c))
   in (P = [] \<longrightarrow> migrateKnowledgeMetaDb ok ms now c = (None, after_create c)) \<and>
      (P \<noteq> [] \<and> (\<forall>m\<in>set P. ok (mig_sql m)) \<and> distinct (map mig_id P) \<longrightarrow>
         migrateKnowledgeMetaDb ok ms now c =
           (None, \<lparr>cur = s2, commits = commits c @ [cur (after_create c), s2]\<rparr>)) \<and>
      (\<not> ((\<forall>m\<in>set P. ok (mig_sql m)) \<and> distinct (map mig_id P)) \<longrightarrow>
         (\<exists>e. migrateKnowledgeMetaDb ok ms now c = (Some e, after_create c)))"
proof -
  define P where "P = sort_key mig_id (filter (\<lambda>m. max_migration_id (cur c) < mig_id m) ms)"
  have P: "pending_migrations ms (cur c) = P" by (simp add: P_def pending_migrations_def)
  have none: "P = [] \<Longrightarrow> migrateKnowledgeMetaDb ok ms now c = (None, after_create c)"
    using P by (simp add: migrate_none)
  have good: "P \<noteq> [] \<Longrightarrow> (\<forall>m\<in>set P. ok (mig_sql m)) \<Longrightarrow> distinct (map mig_id P) \<Longrightarrow>
      migrateKnowledgeMetaDb ok ms now c =
        (None, \<lparr>cur = applied now P (cur (after_create c)),
                 commits = commits c @ [cur (after_create c), applied now P (cur (after_create c))]\<rparr>)"
    using migrate_ok[OF P, of ok now] by (simp add: after_create_def)
  have bad: "\<not> ((\<forall>m\<in>set P. ok (mig_sql m)) \<and> distinct (map mig_id P)) \<Longrightarrow>
      \<exists>e. migrateKnowledgeMetaDb ok ms now c = (Some e, after_create c)"
    using migrate_fail[OF P, of ok now] by simp
  show ?thesis
    unfolding Let_def P_def[symmetric] using none good bad by blast
qed

theorem migrate_single_transaction_witness:
  "migrateKnowledgeMetaDb (\<lambda>q. True) KNOWLEDGE_META_MIGRATIONS 1 (open_conn empty_store) =
     (None, \<lparr>cur = migrated_store,
        commits = [create_schema_migrations_table empty_store, migrated_store]\<rparr>) \<and>
   migrateKnowledgeMetaDb (\<lambda>q. True) KNOWLEDGE_META_MIGRATIONS 9 (open_conn migrated_store) =
     (None, \<lparr>cur = migrated_store, commits = [migrated_store]\<rparr>) \<and>
   (\<exists>e. migrateKnowledgeMetaDb (\<lambda>q. ''job_items'' \<notin> set q) KNOWLEDGE_META_MIGRATIONS 5
          (open_conn empty_store) =
     (Some e, \<lparr>cur = create_schema_migrations_table empty_store,
        commits = [create_schema_migrations_table empty_store]\<rparr>))"
proof -
  note ev = KNOWLEDGE_META_MIGRATIONS_def empty_store_def open_conn_def max_migration_id_def
    create_schema_migrations_table_def Let_def after_create_def applied_def migrated_store_def
  have a: "migrateKnowledgeMetaDb (\<lambda>q. True) KNOWLEDGE_META_MIGRATIONS 1 (open_conn empty_store) =
     (None, \<lparr>cur = migrated_store,
        commits = [create_schema_migrations_table empty_store, migrated_store]\<rparr>)"
    using migrate_single_transaction[of "open_conn empty_store" KNOWLEDGE_META_MIGRATIONS 1 "\<lambda>q. True"]
    by (simp add: ev)
  have b: "migrateKnowledgeMetaDb (\<lambda>q. True) KNOWLEDGE_META_MIGRATIONS 9 (open_conn migrated_store) =
     (None, \<lparr>cur = migrated_store, commits = [migrated_store]\<rparr>)"
    using migrate_single_transaction[of "open_conn migrated_store" KNOWLEDGE_META_MIGRATIONS 9 "\<lambda>q. True"]
    by (simp add: ev)
  have c: "\<exists>e. migrateKnowledgeMetaDb (\<lambda>q. ''job_items'' \<notin> set q) KNOWLEDGE_META_MIGRATIONS 5
          (open_conn empty_store) =
     (Some e, \<lparr>cur = create_schema_migrations_table empty_store,
        commits = [create_schema_migrations_table empty_store]\<rparr>)"
    using migrate_single_transaction[of "open_conn empty_store" KNOWLEDGE_META_MIGRATIONS 5
        "\<lambda>q. ''job_items'' \<notin> set q"]
    by (simp add: ev)
  show ?thesis using a b c by blast
qed

text \<open>
  The claim as stated fails: on a new file, when the script of migration 2 cannot be
  executed, migration 1 of the same run is neither recorded in \<open>schema_migrations\<close> nor
  applied (only the \<open>schema_migrations\<close> table, created before the transaction, exists).
\<close>

theorem migrate_rolls_back_counterexample:
  "fst (migrateKnowledgeMetaDb (\<lambda>q. ''job_items'' \<notin> set q) KNOWLEDGE_META_MIGRATIONS 5
          (open_conn empty_store)) = Some SqliteError \<and>
   schema_migrations (cur (snd (migrateKnowledgeMetaDb (\<lambda>q. ''job_items'' \<notin> set q)
          KNOWLEDGE_META_MIGRATIONS 5 (open_conn empty_store)))) = [] \<and>
   schema_objects (cur (snd (migrateKnowledgeMetaDb (\<lambda>q. ''job_items'' \<notin> set q)
          KNOWLEDGE_META_MIGRATIONS 5 (open_conn empty_store)))) = [''schema_migrations'']"
  by (simp add: migrateKnowledgeMetaDb_def KNOWLEDGE_META_MIGRATIONS_def empty_store_def
      open_conn_def autocommit_def transaction_def pending_migrations_def max_migration_id_def
      exec_script_def insert_schema_migration_def create_schema_migrations_table_def Let_def)

section \<open>Opening a knowledge base: the recovery pass\<close>

text \<open>
  C1 (as amended). When \<open>getDb\<close> opens a knowledge base (and migration succeeds), every
  \<open>jobs\<close> row that was \<open>processing\<close> is \<open>paused\<close> and every \<open>job_items\<close> row that was
  \<open>processing\<close> is \<open>pending\<close>, all other statuses being kept; no row is left
  \<open>processing\<close>; running the recovery pass again, or opening the resulting file again,
  leaves the store as it is. The pass is the last two commits of the handle: the jobs
  statement commits by itself before the items statement runs (they are not inside one
  transaction).
\<close>

theorem getDb_recovery_fixed_point:
  "getDb_open ok ms tm now file = (None, c) \<Longrightarrow>
     map job_status (jobs (cur c)) =
       map (\<lambda>j. if job_status j = Processing then Paused else job_status j) (jobs file) \<and>
     map item_status (job_items (cur c)) =
       map (\<lambda>i. if item_status i = ItemProcessing then ItemPending else item_status i)
         (job_items file) \<and>
     (\<forall>j\<in>set (jobs (cur c)). job_status j \<noteq> Processing) \<and>
     (\<forall>i\<in>set (job_items (cur c)). item_status i \<noteq> ItemProcessing) \<and>
     cur (recover now' c) = cur c \<and>
     (\<exists>c'. getDb_open ok ms tm' now' (cur c) = (None, c') \<and> cur c' = cur c) \<and>
     (\<exists>c0. openKnowledgeMetaDb ok ms tm file = (None, c0) \<and>
        commits c = commits c0 @ [recover_jobs now (cur c0), cur c])"
proof -
  assume a: "getDb_open ok ms tm now file = (None, c)"
  then obtain c0 where c0: "openKnowledgeMetaDb ok ms tm file = (None, c0)"
    and c: "c = recover now c0"
    by (auto simp: getDb_open_def split: prod.splits option.splits)
  have mig: "migrateKnowledgeMetaDb ok ms tm (open_conn file) = (None, c0)"
    using c0 by (simp add: openKnowledgeMetaDb_def)
  have same: "jobs (cur c0) = jobs file" "job_items (cur c0) = job_items file"
    using migrate_cur[OF mig] by (simp_all add: open_conn_def)
  have cur: "cur c = recover_items now (recover_jobs now (cur c0))"
    by (simp add: c recover_cur)
  have j: "map job_status (jobs (cur c)) =
       map (\<lambda>j. if job_status j = Processing then Paused else job_status j) (jobs file)"
    by (simp add: cur same recover_items_def recover_jobs_def comp_def if_distrib cong: if_cong)
  have i: "map item_status (job_items (cur c)) =
       map (\<lambda>i. if item_status i = ItemProcessing then ItemPending else item_status i)
         (job_items file)"
    by (simp add: cur same recover_items_def recover_jobs_def comp_def if_distrib cong: if_cong)
  have nj: "\<forall>j\<in>set (jobs (cur c)). job_status j \<noteq> Processing"
    by (auto simp: cur recover_items_def recover_jobs_def)
  have ni: "\<forall>i\<in>set (job_items (cur c)). item_status i \<noteq> ItemProcessing"
    by (auto simp: cur recover_items_def recover_jobs_def)
  have fp: "recover_items t (recover_jobs t (cur c)) = cur c" for t
    using nj ni by (rule recover_fixed)
  have again: "\<exists>c'. getDb_open ok ms tm' now' (cur c) = (None, c') \<and> cur c' = cur c"
  proof -
    have "schema_objects (cur (open_conn (cur c))) = schema_objects (cur c0)"
      "schema_migrations (cur (open_conn (cur c))) = schema_migrations (cur c0)"
      by (simp_all add: open_conn_def cur recover_items_def recover_jobs_def)
    from migrate_again[OF mig this, of tm']
    obtain d' where d': "migrateKnowledgeMetaDb ok ms tm' (open_conn (cur c)) = (None, d')"
      "cur d' = cur c" by (auto simp: open_conn_def)
    have "cur (recover now' d') = cur c" using fp[of now'] d'(2) by (simp add: recover_cur)
    then show ?thesis using d'(1) by (simp add: getDb_open_def openKnowledgeMetaDb_def)
  qed
  show ?thesis using j i nj ni fp again c0 by (simp add: recover_cur c recover_commits)
qed

theorem getDb_recovery_fixed_point_witness:
  "map job_status (jobs (cur (snd (getDb_open (\<lambda>q. True) KNOWLEDGE_META_MIGRATIONS 5 7
       crashed_store)))) = [Paused] \<and>
   map item_status (job_items (cur (snd (getDb_open (\<lambda>q. True) KNOWLEDGE_META_MIGRATIONS 5 7
       crashed_store)))) = [ItemPending] \<and>
   cur (recover 9 (snd (getDb_open (\<lambda>q. True) KNOWLEDGE_META_MIGRATIONS 5 7 crashed_store))) =
     cur (snd (getDb_open (\<lambda>q. True) KNOWLEDGE_META_MIGRATIONS 5 7 crashed_store))"
proof -
  have "fst (getDb_open (\<lambda>q. True) KNOWLEDGE_META_MIGRATIONS 5 7 crashed_store) = None"
    by (simp add: getDb_open_def openKnowledgeMetaDb_def migrateKnowledgeMetaDb_def
        KNOWLEDGE_META_MIGRATIONS_def empty_store_def open_conn_def autocommit_def
        pending_migrations_def max_migration_id_def create_schema_migrations_table_def Let_def
        applied_def migrated_store_def crashed_store_def)
  then have "getDb_open (\<lambda>q. True) KNOWLEDGE_META_MIGRATIONS 5 7 crashed_store =
      (None, snd (getDb_open (\<lambda>q. True) KNOWLEDGE_META_MIGRATIONS 5 7 crashed_store))"
    by (metis prod.collapse)
  from getDb_recovery_fixed_point[OF this, of 9]
  show ?thesis by (simp add: crashed_store_def)
qed

text \<open>
  The claim as stated fails on "inside one transaction": opening the crashed file commits
  three times. After the table statement (nothing changes), the jobs statement commits a
  state in which the job is already \<open>paused\<close> while its item is still \<open>processing\<close>; only
  the next commit resets the item.
\<close>

theorem getDb_two_commits_counterexample:
  "map (\<lambda>s. (map job_status (jobs s), map item_status (job_items s)))
     (commits (snd (getDb_open (\<lambda>q. True) KNOWLEDGE_META_MIGRATIONS 5 7 crashed_store))) =
   [([Processing], [ItemProcessing]), ([Paused], [ItemProcessing]), ([Paused], [ItemPending])]"
  by (simp add: getDb_open_def openKnowledgeMetaDb_def migrateKnowledgeMetaDb_def
      KNOWLEDGE_META_MIGRATIONS_def empty_store_def open_conn_def autocommit_def
      pending_migrations_def max_migration_id_def create_schema_migrations_table_def Let_def
      applied_def migrated_store_def crashed_store_def recover_def recover_jobs_def
      recover_items_def)

section \<open>Chunking and import: proofs\<close>

lemma stitch_snoc: "E \<noteq> [] \<Longrightarrow> stitch ov (E @ [c]) = stitch ov E @ drop ov c"
  by (cases E) auto

lemma stitch_step:
  assumes "ov \<le> cs" "cs \<le> length carry"
  shows "stitch ov ((E @ [take cs carry]) @ [drop (cs - ov) carry]) = stitch ov (E @ [carry])"
proof -
  have a: "drop ov (take cs carry) @ drop ov (drop (cs - ov) carry) = drop ov carry"
  proof -
    have "drop ov (drop (cs - ov) carry) = drop cs carry" using assms by simp
    moreover have "drop ov (take cs carry) @ drop cs carry = drop ov carry"
    proof -
      have "drop ov (take cs carry @ drop cs carry) =
            drop ov (take cs carry) @ drop (ov - length (take cs carry)) (drop cs carry)"
        by (rule drop_append)
      moreover have "ov - length (take cs carry) = 0" using assms by simp
      ultimately show ?thesis by (simp del: drop_append)
    qed
    ultimately show ?thesis by simp
  qed
  show ?thesis
  proof (cases E)
    case Nil
    have "take cs carry @ drop ov (drop (cs - ov) carry) = carry" using assms by simp
    then show ?thesis using Nil by simp
  next
    case (Cons x xs)
    then show ?thesis using a by simp
  qed
qed

lemma push_loop_spec:
  assumes "ov < cs"
  shows "\<exists>full rest. (\<forall>out. push_loop cs ov carry out = Some (out @ full, rest)) \<and>
           length rest < cs \<and> (\<forall>c\<in>set full. length c = cs) \<and>
           (\<forall>E. stitch ov ((E @ full) @ [rest]) = stitch ov (E @ [carry])) \<and>
           (full \<noteq> [] \<longrightarrow> ov \<le> length rest) \<and> (full = [] \<longrightarrow> rest = carry) \<and>
           (\<forall>k<length full. full ! k = take cs (drop ((cs - ov) * k) carry)) \<and>
           rest = drop ((cs - ov) * length full) carry"
proof (induction "length carry" arbitrary: carry rule: less_induct)
  case less
  show ?case
  proof (cases "cs \<le> length carry")
    case False
    have "\<forall>out. push_loop cs ov carry out = Some (out @ [], carry)"
      using False by (subst push_loop.simps) simp
    then show ?thesis using False by (intro exI[of _ "[]"] exI[of _ carry]) simp
  next
    case True
    let ?c = "take cs carry" and ?carry' = "drop (cs - ov) carry"
    have step: "nat (max 0 (int cs - int ov)) = cs - ov" using assms by simp
    have "length ?carry' < length carry" using True assms by simp
    from less[OF this] obtain full rest where
      ih: "\<forall>out. push_loop cs ov ?carry' out = Some (out @ full, rest)"
        "length rest < cs" "\<forall>c\<in>set full. length c = cs"
        "\<forall>E. stitch ov ((E @ full) @ [rest]) = stitch ov (E @ [?carry'])"
        "full \<noteq> [] \<longrightarrow> ov \<le> length rest" "full = [] \<longrightarrow> rest = ?carry'"
        "\<forall>k<length full. full ! k = take cs (drop ((cs - ov) * k) ?carry')"
        "rest = drop ((cs - ov) * length full) ?carry'"
      by blast
    have p: "\<forall>out. push_loop cs ov carry out = Some (out @ (?c # full), rest)"
    proof
      fix out
      have "push_loop cs ov carry out = push_loop cs ov ?carry' (out @ [?c])"
        using True by (subst push_loop.simps) (simp add: step)
      then show "push_loop cs ov carry out = Some (out @ (?c # full), rest)"
        using ih(1) by simp
    qed
    have g: "\<forall>E. stitch ov ((E @ (?c # full)) @ [rest]) = stitch ov (E @ [carry])"
    proof
      fix E
      have "stitch ov ((E @ (?c # full)) @ [rest]) = stitch ov (((E @ [?c]) @ full) @ [rest])" by simp
      also have "\<dots> = stitch ov ((E @ [?c]) @ [?carry'])" using ih(4) by blast
      also have "\<dots> = stitch ov (E @ [carry])" using stitch_step[of ov cs carry E] assms True by simp
      finally show "stitch ov ((E @ (?c # full)) @ [rest]) = stitch ov (E @ [carry])" .
    qed
    have l: "ov \<le> length rest"
    proof (cases "full = []")
      case True
      then have "rest = ?carry'" using ih(6) by simp
      then show ?thesis using \<open>cs \<le> length carry\<close> assms by simp
    next
      case False
      then show ?thesis using ih(5) by simp
    qed
    have len: "\<forall>c\<in>set (?c # full). length c = cs" using ih(3) True by simp
    have w: "\<forall>k<length (?c # full). (?c # full) ! k = take cs (drop ((cs - ov) * k) carry)"
    proof (intro allI impI)
      fix k assume k: "k < length (?c # full)"
      show "(?c # full) ! k = take cs (drop ((cs - ov) * k) carry)"
      proof (cases k)
        case 0
        then show ?thesis by simp
      next
        case (Suc j)
        then have "j < length full" using k by simp
        then have "full ! j = take cs (drop ((cs - ov) * j) ?carry')" using ih(7) by blast
        also have "drop ((cs - ov) * j) ?carry' = drop ((cs - ov) * Suc j) carry"
          by (simp add: add.commute)
        finally show ?thesis using Suc by simp
      qed
    qed
    have r: "rest = drop ((cs - ov) * length (?c # full)) carry"
    proof -
      have "drop ((cs - ov) * length full) ?carry' = drop ((cs - ov) * length (?c # full)) carry"
        by (simp add: add.commute)
      then show ?thesis using ih(8) by simp
    qed
    have e: "?c # full \<noteq> []" by simp
    show ?thesis
      apply (rule exI[of _ "?c # full"], rule exI[of _ rest])
      apply (intro conjI)
      using p apply blast
      using ih(2) apply blast
      using len apply blast
      using g apply blast
      using l apply blast
      using e apply blast
      using w apply blast
      using r apply blast
      done
  qed
qed

lemma chunk_rows_append:
  "chunk_rows ids d now k (xs @ ys) = chunk_rows ids d now k xs @ chunk_rows ids d now (k + length xs) ys"
  by (induction xs arbitrary: k) auto

lemma chunk_rows_index: "map chunk_index (chunk_rows ids d now k xs) = [k..<k + length xs]"
  by (induction xs arbitrary: k) (auto simp: upt_rec)

lemma chunk_rows_length: "length (chunk_rows ids d now k xs) = length xs"
  by (induction xs arbitrary: k) auto

lemma chunk_rows_content: "map chunk_content (chunk_rows ids d now k xs) = map sqlite_text xs"
  by (induction xs arbitrary: k) auto

lemma chunk_rows_doc: "c \<in> set (chunk_rows ids d now k xs) \<Longrightarrow> chunk_document_id c = d"
  by (induction xs arbitrary: k) auto

lemma insert_parts_Inr:
  "insert_parts ids d now parts s k = Inr (s', k') \<Longrightarrow>
     s' = s\<lparr>chunks := chunks s @ chunk_rows ids d now k parts\<rparr> \<and> k' = k + length parts"
proof (induction parts arbitrary: s k)
  case Nil
  then show ?case by simp
next
  case (Cons p ps)
  from Cons.prems obtain s1 where s1: "insertChunk (ids k) d k p now s = Inr s1"
    and rest: "insert_parts ids d now ps s1 (Suc k) = Inr (s', k')"
    by (auto split: sum.splits)
  from s1 have s1': "s1 = s\<lparr>chunks := chunks s @ chunk_rows ids d now k [p]\<rparr>"
    by (auto simp: insertChunk_def split: if_splits)
  from Cons.IH[OF rest] show ?case by (simp add: s1')
qed

lemma stitch_append_text:
  "E \<noteq> [] \<longrightarrow> ov \<le> length carry \<Longrightarrow> stitch ov (E @ [carry @ text]) = stitch ov (E @ [carry]) @ text"
  by (cases E) auto

lemma index_text_inv:
  assumes "index_text ids d now text st = Some (Inr st')" "chunk_inv ids d now base st T E"
  shows "\<exists>E'. chunk_inv ids d now base st' (T @ text) E' \<and> st_pending st' = st_pending st \<and>
     st_canIndex st' = st_canIndex st \<and> st_hashed st' = st_hashed st \<and> st_blob st' = st_blob st"
proof -
  from push_loop_spec[of 200 2000 "st_carry st @ text"] obtain full rest where
    p: "\<forall>out. push_loop 2000 200 (st_carry st @ text) out = Some (out @ full, rest)"
      "length rest < 2000" "\<forall>c\<in>set full. length c = 2000"
      "\<forall>E. stitch 200 ((E @ full) @ [rest]) = stitch 200 (E @ [st_carry st @ text])"
      "full \<noteq> [] \<longrightarrow> 200 \<le> length rest" "full = [] \<longrightarrow> rest = st_carry st @ text"
      "\<forall>k<length full. full ! k = take 2000 (drop (1800 * k) (st_carry st @ text))"
      "rest = drop (1800 * length full) (st_carry st @ text)"
    by auto
  have cp: "chunker_push 2000 200 (st_carry st) text = Some (full, rest)"
    using p(1) by (simp add: chunker_push_def)
  from assms(1) obtain s' k where ins: "insert_parts ids d now full (st_store st) (st_chunkIndex st) = Inr (s', k)"
    and st': "st' = st\<lparr>st_carry := rest, st_store := s', st_chunkIndex := k\<rparr>"
    by (auto simp: index_text_def cp split: sum.splits)
  from insert_parts_Inr[OF ins] have s': "s' = (st_store st)\<lparr>chunks := chunks (st_store st) @ chunk_rows ids d now (st_chunkIndex st) full\<rparr>"
    and k: "k = st_chunkIndex st + length full" by auto
  have inv: "st_store st = base\<lparr>chunks := chunks base @ chunk_rows ids d now 0 E\<rparr>"
    "st_chunkIndex st = length E" "stitch 200 (E @ [st_carry st]) = T"
    "\<forall>c\<in>set E. length c = 2000" "length (st_carry st) < 2000"
    "E \<noteq> [] \<longrightarrow> 200 \<le> length (st_carry st)"
    "\<forall>k<length E. E ! k = take 2000 (drop (1800 * k) T)"
    "st_carry st = drop (1800 * length E) T"
    using assms(2) unfolding chunk_inv_def by blast+
  have st1: "stitch 200 ((E @ full) @ [rest]) = T @ text"
    using p(4) stitch_append_text[OF inv(6), of "text"] inv(3) by simp
  have ne: "E @ full \<noteq> [] \<longrightarrow> 200 \<le> length rest"
    using p(5,6) inv(6) by (cases "full = []") auto
  have le: "1800 * length E \<le> length T"
  proof (cases "E = []")
    case False
    then have "200 \<le> length (drop (1800 * length E) T)" using inv(6,8) by simp
    then show ?thesis by simp
  qed simp
  have ct: "st_carry st @ text = drop (1800 * length E) (T @ text)"
    using le inv(8) by simp
  have w: "\<forall>k<length (E @ full). (E @ full) ! k = take 2000 (drop (1800 * k) (T @ text))"
  proof (intro allI impI)
    fix k assume k: "k < length (E @ full)"
    show "(E @ full) ! k = take 2000 (drop (1800 * k) (T @ text))"
    proof (cases "k < length E")
      case True
      then have ek: "E ! k = take 2000 (drop (1800 * k) T)" using inv(7) by blast
      have "length (E ! k) = 2000" using inv(4) True by simp
      then have "2000 \<le> length (drop (1800 * k) T)" using ek by simp
      then have "take 2000 (drop (1800 * k) (T @ text)) = take 2000 (drop (1800 * k) T)"
        by simp
      then show ?thesis using True ek by (simp add: nth_append)
    next
      case False
      define j where "j = k - length E"
      have j: "j < length full" "k = length E + j" using False k by (simp_all add: j_def)
      have "full ! j = take 2000 (drop (1800 * j) (drop (1800 * length E) (T @ text)))"
        using p(7) j(1) ct by simp
      also have "drop (1800 * j) (drop (1800 * length E) (T @ text)) = drop (1800 * k) (T @ text)"
        by (simp add: j(2) add.commute distrib_left del: drop_append)
      finally show ?thesis using False j by (simp add: nth_append)
    qed
  qed
  have r: "rest = drop (1800 * length (E @ full)) (T @ text)"
  proof -
    have "drop (1800 * length full) (drop (1800 * length E) (T @ text)) =
        drop (1800 * length (E @ full)) (T @ text)"
      by (simp add: add.commute distrib_left del: drop_append)
    then show ?thesis using p(8) ct by simp
  qed
  have "st_store st' = base\<lparr>chunks := chunks base @ chunk_rows ids d now 0 (E @ full)\<rparr>"
    by (simp add: st' s' inv(1,2) chunk_rows_append)
  moreover have "st_chunkIndex st' = length (E @ full)" by (simp add: st' k inv(2))
  moreover have "\<forall>c\<in>set (E @ full). length c = 2000" using inv(4) p(3) by auto
  moreover have "st_carry st' = rest" by (simp add: st')
  ultimately have "chunk_inv ids d now base st' (T @ text) (E @ full)"
    unfolding chunk_inv_def using st1 ne p(2) w r by simp
  then show ?thesis by (auto simp: st')
qed

lemma stream_noindex:
  "\<not> st_canIndex st \<Longrightarrow>
   stream_loop e ids d now bufs st =
     Some (Inr (st\<lparr>st_hashed := st_hashed st @ concat bufs, st_blob := st_blob st @ concat bufs\<rparr>))"
proof (induction bufs arbitrary: st)
  case Nil
  then show ?case by simp
next
  case (Cons buf bufs)
  let ?st1 = "st\<lparr>st_hashed := st_hashed st @ buf, st_blob := st_blob st @ buf\<rparr>"
  have "step_buffer e ids d now buf st = Some (Inr ?st1)"
    using Cons.prems by (simp add: step_buffer_def)
  moreover have "\<not> st_canIndex ?st1" using Cons.prems by simp
  ultimately show ?case using Cons.IH[of ?st1] by simp
qed

lemma stream_binary_first:
  assumes "st_canIndex st" "\<not> st_decidedBinary st" "bufferLooksBinary buf"
  shows "stream_loop e ids d now (buf # bufs) st =
     Some (Inr (st\<lparr>st_hashed := st_hashed st @ concat (buf # bufs),
                     st_blob := st_blob st @ concat (buf # bufs),
                     st_decidedBinary := True, st_canIndex := False\<rparr>))"
proof -
  let ?st1 = "st\<lparr>st_hashed := st_hashed st @ buf, st_blob := st_blob st @ buf,
                 st_decidedBinary := True, st_canIndex := False\<rparr>"
  have "step_buffer e ids d now buf st = Some (Inr ?st1)"
    using assms by (simp add: step_buffer_def)
  then show ?thesis using stream_noindex[of ?st1 e ids d now bufs] by simp
qed

lemma chunk_inv_cong:
  "st_store st2 = st_store st \<Longrightarrow> st_chunkIndex st2 = st_chunkIndex st \<Longrightarrow>
   st_carry st2 = st_carry st \<Longrightarrow> chunk_inv ids d now base st2 T E = chunk_inv ids d now base st T E"
  by (simp add: chunk_inv_def)

lemma stream_loop_inv:
  "stream_loop e ids d now bufs st = Some (Inr st') \<Longrightarrow> st_canIndex st' \<Longrightarrow>
   chunk_inv ids d now base st T E \<Longrightarrow>
   \<exists>E' T'. chunk_inv ids d now base st' T' E' \<and>
     T @ decode_stream e (st_pending st) bufs = T' @ decoder_end e (st_pending st') \<and>
     st_hashed st' = st_hashed st @ concat bufs \<and> st_blob st' = st_blob st @ concat bufs"
proof (induction bufs arbitrary: st T E)
  case Nil
  then show ?case by auto
next
  case (Cons buf bufs)
  from Cons.prems(1) obtain st1 where st1: "step_buffer e ids d now buf st = Some (Inr st1)"
    and rest: "stream_loop e ids d now bufs st1 = Some (Inr st')"
    by (auto split: option.splits sum.splits)
  have c1: "st_canIndex st1"
  proof (rule ccontr)
    assume n: "\<not> st_canIndex st1"
    from stream_noindex[OF n, of e ids d now bufs] rest Cons.prems(2) n show False by auto
  qed
  obtain tx p' where dw: "decoder_write e (st_pending st) buf = (tx, p')"
    by (cases "decoder_write e (st_pending st) buf")
  let ?st0 = "st\<lparr>st_hashed := st_hashed st @ buf, st_blob := st_blob st @ buf,
                 st_decidedBinary := True, st_pending := p'\<rparr>"
  have it: "index_text ids d now tx ?st0 = Some (Inr st1)"
    using st1 c1 dw by (auto simp: step_buffer_def Let_def split: if_splits)
  have "chunk_inv ids d now base ?st0 T E"
    using Cons.prems(3) chunk_inv_cong[of ?st0 st ids d now base T E] by simp
  from index_text_inv[OF it this] obtain E1 where
    e1: "chunk_inv ids d now base st1 (T @ tx) E1" "st_pending st1 = p'"
      "st_hashed st1 = st_hashed st @ buf" "st_blob st1 = st_blob st @ buf"
    by auto
  from Cons.IH[OF rest Cons.prems(2) e1(1)] obtain E' T' where
    "chunk_inv ids d now base st' T' E'"
    "(T @ tx) @ decode_stream e (st_pending st1) bufs = T' @ decoder_end e (st_pending st')"
    "st_hashed st' = st_hashed st1 @ concat bufs" "st_blob st' = st_blob st1 @ concat bufs"
    by blast
  then show ?case using e1 dw by auto
qed

lemma finish_index_inv:
  assumes "finish_index e ids d now st = Some (Inr st')" "st_canIndex st'"
    "chunk_inv ids d now base st T E"
  shows "\<exists>F rest. chunks (st_store st') =
            chunks base @ chunk_rows ids d now 0 (F @ (if trim rest = [] then [] else [trim rest])) \<and>
          (\<forall>c\<in>set F. length c = 2000) \<and> length rest < 2000 \<and>
          (F \<noteq> [] \<longrightarrow> 200 \<le> length rest) \<and>
          stitch 200 (F @ [rest]) = T @ decoder_end e (st_pending st) \<and>
          (\<forall>k<length F. F ! k = take 2000 (drop (1800 * k) (T @ decoder_end e (st_pending st)))) \<and>
          rest = drop (1800 * length F) (T @ decoder_end e (st_pending st)) \<and>
          st_hashed st' = st_hashed st \<and> st_blob st' = st_blob st"
proof -
  have ci: "st_canIndex st" using assms(1,2) by (auto simp: finish_index_def split: if_splits)
  then obtain st1 where it: "index_text ids d now (decoder_end e (st_pending st)) st = Some (Inr st1)"
    and fl: "(case chunker_flush (st_carry st1) of
                   (None, carry') \<Rightarrow> Some (Inr (st1\<lparr>st_carry := carry'\<rparr>))
                 | (Some rest, carry') \<Rightarrow>
                     (case insertChunk (ids (st_chunkIndex st1)) d (st_chunkIndex st1)
                             rest now (st_store st1) of
                        Inl err \<Rightarrow> Some (Inl err)
                      | Inr s' \<Rightarrow>
                          Some (Inr (st1\<lparr>st_carry := carry', st_store := s',
                                         st_chunkIndex := Suc (st_chunkIndex st1)\<rparr>)))) = Some (Inr st')"
    using assms(1) by (auto simp: finish_index_def split: option.splits sum.splits)
  from index_text_inv[OF it assms(3)] obtain E1 where
    e1: "chunk_inv ids d now base st1 (T @ decoder_end e (st_pending st)) E1"
      "st_hashed st1 = st_hashed st" "st_blob st1 = st_blob st"
    by auto
  then have inv: "st_store st1 = base\<lparr>chunks := chunks base @ chunk_rows ids d now 0 E1\<rparr>"
    "st_chunkIndex st1 = length E1" "stitch 200 (E1 @ [st_carry st1]) = T @ decoder_end e (st_pending st)"
    "\<forall>c\<in>set E1. length c = 2000" "length (st_carry st1) < 2000"
    "E1 \<noteq> [] \<longrightarrow> 200 \<le> length (st_carry st1)"
    "\<forall>k<length E1. E1 ! k = take 2000 (drop (1800 * k) (T @ decoder_end e (st_pending st)))"
    "st_carry st1 = drop (1800 * length E1) (T @ decoder_end e (st_pending st))"
    unfolding chunk_inv_def by blast+
  show ?thesis
  proof (cases "trim (st_carry st1) = []")
    case True
    then have "st' = st1\<lparr>st_carry := []\<rparr>" using fl by (simp add: chunker_flush_def)
    then have "chunks (st_store st') = chunks base @ chunk_rows ids d now 0 E1"
      "st_hashed st' = st_hashed st" "st_blob st' = st_blob st"
      using inv(1) e1(2,3) by simp_all
    then show ?thesis using inv(3-8) True
      by (intro exI[of _ E1] exI[of _ "st_carry st1"]) (simp del: drop_append)
  next
    case False
    then obtain s' where ins: "insertChunk (ids (length E1)) d (length E1) (trim (st_carry st1)) now (st_store st1) = Inr s'"
      and st': "st' = st1\<lparr>st_carry := [], st_store := s', st_chunkIndex := Suc (length E1)\<rparr>"
      using fl inv(2) by (auto simp: chunker_flush_def split: sum.splits)
    from ins have "chunks s' = chunks (st_store st1) @ chunk_rows ids d now (length E1) [trim (st_carry st1)]"
      by (auto simp: insertChunk_def split: if_splits)
    then have "chunks (st_store st') = chunks base @ chunk_rows ids d now 0 (E1 @ [trim (st_carry st1)])"
      by (simp add: st' inv(1) chunk_rows_append)
    moreover have "st_hashed st' = st_hashed st" "st_blob st' = st_blob st"
      using e1(2,3) by (simp_all add: st')
    ultimately show ?thesis using inv(3-8) False
      by (intro exI[of _ E1] exI[of _ "st_carry st1"]) (simp del: drop_append)
  qed
qed

lemma import_body_indexed:
  assumes "import_body e d ids now path sizeBytes bufs rerr s = Some (Inr (s2, blob, True))"
  shows "\<exists>F rest. chunks s2 =
            chunks s @ chunk_rows ids d now 0 (F @ (if trim rest = [] then [] else [trim rest])) \<and>
          (\<forall>c\<in>set F. length c = 2000) \<and> length rest < 2000 \<and>
          (F \<noteq> [] \<longrightarrow> 200 \<le> length rest) \<and>
          stitch 200 (F @ [rest]) = decoded_text e bufs \<and>
          (\<forall>k<length F. F ! k = take 2000 (drop (1800 * k) (decoded_text e bufs))) \<and>
          rest = drop (1800 * length F) (decoded_text e bufs)"
proof -
  from assms obtain s1 st st' where
    s1: "insertDocument d (basename e path) path (getBlobRelPath e d path) (guessMimeType e path)
           sizeBytes now s = Inr s1"
    and sl: "stream_loop e ids d now bufs
                  \<lparr>st_store = s1, st_hashed = [], st_blob = [], st_pending = [], st_carry = [],
                    st_chunkIndex = 0, st_decidedBinary = False,
                    st_canIndex = isSupportedTextExtension e path\<rparr> = Some (Inr st)"
    and fi: "finish_index e ids d now st = Some (Inr st')"
    and s2: "s2 = updateSha (sha256_hex e (st_hashed st')) now d (st_store st')"
    and ci: "st_canIndex st'"
    by (auto simp: import_body_def split: sum.splits option.splits)
  have cs: "st_canIndex st" using fi ci by (auto simp: finish_index_def split: if_splits)
  have c1: "chunks s1 = chunks s" using s1 by (auto simp: insertDocument_def split: if_splits)
  let ?init = "\<lparr>st_store = s1, st_hashed = [], st_blob = [], st_pending = [], st_carry = [],
                    st_chunkIndex = 0, st_decidedBinary = False,
                    st_canIndex = isSupportedTextExtension e path\<rparr>"
  have "chunk_inv ids d now s1 ?init [] []" by (simp add: chunk_inv_def)
  from stream_loop_inv[OF sl cs this] obtain E' T' where
    e': "chunk_inv ids d now s1 st T' E'" "decode_stream e [] bufs = T' @ decoder_end e (st_pending st)"
    by auto
  from finish_index_inv[OF fi ci e'(1)] obtain F rest where
    "chunks (st_store st') = chunks s1 @ chunk_rows ids d now 0 (F @ (if trim rest = [] then [] else [trim rest]))"
    "\<forall>c\<in>set F. length c = 2000" "length rest < 2000"
    "F \<noteq> [] \<longrightarrow> 200 \<le> length rest"
    "stitch 200 (F @ [rest]) = T' @ decoder_end e (st_pending st)"
    "\<forall>k<length F. F ! k = take 2000 (drop (1800 * k) (T' @ decoder_end e (st_pending st)))"
    "rest = drop (1800 * length F) (T' @ decoder_end e (st_pending st))"
    by blast
  then have "chunks s2 =
      chunks s @ chunk_rows ids d now 0 (F @ (if trim rest = [] then [] else [trim rest]))"
    "\<forall>c\<in>set F. length c = 2000" "length rest < 2000" "F \<noteq> [] \<longrightarrow> 200 \<le> length rest"
    "stitch 200 (F @ [rest]) = decoded_text e bufs"
    "\<forall>k<length F. F ! k = take 2000 (drop (1800 * k) (decoded_text e bufs))"
    "rest = drop (1800 * length F) (decoded_text e bufs)"
    using e'(2) c1 by (simp_all add: s2 updateSha_def decoded_text_def del: drop_append)
  then show ?thesis by blast
qed

lemma index_text_returns: "\<exists>y. index_text ids d now tx st = Some y"
proof -
  from push_loop_spec[of 200 2000 "st_carry st @ tx"] obtain full rest where
    "\<forall>out. push_loop 2000 200 (st_carry st @ tx) out = Some (out @ full, rest)" by auto
  then have "chunker_push 2000 200 (st_carry st) tx = Some (full, rest)"
    by (simp add: chunker_push_def)
  then show ?thesis by (simp add: index_text_def split: sum.splits prod.splits)
qed

lemma step_buffer_returns: "\<exists>y. step_buffer e ids d now buf st = Some y"
proof -
  obtain tx p' where dw: "decoder_write e (st_pending st) buf = (tx, p')"
    by (cases "decoder_write e (st_pending st) buf")
  show ?thesis
    using index_text_returns[of ids d now tx
        "st\<lparr>st_hashed := st_hashed st @ buf, st_blob := st_blob st @ buf,
            st_decidedBinary := True, st_pending := p'\<rparr>"]
    by (simp add: step_buffer_def Let_def dw)
qed

lemma stream_loop_returns: "\<exists>y. stream_loop e ids d now bufs st = Some y"
proof (induction bufs arbitrary: st)
  case Nil
  then show ?case by simp
next
  case (Cons buf bufs)
  obtain y where y: "step_buffer e ids d now buf st = Some y"
    using step_buffer_returns by blast
  show ?case
  proof (cases y)
    case (Inl err)
    then show ?thesis using y by simp
  next
    case (Inr st1)
    then show ?thesis using y Cons.IH[of st1] by simp
  qed
qed

lemma finish_index_returns: "\<exists>y. finish_index e ids d now st = Some y"
proof (cases "st_canIndex st")
  case False
  then show ?thesis by (simp add: finish_index_def)
next
  case True
  obtain y where y: "index_text ids d now (decoder_end e (st_pending st)) st = Some y"
    using index_text_returns by blast
  show ?thesis using True y
    by (cases y) (auto simp: finish_index_def split: option.splits sum.splits prod.splits)
qed

lemma import_body_returns: "\<exists>y. import_body e d ids now path sizeBytes bufs rerr s = Some y"
proof (cases "insertDocument d (basename e path) path (getBlobRelPath e d path)
                (guessMimeType e path) sizeBytes now s")
  case (Inl a)
  then show ?thesis by (simp add: import_body_def)
next
  case (Inr s1)
  let ?init = "\<lparr>st_store = s1, st_hashed = [], st_blob = [], st_pending = [], st_carry = [],
                    st_chunkIndex = 0, st_decidedBinary = False,
                    st_canIndex = isSupportedTextExtension e path\<rparr>"
  note ins = Inr
  obtain x where x: "stream_loop e ids d now bufs ?init = Some x"
    using stream_loop_returns by blast
  show ?thesis
  proof (cases x)
    case (Inl err)
    then show ?thesis using ins x by (simp add: import_body_def)
  next
    case (Inr st)
    obtain z where z: "finish_index e ids d now st = Some z"
      using finish_index_returns by blast
    show ?thesis using ins x Inr z
      by (cases z; cases rerr) (auto simp: import_body_def)
  qed
qed

lemma importOneFile_returns: "\<exists>y. importOneFile e d ids now node path item sb = Some y"
proof (cases sb)
  case (Pair s blobs)
  show ?thesis
  proof (cases node)
    case (Regular sizeBytes bufs rerr)
    obtain y where y: "import_body e d ids now path sizeBytes bufs rerr s = Some y"
      using import_body_returns by blast
    show ?thesis using Pair Regular y
      by (cases y) (auto simp: importOneFile_def)
  qed (simp_all add: importOneFile_def Pair)
qed

lemma window_overlap:
  assumes "\<forall>k<length F. F ! k = take 2000 (drop (1800 * k) T)" "\<forall>c\<in>set F. length c = 2000"
    "rest = drop (1800 * length F) T" "k < length F"
  shows "take 200 ((F @ [rest]) ! Suc k) = drop 1800 (F ! k)"
proof -
  have fk: "F ! k = take 2000 (drop (1800 * k) T)" using assms(1,4) by blast
  have "drop 1800 (F ! k) = take 200 (drop (1800 * Suc k) T)"
    by (simp add: fk drop_take add.commute)
  moreover have "take 200 ((F @ [rest]) ! Suc k) = take 200 (drop (1800 * Suc k) T)"
  proof (cases "Suc k < length F")
    case True
    then have "F ! Suc k = take 2000 (drop (1800 * Suc k) T)" using assms(1) by blast
    then show ?thesis using True by (simp add: nth_append)
  next
    case False
    then have "Suc k = length F" using assms(4) by simp
    then show ?thesis using assms(3) by (simp add: nth_append)
  qed
  ultimately show ?thesis by simp
qed

lemma no_window_short_text:
  assumes "\<forall>k<length F. F ! k = take 2000 (drop (1800 * k) T)" "\<forall>c\<in>set F. length c = 2000"
  shows "F \<noteq> [] \<longrightarrow> 2000 \<le> length T"
proof
  assume ne: "F \<noteq> []"
  then have "F ! 0 = take 2000 (drop (1800 * 0) T)" using assms(1) by blast
  moreover have "length (F ! 0) = 2000" using assms(2) ne by simp
  ultimately show "2000 \<le> length T" by simp
qed

lemma importOneFile_done_chunks:
  assumes "importOneFile e d ids now node path item (s, blobs) = Some (r, s', blobs')"
    and "res_status r = ItemDone"
  shows "\<exists>bufs sizeBytes F rest. node = Regular sizeBytes bufs None \<and>
     chunks s' = chunks s @
       chunk_rows ids d now 0 (F @ (if trim rest = [] then [] else [trim rest])) \<and>
     (\<forall>c\<in>set F. length c = 2000) \<and> length rest < 2000 \<and>
     (F \<noteq> [] \<longrightarrow> 200 \<le> length rest) \<and>
     stitch 200 (F @ [rest]) = decoded_text e bufs \<and>
     (\<forall>k<length F. F ! k = take 2000 (drop (1800 * k) (decoded_text e bufs))) \<and>
     rest = drop (1800 * length F) (decoded_text e bufs)"
proof -
  from assms obtain sizeBytes bufs rerr s2 blob where
    node: "node = Regular sizeBytes bufs rerr"
    and body: "import_body e d ids now path sizeBytes bufs rerr s = Some (Inr (s2, blob, True))"
    and s': "s' = touch_item now item s2"
    by (auto simp: importOneFile_def split: fsnode.splits option.splits sum.splits if_splits)
  have rerr: "rerr = None"
    using body by (auto simp: import_body_def split: sum.splits option.splits)
  from import_body_indexed[OF body] obtain F rest where
    fr: "chunks s2 = chunks s @ chunk_rows ids d now 0 (F @ (if trim rest = [] then [] else [trim rest]))"
      "\<forall>c\<in>set F. length c = 2000" "length rest < 2000"
      "F \<noteq> [] \<longrightarrow> 200 \<le> length rest"
      "stitch 200 (F @ [rest]) = decoded_text e bufs"
      "\<forall>k<length F. F ! k = take 2000 (drop (1800 * k) (decoded_text e bufs))"
      "rest = drop (1800 * length F) (decoded_text e bufs)"
    by blast
  have ch: "chunks s' = chunks s @
      chunk_rows ids d now 0 (F @ (if trim rest = [] then [] else [trim rest]))"
    using fr(1) by (simp add: s' touch_item_def)
  show ?thesis
    apply (rule exI[of _ bufs], rule exI[of _ sizeBytes], rule exI[of _ F], rule exI[of _ rest])
    using node rerr ch fr(2-7) by blast
qed

lemma importOneFile_done_rows:
  assumes "importOneFile e d ids now node path item (s, blobs) = Some (r, s', blobs')"
    and "res_status r = ItemDone"
  shows "\<exists>bufs sizeBytes F rest. node = Regular sizeBytes bufs None \<and>
     (let rows = drop (length (chunks s)) (chunks s'); T = decoded_text e bufs
      in take (length (chunks s)) (chunks s') = chunks s \<and>
         (\<forall>c\<in>set rows. chunk_document_id c = d) \<and>
         map chunk_index rows = [0..<length rows] \<and>
         map chunk_content rows =
           map sqlite_text (F @ (if trim rest = [] then [] else [trim rest])) \<and>
         (\<forall>k<length F. F ! k = take 2000 (drop (1800 * k) T)) \<and>
         (\<forall>c\<in>set F. length c = 2000) \<and>
         rest = drop (1800 * length F) T \<and> length rest < 2000 \<and>
         (\<forall>k<length F. take 200 ((F @ [rest]) ! Suc k) = drop 1800 (F ! k)) \<and>
         stitch 200 (F @ [rest]) = T \<and>
         (trim rest = rest \<and> (\<forall>c\<in>set (F @ [rest]). sqlite_text c = c) \<longrightarrow>
            stitch 200 (map chunk_content rows) = T))"
proof -
  from importOneFile_done_chunks[OF assms] obtain bufs sizeBytes F rest where
    node: "node = Regular sizeBytes bufs None"
    and ch: "chunks s' = chunks s @
       chunk_rows ids d now 0 (F @ (if trim rest = [] then [] else [trim rest]))"
    and fr: "\<forall>c\<in>set F. length c = 2000" "length rest < 2000"
      "F \<noteq> [] \<longrightarrow> 200 \<le> length rest"
      "stitch 200 (F @ [rest]) = decoded_text e bufs"
      "\<forall>k<length F. F ! k = take 2000 (drop (1800 * k) (decoded_text e bufs))"
      "rest = drop (1800 * length F) (decoded_text e bufs)"
    by blast
  let ?E = "F @ (if trim rest = [] then [] else [trim rest])"
  let ?T = "decoded_text e bufs"
  have rows: "drop (length (chunks s)) (chunks s') = chunk_rows ids d now 0 ?E"
    by (simp add: ch)
  have tr: "trim rest = rest \<and> (\<forall>c\<in>set (F @ [rest]). sqlite_text c = c) \<longrightarrow>
      stitch 200 (map sqlite_text ?E) = ?T"
  proof
    assume t: "trim rest = rest \<and> (\<forall>c\<in>set (F @ [rest]). sqlite_text c = c)"
    then have "\<forall>c\<in>set ?E. sqlite_text c = c" by auto
    then have m: "map sqlite_text ?E = ?E" by (intro map_idI) blast
    have "stitch 200 ?E = ?T"
    proof (cases "rest = []")
      case True
      have "F = []" using fr(3) True by auto
      then show ?thesis using True fr(4) by (auto simp: trim_def)
    next
      case False
      then show ?thesis using t fr(4) by simp
    qed
    then show "stitch 200 (map sqlite_text ?E) = ?T" using m by simp
  qed
  have ov: "\<forall>k<length F. take 200 ((F @ [rest]) ! Suc k) = drop 1800 (F ! k)"
    using window_overlap[OF fr(5) fr(1) fr(6)] by blast
  have idx: "map chunk_index (chunk_rows ids d now 0 ?E) = [0..<length (chunk_rows ids d now 0 ?E)]"
    by (simp only: chunk_rows_index chunk_rows_length add_0)
  have doc: "\<forall>c\<in>set (chunk_rows ids d now 0 ?E). chunk_document_id c = d"
    using chunk_rows_doc by blast
  have con: "map chunk_content (chunk_rows ids d now 0 ?E) = map sqlite_text ?E"
    by (rule chunk_rows_content)
  have pre: "take (length (chunks s)) (chunks s') = chunks s" by (simp add: ch)
  show ?thesis
    apply (rule exI[of _ bufs], rule exI[of _ sizeBytes], rule exI[of _ F], rule exI[of _ rest])
    unfolding Let_def rows con
    using node pre doc idx fr(1,2,4,5,6) ov tr by blast
qed

lemma importOneFile_done_no_rows:
  assumes "importOneFile e d ids now node path item (s, blobs) = Some (r, s', blobs')"
    and "res_status r = ItemDone" and "node = Regular sizeBytes bufs rerr"
  shows "chunks s' = chunks s \<longleftrightarrow>
     length (decoded_text e bufs) < 2000 \<and> trim (decoded_text e bufs) = []"
proof -
  from importOneFile_done_chunks[OF assms(1,2)] assms(3) obtain F rest where
    ch: "chunks s' = chunks s @
       chunk_rows ids d now 0 (F @ (if trim rest = [] then [] else [trim rest]))"
    and fr: "\<forall>c\<in>set F. length c = 2000"
      "\<forall>k<length F. F ! k = take 2000 (drop (1800 * k) (decoded_text e bufs))"
      "rest = drop (1800 * length F) (decoded_text e bufs)" "length rest < 2000"
    by auto
  let ?E = "F @ (if trim rest = [] then [] else [trim rest])"
  have "chunks s' = chunks s \<longleftrightarrow> chunk_rows ids d now 0 ?E = []" using ch by simp
  also have "\<dots> \<longleftrightarrow> ?E = []"
    using chunk_rows_length[of ids d now 0 ?E] by (metis length_0_conv)
  also have "\<dots> \<longleftrightarrow> F = [] \<and> trim rest = []" by simp
  also have "\<dots> \<longleftrightarrow> length (decoded_text e bufs) < 2000 \<and> trim (decoded_text e bufs) = []"
  proof
    assume "F = [] \<and> trim rest = []"
    then have f: "F = []" and t: "trim rest = []" by simp_all
    have "rest = decoded_text e bufs" using fr(3) f by simp
    then show "length (decoded_text e bufs) < 2000 \<and> trim (decoded_text e bufs) = []"
      using t fr(4) by simp
  next
    assume a: "length (decoded_text e bufs) < 2000 \<and> trim (decoded_text e bufs) = []"
    have f: "F = []" using no_window_short_text[OF fr(2) fr(1)] a by auto
    then have "rest = decoded_text e bufs" using fr(3) by simp
    then show "F = [] \<and> trim rest = []" using f a by simp
  qed
  finally show ?thesis .
qed

lemma stream_unindexed:
  assumes "\<not> supported \<or> (bufs \<noteq> [] \<and> bufferLooksBinary (hd bufs))"
  shows "\<exists>st. stream_loop e ids d now bufs
            \<lparr>st_store = s1, st_hashed = [], st_blob = [], st_pending = [], st_carry = [],
              st_chunkIndex = 0, st_decidedBinary = False, st_canIndex = supported\<rparr> = Some (Inr st) \<and>
          st_store st = s1 \<and> st_hashed st = concat bufs \<and> st_blob st = concat bufs \<and>
          \<not> st_canIndex st"
proof (cases supported)
  case False
  then show ?thesis
    using stream_noindex[of "\<lparr>st_store = s1, st_hashed = [], st_blob = [], st_pending = [], st_carry = [],
              st_chunkIndex = 0, st_decidedBinary = False, st_canIndex = supported\<rparr>" e ids d now bufs]
    by simp
next
  case True
  then obtain b bs where b: "bufs = b # bs" "bufferLooksBinary b"
    using assms by (cases bufs) auto
  show ?thesis
    using stream_binary_first[of "\<lparr>st_store = s1, st_hashed = [], st_blob = [], st_pending = [], st_carry = [],
              st_chunkIndex = 0, st_decidedBinary = False, st_canIndex = supported\<rparr>" b e ids d now bs]
      True b by simp
qed

lemma stream_indexed_only:
  assumes "stream_loop e ids d now bufs
            \<lparr>st_store = s1, st_hashed = [], st_blob = [], st_pending = [], st_carry = [],
              st_chunkIndex = 0, st_decidedBinary = False, st_canIndex = supported\<rparr> = Some (Inr st)"
    "st_canIndex st"
  shows "supported \<and> (bufs = [] \<or> \<not> bufferLooksBinary (hd bufs))"
proof (rule ccontr)
  assume "\<not> (supported \<and> (bufs = [] \<or> \<not> bufferLooksBinary (hd bufs)))"
  then have "\<not> supported \<or> (bufs \<noteq> [] \<and> bufferLooksBinary (hd bufs))" by auto
  from stream_unindexed[OF this, of e ids d now s1] assms show False by auto
qed

lemma import_body_unindexed:
  assumes "d \<notin> doc_id ` set (documents s)"
    "\<not> isSupportedTextExtension e path \<or> (bufs \<noteq> [] \<and> bufferLooksBinary (hd bufs))"
  shows "import_body e d ids now path sizeBytes bufs None s =
     Some (Inr (s\<lparr>documents := documents s @ [stored_document e d path sizeBytes bufs now]\<rparr>,
                concat bufs, False))"
proof -
  let ?s1 = "s\<lparr>documents := documents s @
        [\<lparr>doc_id = d, doc_kind = KindFile, doc_title = basename e path,
          doc_source_path = Some path, doc_blob_rel_path = Some (getBlobRelPath e d path),
          doc_mime_type = guessMimeType e path, doc_size_bytes = sizeBytes, doc_sha256 = None,
          doc_created_at = now, doc_updated_at = now\<rparr>]\<rparr>"
  have ins: "insertDocument d (basename e path) path (getBlobRelPath e d path)
               (guessMimeType e path) sizeBytes now s = Inr ?s1"
    using assms(1) by (simp add: insertDocument_def)
  from stream_unindexed[OF assms(2), of e ids d now ?s1] obtain st where
    st: "stream_loop e ids d now bufs
            \<lparr>st_store = ?s1, st_hashed = [], st_blob = [], st_pending = [], st_carry = [],
              st_chunkIndex = 0, st_decidedBinary = False,
              st_canIndex = isSupportedTextExtension e path\<rparr> = Some (Inr st)"
      "st_store st = ?s1" "st_hashed st = concat bufs" "st_blob st = concat bufs"
      "\<not> st_canIndex st"
    by blast
  have fin: "finish_index e ids d now st = Some (Inr st)" using st(5) by (simp add: finish_index_def)
  have old: "map (\<lambda>x. if doc_id x = d then x\<lparr>doc_sha256 := Some h, doc_updated_at := now\<rparr> else x)
               (documents s) = documents s" for h
    using assms(1) by (intro map_idI) auto
  have "updateSha (sha256_hex e (concat bufs)) now d ?s1 =
      s\<lparr>documents := documents s @ [stored_document e d path sizeBytes bufs now]\<rparr>"
    by (simp add: updateSha_def stored_document_def old)
  then show ?thesis using ins st fin by (simp add: import_body_def)
qed

lemma import_body_done_only_indexed:
  assumes "import_body e d ids now path sizeBytes bufs rerr s = Some (Inr (s2, blob, True))"
  shows "rerr = None \<and> isSupportedTextExtension e path \<and> (bufs = [] \<or> \<not> bufferLooksBinary (hd bufs))"
proof -
  from assms obtain s1 st st' where
    sl: "stream_loop e ids d now bufs
                  \<lparr>st_store = s1, st_hashed = [], st_blob = [], st_pending = [], st_carry = [],
                    st_chunkIndex = 0, st_decidedBinary = False,
                    st_canIndex = isSupportedTextExtension e path\<rparr> = Some (Inr st)"
    and fi: "finish_index e ids d now st = Some (Inr st')"
    and ci: "st_canIndex st'" and r: "rerr = None"
    by (auto simp: import_body_def split: sum.splits option.splits)
  have cs: "st_canIndex st" using fi ci by (auto simp: finish_index_def split: if_splits)
  from stream_indexed_only[OF sl cs] r show ?thesis by simp
qed


text \<open>Unfolding rules that evaluate an import on a concrete file.\<close>

lemmas import_ev = importOneFile_def import_body_def insertDocument_def stream_loop.simps
  step_buffer_def index_text_def chunker_push_def push_loop.simps insert_parts.simps insertChunk_def
  finish_index_def chunker_flush_def trim_def is_js_whitespace_def updateSha_def touch_item_def
  isSupportedTextExtension_def guessMimeType_def getBlobRelPath_def bufferLooksBinary_def
  textExts_def ascii_env_def ascii_extname_def ascii_lower_def Let_def
  migrated_store_def applied_def KNOWLEDGE_META_MIGRATIONS_def create_schema_migrations_table_def empty_store_def




text \<open>
  C9 (as amended). \<open>importOneFile\<close> reports \<open>done\<close> only for a regular file read without
  error whose extension is in the allow-list and whose first buffer, if there is one,
  has no NUL byte: the files whose text went through the chunker. Such a file has its
  document id in the result, and the rows added to \<open>chunks\<close> are rows of its document;
  none is added exactly when its decoded text is shorter than 2000 code units and is
  empty or all white space. A file read without error whose extension is not in the
  list, or whose first buffer contains a NUL byte, is reported \<open>skipped\<close> with its
  document id and no error: no row is added to \<open>chunks\<close>, although the commit holds its
  \<open>documents\<close> row with the digest of all its bytes and the blob holds all its bytes
  (\<open>d\<close>, the fresh UUID, is not yet a document id).
\<close>

theorem importOneFile_skipped_covers_unindexed:
  "(importOneFile e d ids now node path item (s, blobs) = Some (r, s', blobs') \<and>
      res_status r = ItemDone \<longrightarrow>
      (\<exists>sizeBytes bufs. node = Regular sizeBytes bufs None \<and> isSupportedTextExtension e path \<and>
         (bufs = [] \<or> \<not> bufferLooksBinary (hd bufs)) \<and>
         res_documentId r = Some d \<and> res_error r = None \<and>
         take (length (chunks s)) (chunks s') = chunks s \<and>
         (\<forall>c\<in>set (drop (length (chunks s)) (chunks s')). chunk_document_id c = d) \<and>
         (chunks s' = chunks s \<longleftrightarrow>
            length (decoded_text e bufs) < 2000 \<and> trim (decoded_text e bufs) = []))) \<and>
   (d \<notin> doc_id ` set (documents s) \<and>
      (\<not> isSupportedTextExtension e path \<or> (bufs \<noteq> [] \<and> bufferLooksBinary (hd bufs))) \<longrightarrow>
      (\<exists>s2. importOneFile e d ids now (Regular sizeBytes bufs None) path item (s, blobs) =
          Some (\<lparr>res_status = ItemSkipped, res_documentId = Some d, res_error = None\<rparr>,
                s2, blobs(getBlobRelPath e d path \<mapsto> concat bufs)) \<and>
        s2 = touch_item now item
               (s\<lparr>documents := documents s @ [stored_document e d path sizeBytes bufs now]\<rparr>) \<and>
        chunks s2 = chunks s))"
proof (intro conjI impI)
  assume a: "importOneFile e d ids now node path item (s, blobs) = Some (r, s', blobs') \<and>
      res_status r = ItemDone"
  then have x: "importOneFile e d ids now node path item (s, blobs) = Some (r, s', blobs')"
    and dn: "res_status r = ItemDone" by simp_all
  from a obtain sizeBytes bufs rerr s2 blob where
    node: "node = Regular sizeBytes bufs rerr"
    and body: "import_body e d ids now path sizeBytes bufs rerr s = Some (Inr (s2, blob, True))"
    and res: "res_documentId r = Some d" "res_error r = None"
    by (auto simp: importOneFile_def split: fsnode.splits option.splits sum.splits if_splits)
  from importOneFile_done_rows[OF x dn] have
    rows: "take (length (chunks s)) (chunks s') = chunks s"
      "\<forall>c\<in>set (drop (length (chunks s)) (chunks s')). chunk_document_id c = d"
    unfolding Let_def by blast+
  note none = importOneFile_done_no_rows[OF x dn node]
  from import_body_done_only_indexed[OF body] node res rows none
  show "\<exists>sizeBytes bufs. node = Regular sizeBytes bufs None \<and> isSupportedTextExtension e path \<and>
         (bufs = [] \<or> \<not> bufferLooksBinary (hd bufs)) \<and>
         res_documentId r = Some d \<and> res_error r = None \<and>
         take (length (chunks s)) (chunks s') = chunks s \<and>
         (\<forall>c\<in>set (drop (length (chunks s)) (chunks s')). chunk_document_id c = d) \<and>
         (chunks s' = chunks s \<longleftrightarrow>
            length (decoded_text e bufs) < 2000 \<and> trim (decoded_text e bufs) = [])"
    by blast
next
  assume "d \<notin> doc_id ` set (documents s) \<and>
      (\<not> isSupportedTextExtension e path \<or> (bufs \<noteq> [] \<and> bufferLooksBinary (hd bufs)))"
  then show "\<exists>s2. importOneFile e d ids now (Regular sizeBytes bufs None) path item (s, blobs) =
          Some (\<lparr>res_status = ItemSkipped, res_documentId = Some d, res_error = None\<rparr>,
                s2, blobs(getBlobRelPath e d path \<mapsto> concat bufs)) \<and>
        s2 = touch_item now item
               (s\<lparr>documents := documents s @ [stored_document e d path sizeBytes bufs now]\<rparr>) \<and>
        chunks s2 = chunks s"
    using import_body_unindexed[of d s e path bufs ids now sizeBytes]
    by (simp add: importOneFile_def touch_item_def)
qed

theorem importOneFile_skipped_covers_unindexed_witness:
  "isSupportedTextExtension ascii_env ''/tmp/a.txt'' \<and>
   chunks (fst (snd (the (importOneFile ascii_env ''d1'' (\<lambda>k. ''c1'') 5
       (Regular 3 [[97, 32, 98]] None) ''/tmp/a.txt'' ''i1'' (migrated_store, Map.empty))))) \<noteq>
     chunks migrated_store \<and>
   (\<exists>s2. importOneFile ascii_env ''d1'' (\<lambda>k. ''c1'') 5 (Regular 2 [[137, 80]] None) ''/tmp/a.png''
       ''i1'' (migrated_store, Map.empty) =
     Some (\<lparr>res_status = ItemSkipped, res_documentId = Some ''d1'', res_error = None\<rparr>,
           s2, [getBlobRelPath ascii_env ''d1'' ''/tmp/a.png'' \<mapsto> concat [[137, 80]]]) \<and>
     s2 = touch_item 5 ''i1'' (migrated_store\<lparr>documents := documents migrated_store @
             [stored_document ascii_env ''d1'' ''/tmp/a.png'' 2 [[137, 80]] 5]\<rparr>) \<and>
     chunks s2 = chunks migrated_store)"
proof -
  let ?x = "importOneFile ascii_env ''d1'' (\<lambda>k. ''c1'') 5 (Regular 3 [[97, 32, 98]] None)
          ''/tmp/a.txt'' ''i1'' (migrated_store, Map.empty)"
  have st: "res_status (fst (the ?x)) = ItemDone" by (simp add: import_ev)
  obtain r s' blobs' where x: "?x = Some (r, s', blobs')"
    using importOneFile_returns[of ascii_env "''d1''" "\<lambda>k. ''c1''" 5
      "Regular 3 [[97, 32, 98]] None" "''/tmp/a.txt''" "''i1''" "(migrated_store, Map.empty)"]
    by auto
  then have d: "res_status r = ItemDone" using st by simp
  have fresh: "''d1'' \<notin> doc_id ` set (documents migrated_store)" by (simp add: import_ev)
  have png: "\<not> isSupportedTextExtension ascii_env ''/tmp/a.png''" by (simp add: import_ev)
  have dec: "decoded_text ascii_env [[97, 32, 98]] = [97, 32, 98]"
    by (simp add: decoded_text_def ascii_env_def)
  have nb: "trim [97, 32, 98 :: unit16] \<noteq> []" by (simp add: trim_def is_js_whitespace_def)
  note t = importOneFile_skipped_covers_unindexed
  from t[of ascii_env "''d1''" "\<lambda>k. ''c1''" 5 "Regular 3 [[97, 32, 98]] None" "''/tmp/a.txt''"
      "''i1''" migrated_store Map.empty r s' blobs'] x d
  obtain sizeBytes bufs where
    a: "Regular 3 [[97, 32, 98]] None = Regular sizeBytes bufs None"
      "isSupportedTextExtension ascii_env ''/tmp/a.txt''"
      "chunks s' = chunks migrated_store \<longleftrightarrow>
         length (decoded_text ascii_env bufs) < 2000 \<and> trim (decoded_text ascii_env bufs) = []"
    by blast
  from a(1) have "bufs = [[97, 32, 98]]" by simp
  with a(3) dec nb have a2: "chunks s' \<noteq> chunks migrated_store" by simp
  from t[of ascii_env "''d1''" "\<lambda>k. ''c1''" 5 node "''/tmp/a.png''" "''i1''" migrated_store
      Map.empty r s' blobs' "[[137, 80]]" 2] fresh png
  have b: "\<exists>s2. importOneFile ascii_env ''d1'' (\<lambda>k. ''c1'') 5 (Regular 2 [[137, 80]] None) ''/tmp/a.png''
       ''i1'' (migrated_store, Map.empty) =
     Some (\<lparr>res_status = ItemSkipped, res_documentId = Some ''d1'', res_error = None\<rparr>,
           s2, [getBlobRelPath ascii_env ''d1'' ''/tmp/a.png'' \<mapsto> concat [[137, 80]]]) \<and>
     s2 = touch_item 5 ''i1'' (migrated_store\<lparr>documents := documents migrated_store @
             [stored_document ascii_env ''d1'' ''/tmp/a.png'' 2 [[137, 80]] 5]\<rparr>) \<and>
     chunks s2 = chunks migrated_store" by blast
  show ?thesis using a(2) a2 b x by simp
qed

text \<open>
  The claim as stated fails for a file that holds no text to index: an empty \<open>a.txt\<close>,
  and an \<open>a.txt\<close> that holds a space and a line feed, are both reported \<open>done\<close>, with a
  \<open>documents\<close> row and not one row in \<open>chunks\<close>.
\<close>

theorem blank_text_file_done_counterexample:
  "(case importOneFile ascii_env ''d1'' (\<lambda>k. ''c1'') 5 (Regular 0 [] None)
           ''/tmp/a.txt'' ''i1'' (migrated_store, Map.empty) of
      None \<Rightarrow> False
    | Some (r, s', b) \<Rightarrow>
        res_status r = ItemDone \<and> map doc_id (documents s') = [''d1''] \<and> chunks s' = []) \<and>
   (case importOneFile ascii_env ''d1'' (\<lambda>k. ''c1'') 5 (Regular 2 [[32, 10]] None)
           ''/tmp/a.txt'' ''i1'' (migrated_store, Map.empty) of
      None \<Rightarrow> False
    | Some (r, s', b) \<Rightarrow>
        res_status r = ItemDone \<and> map doc_id (documents s') = [''d1''] \<and> chunks s' = [])"
  by (simp add: import_ev)

text \<open>
  C6 (as amended). Importing a regular file, read without error, whose first read buffer
  contains a NUL byte returns, adds no chunk row, adds exactly one \<open>documents\<close> row, with
  \<open>sha256\<close> set to the digest of all the bytes of the file, and leaves all the bytes in
  the blob. The NUL byte is looked for in the raw bytes of the first buffer only.
\<close>

theorem importOneFile_nul_in_first_buffer:
  assumes "d \<notin> doc_id ` set (documents s)" "bufs \<noteq> []" "0 \<in> set (hd bufs)"
  shows "\<exists>r s' blobs'.
     importOneFile e d ids now (Regular sizeBytes bufs None) path item (s, blobs) = Some (r, s', blobs') \<and>
     res_error r = None \<and> res_documentId r = Some d \<and> chunks s' = chunks s \<and>
     (\<exists>doc. documents s' = documents s @ [doc] \<and> doc_id doc = d \<and>
        doc_sha256 doc = Some (sha256_hex e (concat bufs)) \<and>
        doc_blob_rel_path doc = Some (getBlobRelPath e d path)) \<and>
     blobs' (getBlobRelPath e d path) = Some (concat bufs)"
proof -
  have "bufferLooksBinary (hd bufs)" using assms(3) by (simp add: bufferLooksBinary_def)
  then have "import_body e d ids now path sizeBytes bufs None s =
     Some (Inr (s\<lparr>documents := documents s @ [stored_document e d path sizeBytes bufs now]\<rparr>,
                concat bufs, False))"
    using import_body_unindexed[of d s e path bufs ids now sizeBytes] assms(1,2) by simp
  then show ?thesis
    by (simp add: importOneFile_def touch_item_def stored_document_def)
qed

theorem importOneFile_nul_in_first_buffer_witness:
  "\<exists>r s' blobs'.
     importOneFile ascii_env ''d1'' (\<lambda>k. ''c1'') 5 (Regular 3 [[97, 0, 98]] None) ''/tmp/a.txt''
       ''i1'' (migrated_store, Map.empty) = Some (r, s', blobs') \<and>
     res_error r = None \<and> res_documentId r = Some ''d1'' \<and> chunks s' = chunks migrated_store \<and>
     (\<exists>doc. documents s' = documents migrated_store @ [doc] \<and> doc_id doc = ''d1'' \<and>
        doc_sha256 doc = Some (sha256_hex ascii_env (concat [[97, 0, 98]])) \<and>
        doc_blob_rel_path doc = Some (getBlobRelPath ascii_env ''d1'' ''/tmp/a.txt'')) \<and>
     blobs' (getBlobRelPath ascii_env ''d1'' ''/tmp/a.txt'') = Some (concat [[97, 0, 98]])"
proof -
  have fresh: "''d1'' \<notin> doc_id ` set (documents migrated_store)" by (simp add: import_ev)
  show ?thesis
    by (rule importOneFile_nul_in_first_buffer[OF fresh]) simp_all
qed

text \<open>
  The claim as stated fails for a NUL byte that is not in the first buffer: a file
  \<open>a.txt\<close> of 65536 letters \<open>a\<close> followed by one NUL byte, read as a buffer of 65536
  bytes and a buffer of one byte, is imported as \<open>done\<close> with 37 chunk rows.
\<close>

theorem nul_in_later_buffer_counterexample:
  "(case importOneFile ascii_env ''d1'' (\<lambda>k. replicate (Suc k) CHR ''c'') 5
           (Regular 65537 [replicate 65536 97, [0]] None)
           ''/tmp/a.txt'' ''i1'' (migrated_store, Map.empty) of
      None \<Rightarrow> False
    | Some (r, s', b) \<Rightarrow>
        res_status r = ItemDone \<and> length (chunks s') = 37)"
  by (simp add: import_ev)

section \<open>The handlers: proofs\<close>

lemma migrate_tables:
  assumes "migrateKnowledgeMetaDb ok ms tm c = (r, c')"
  shows "jobs (cur c') = jobs (cur c) \<and> job_items (cur c') = job_items (cur c) \<and>
     documents (cur c') = documents (cur c) \<and> chunks (cur c') = chunks (cur c)"
proof (cases "pending_migrations ms (cur c) = []")
  case True
  then show ?thesis using assms
    by (auto simp: migrate_none after_create_def create_schema_migrations_table_def)
next
  case False
  show ?thesis
  proof (cases "(\<forall>m\<in>set (pending_migrations ms (cur c)). ok (mig_sql m)) \<and>
                distinct (map mig_id (pending_migrations ms (cur c)))")
    case True
    then show ?thesis using assms migrate_ok[OF refl False, of ok tm]
      by (auto simp: after_create_def create_schema_migrations_table_def applied_def)
  next
    case False
    then show ?thesis using assms migrate_fail[OF refl False, of tm]
      by (auto simp: after_create_def create_schema_migrations_table_def)
  qed
qed

lemma getDb_opened: "w_opened w \<Longrightarrow> getDb e now w = (None, w)"
  by (simp add: getDb_def)

lemma getDb_effect:
  assumes "getDb e now w = (r, w1)"
  shows "w_blobs w1 = w_blobs w \<and> w_running w1 = w_running w \<and> w_canceled w1 = w_canceled w \<and>
     w_inflight w1 = w_inflight w \<and> w_events w1 = w_events w \<and>
     documents (w_db w1) = documents (w_db w) \<and> chunks (w_db w1) = chunks (w_db w) \<and>
     (r = None \<longrightarrow> w_opened w1) \<and>
     (jobs (w_db w1) = jobs (w_db w) \<and> job_items (w_db w1) = job_items (w_db w) \<or>
      \<not> w_opened w \<and> r = None \<and> jobs (w_db w1) = jobs (recover_jobs now (w_db w)) \<and>
        job_items (w_db w1) = job_items (recover_items now (w_db w)))"
proof (cases "w_opened w")
  case True
  then show ?thesis using assms by (simp add: getDb_def)
next
  case False
  obtain r0 c where m: "migrateKnowledgeMetaDb (sql_ok e) KNOWLEDGE_META_MIGRATIONS now
      (open_conn (w_db w)) = (r0, c)"
    by (cases "migrateKnowledgeMetaDb (sql_ok e) KNOWLEDGE_META_MIGRATIONS now (open_conn (w_db w))")
  from migrate_tables[OF m] have t: "jobs (cur c) = jobs (w_db w)" "job_items (cur c) = job_items (w_db w)"
    "documents (cur c) = documents (w_db w)" "chunks (cur c) = chunks (w_db w)"
    by (simp_all add: open_conn_def)
  show ?thesis
  proof (cases r0)
    case None
    then show ?thesis using assms False m t
      by (auto simp: getDb_def getDb_open_def openKnowledgeMetaDb_def recover_cur
          recover_items_def recover_jobs_def)
  next
    case (Some err)
    then show ?thesis using assms False m t
      by (auto simp: getDb_def getDb_open_def openKnowledgeMetaDb_def)
  qed
qed

lemma getDb_ids:
  assumes "getDb e now w = (r, w1)"
  shows "map job_id (jobs (w_db w1)) = map job_id (jobs (w_db w)) \<and>
         map item_id (job_items (w_db w1)) = map item_id (job_items (w_db w))"
  using getDb_effect[OF assms]
  by (auto simp: recover_jobs_def recover_items_def comp_def if_distrib cong: if_cong)

lemma getDb_rows:
  assumes "getDb e now w = (r, w1)"
  shows "length (jobs (w_db w1)) = length (jobs (w_db w)) \<and>
     length (job_items (w_db w1)) = length (job_items (w_db w)) \<and>
     (\<forall>k<length (jobs (w_db w)). job_status (jobs (w_db w) ! k) \<noteq> Processing \<longrightarrow>
        jobs (w_db w1) ! k = jobs (w_db w) ! k) \<and>
     (\<forall>k<length (job_items (w_db w)). item_status (job_items (w_db w) ! k) \<noteq> ItemProcessing \<longrightarrow>
        job_items (w_db w1) ! k = job_items (w_db w) ! k) \<and>
     (\<forall>k<length (jobs (w_db w)).
        job_id (jobs (w_db w1) ! k) = job_id (jobs (w_db w) ! k) \<and>
        job_finished_at (jobs (w_db w1) ! k) = job_finished_at (jobs (w_db w) ! k))"
  using getDb_effect[OF assms]
  by (auto simp: recover_jobs_def recover_items_def)

lemma handlePauseJob_db:
  "\<exists>r w1. getDb e now w = (r, w1) \<and>
     (jobs (w_db (snd (handlePauseJob e now kbId jobId w))) = jobs (w_db w) \<or>
      jobs (w_db (snd (handlePauseJob e now kbId jobId w))) = jobs (w_db w1) \<or>
      jobs (w_db (snd (handlePauseJob e now kbId jobId w))) = jobs (pause_job now jobId (w_db w1)))"
  by (cases "getDb e now w") (auto simp: handlePauseJob_def sendJobUpdate_def split: option.splits)

lemma pause_terminal_rows:
  assumes "k < length (jobs (w_db w))" "job_status (jobs (w_db w) ! k) \<in> {Done, Failed, Canceled}"
  shows "jobs (w_db (snd (handlePauseJob e now kbId jobId w))) ! k = jobs (w_db w) ! k"
proof -
  obtain r w1 where g: "getDb e now w = (r, w1)" by (cases "getDb e now w")
  from getDb_rows[OF g] assms have l: "length (jobs (w_db w1)) = length (jobs (w_db w))"
    and same: "jobs (w_db w1) ! k = jobs (w_db w) ! k" by auto
  have "jobs (pause_job now jobId (w_db w1)) ! k = jobs (w_db w) ! k"
    using assms l same by (auto simp: pause_job_def update_jobs_def)
  then show ?thesis using g same
    by (auto simp: handlePauseJob_def sendJobUpdate_def split: option.splits)
qed

lemma cancel_result:
  assumes "kbId \<noteq> []" "jobId \<noteq> []" "getDb e now w = (None, w1)"
  shows "snd (handleCancelJob e now kbId jobId w) =
     sendJobUpdate jobId (w1\<lparr>w_canceled := insert jobId (w_canceled w),
        w_db := cancel_items now jobId (cancel_job now jobId (w_db w1))\<rparr>)"
proof -
  have "getDb e now (w\<lparr>w_canceled := insert jobId (w_canceled w)\<rparr>) =
      (None, w1\<lparr>w_canceled := insert jobId (w_canceled w)\<rparr>)"
    using assms(3) by (auto simp: getDb_def split: if_splits prod.splits option.splits)
  then show ?thesis using assms(1,2) by (simp add: handleCancelJob_def)
qed


lemma cancel_twice_store:
  "map job_status (jobs (cancel_items t2 jobId (cancel_job t2 jobId
       (cancel_items t1 jobId (cancel_job t1 jobId s))))) =
     map job_status (jobs (cancel_items t1 jobId (cancel_job t1 jobId s))) \<and>
   map job_finished_at (jobs (cancel_items t2 jobId (cancel_job t2 jobId
       (cancel_items t1 jobId (cancel_job t1 jobId s))))) =
     map job_finished_at (jobs (cancel_items t1 jobId (cancel_job t1 jobId s))) \<and>
   map item_status (job_items (cancel_items t2 jobId (cancel_job t2 jobId
       (cancel_items t1 jobId (cancel_job t1 jobId s))))) =
     map item_status (job_items (cancel_items t1 jobId (cancel_job t1 jobId s)))"
  by (auto simp: cancel_items_def cancel_job_def update_jobs_def update_items_def
      split: option.splits)

lemma cancel_once_store:
  "length (jobs (cancel_items t jobId (cancel_job t jobId s))) = length (jobs s) \<and>
   length (job_items (cancel_items t jobId (cancel_job t jobId s))) = length (job_items s) \<and>
   (\<forall>k<length (jobs s). 
      (job_id (jobs s ! k) = jobId \<longrightarrow>
        job_status (jobs (cancel_items t jobId (cancel_job t jobId s)) ! k) = Canceled \<and>
        (job_finished_at (jobs s ! k) \<noteq> None \<longrightarrow>
           job_finished_at (jobs (cancel_items t jobId (cancel_job t jobId s)) ! k) =
             job_finished_at (jobs s ! k))) \<and>
      (job_id (jobs s ! k) \<noteq> jobId \<longrightarrow>
         jobs (cancel_items t jobId (cancel_job t jobId s)) ! k = jobs s ! k)) \<and>
   (\<forall>k<length (job_items s).
      item_status (job_items s ! k) \<in> {ItemDone, ItemFailed, ItemSkipped} \<longrightarrow>
        job_items (cancel_items t jobId (cancel_job t jobId s)) ! k = job_items s ! k)"
  by (auto simp: cancel_items_def cancel_job_def update_jobs_def update_items_def
      split: option.splits)


text \<open>
  C7 (as amended). When the sources resolve to no file, \<open>handleImportFiles\<close> fails, and
  the tables \<open>jobs\<close> and \<open>job_items\<close> hold the rows they held, no more and no fewer. If
  the knowledge base was open already the whole state is unchanged. If the call has to
  open it, the store is changed by what opening does (migration and the recovery pass),
  and by nothing else; with a non-empty \<open>kbId\<close>, non-empty \<open>sources\<close> and a successful
  open the error is \<open>NoFilesFound\<close>.
\<close>

theorem handleImportFiles_no_files:
  assumes "resolveImportFileList e sources = []"
  shows "(\<exists>err. fst (handleImportFiles e jobId itemIds now kbId sources w) = Inl err) \<and>
     map job_id (jobs (w_db (snd (handleImportFiles e jobId itemIds now kbId sources w)))) =
       map job_id (jobs (w_db w)) \<and>
     map item_id (job_items (w_db (snd (handleImportFiles e jobId itemIds now kbId sources w)))) =
       map item_id (job_items (w_db w)) \<and>
     (w_opened w \<longrightarrow> snd (handleImportFiles e jobId itemIds now kbId sources w) = w) \<and>
     (kbId \<noteq> [] \<and> sources \<noteq> [] \<and> fst (getDb e now w) = None \<longrightarrow>
        handleImportFiles e jobId itemIds now kbId sources w =
          (Inl NoFilesFound, snd (getDb e now w)))"
proof -
  obtain r w1 where g: "getDb e now w = (r, w1)" by (cases "getDb e now w")
  have h: "handleImportFiles e jobId itemIds now kbId sources w =
     (if kbId = [] then (Inl KbIdEmpty, w)
      else if sources = [] then (Inl SourcesEmpty, w)
      else (case r of Some err \<Rightarrow> (Inl err, w1) | None \<Rightarrow> (Inl NoFilesFound, w1)))"
    using assms g by (simp add: handleImportFiles_def split: option.splits)
  show ?thesis
    using getDb_ids[OF g] g getDb_opened[of w e now]
    by (auto simp: h split: option.splits)
qed

theorem handleImportFiles_no_files_witness:
  "snd (handleImportFiles ascii_env ''B'' (\<lambda>k. ''b-item'') 20 ''kb'' [Directory [''/empty''] None]
         ((init_worker migrated_store)\<lparr>w_opened := True\<rparr>)) =
     (init_worker migrated_store)\<lparr>w_opened := True\<rparr> \<and>
   handleImportFiles ascii_env ''B'' (\<lambda>k. ''b-item'') 20 ''kb'' [Directory [''/empty''] None]
       (init_worker crashed_store) =
     (Inl NoFilesFound, snd (getDb ascii_env 20 (init_worker crashed_store)))"
proof -
  have r: "resolveImportFileList ascii_env [Directory [''/empty''] None] = []"
    by (simp add: resolveImportFileList_def dedupe_def ascii_env_def)
  have o: "w_opened ((init_worker migrated_store)\<lparr>w_opened := True\<rparr>)" by simp
  have g: "fst (getDb ascii_env 20 (init_worker crashed_store)) = None" by code_simp
  note t = handleImportFiles_no_files[OF r]
  from t[of "''B''" "\<lambda>k. ''b-item''" 20 "''kb''" "(init_worker migrated_store)\<lparr>w_opened := True\<rparr>"] o
  have a: "snd (handleImportFiles ascii_env ''B'' (\<lambda>k. ''b-item'') 20 ''kb'' [Directory [''/empty''] None]
         ((init_worker migrated_store)\<lparr>w_opened := True\<rparr>)) =
     (init_worker migrated_store)\<lparr>w_opened := True\<rparr>" by blast
  from t[of "''B''" "\<lambda>k. ''b-item''" 20 "''kb''" "init_worker crashed_store"] g
  have b: "handleImportFiles ascii_env ''B'' (\<lambda>k. ''b-item'') 20 ''kb'' [Directory [''/empty''] None]
       (init_worker crashed_store) =
     (Inl NoFilesFound, snd (getDb ascii_env 20 (init_worker crashed_store)))" by simp
  show ?thesis using a b by blast
qed

text \<open>
  The claim as stated fails on "the metadata store is unchanged": when the failing call
  is the first to open a knowledge base that a crash left with a \<open>processing\<close> job and
  item, it returns \<open>NoFilesFound\<close> and the store has the job \<open>paused\<close> and the item
  \<open>pending\<close>.
\<close>

theorem failed_import_recovers_counterexample:
  "fst (handleImportFiles ascii_env ''B'' (\<lambda>k. ''b-item'') 20 ''kb'' [Directory [''/empty''] None]
         (init_worker crashed_store)) = Inl NoFilesFound \<and>
   map job_status (jobs crashed_store) = [Processing] \<and>
   map item_status (job_items crashed_store) = [ItemProcessing] \<and>
   map job_status (jobs (w_db (snd (handleImportFiles ascii_env ''B'' (\<lambda>k. ''b-item'') 20 ''kb''
         [Directory [''/empty''] None] (init_worker crashed_store))))) = [Paused] \<and>
   map item_status (job_items (w_db (snd (handleImportFiles ascii_env ''B'' (\<lambda>k. ''b-item'') 20
         ''kb'' [Directory [''/empty''] None] (init_worker crashed_store))))) = [ItemPending]"
  by code_simp

text \<open>
  C3 (as amended). \<open>pauseJob\<close> leaves every row of a job that is \<open>done\<close>, \<open>failed\<close> or
  \<open>canceled\<close> as it is. \<open>cancelJob\<close> (with non-empty ids, on a knowledge base that opens)
  sets the status of the job it names to \<open>canceled\<close> whatever it was, keeps a
  \<open>finished_at\<close> that is already set, and leaves every item row that is \<open>done\<close>,
  \<open>failed\<close> or \<open>skipped\<close> as it is; cancelling a second time changes no job status, no
  \<open>finished_at\<close> and no item status.
\<close>

theorem cancel_and_pause_on_finished_jobs:
  "(\<forall>k<length (jobs (w_db w)).
      job_status (jobs (w_db w) ! k) \<in> {Done, Failed, Canceled} \<longrightarrow>
        jobs (w_db (snd (handlePauseJob e now kbId jobId w))) ! k = jobs (w_db w) ! k) \<and>
   (kbId \<noteq> [] \<and> jobId \<noteq> [] \<and> fst (getDb e now w) = None \<longrightarrow>
     (let w' = snd (handleCancelJob e now kbId jobId w);
          w'' = snd (handleCancelJob e now2 kbId jobId w')
      in length (jobs (w_db w')) = length (jobs (w_db w)) \<and>
         length (job_items (w_db w')) = length (job_items (w_db w)) \<and>
         (\<forall>k<length (jobs (w_db w)).
            job_id (jobs (w_db w) ! k) = jobId \<longrightarrow>
              job_status (jobs (w_db w') ! k) = Canceled \<and>
              (job_finished_at (jobs (w_db w) ! k) \<noteq> None \<longrightarrow>
                 job_finished_at (jobs (w_db w') ! k) = job_finished_at (jobs (w_db w) ! k))) \<and>
         (\<forall>k<length (job_items (w_db w)).
            item_status (job_items (w_db w) ! k) \<in> {ItemDone, ItemFailed, ItemSkipped} \<longrightarrow>
              job_items (w_db w') ! k = job_items (w_db w) ! k) \<and>
         map job_status (jobs (w_db w'')) = map job_status (jobs (w_db w')) \<and>
         map job_finished_at (jobs (w_db w'')) = map job_finished_at (jobs (w_db w')) \<and>
         map item_status (job_items (w_db w'')) = map item_status (job_items (w_db w'))))"
proof (intro conjI impI allI)
  fix k assume "k < length (jobs (w_db w))" "job_status (jobs (w_db w) ! k) \<in> {Done, Failed, Canceled}"
  then show "jobs (w_db (snd (handlePauseJob e now kbId jobId w))) ! k = jobs (w_db w) ! k"
    by (rule pause_terminal_rows)
next
  assume a: "kbId \<noteq> [] \<and> jobId \<noteq> [] \<and> fst (getDb e now w) = None"
  obtain w1 where g: "getDb e now w = (None, w1)" using a by (cases "getDb e now w") auto
  define w' where "w' = snd (handleCancelJob e now kbId jobId w)"
  define w'' where "w'' = snd (handleCancelJob e now2 kbId jobId w')"
  define s1 where "s1 = cancel_items now jobId (cancel_job now jobId (w_db w1))"
  have w'db: "w_db w' = s1"
    using cancel_result[OF _ _ g, of kbId jobId] a by (simp add: w'_def s1_def sendJobUpdate_def)
  have op: "w_opened w'"
    using cancel_result[OF _ _ g, of kbId jobId] a getDb_effect[OF g]
    by (simp add: w'_def sendJobUpdate_def)
  have g2: "getDb e now2 w' = (None, w')" using op by (rule getDb_opened)
  have w''db: "w_db w'' = cancel_items now2 jobId (cancel_job now2 jobId s1)"
    using cancel_result[OF _ _ g2, of kbId jobId] a w'db by (simp add: w''_def sendJobUpdate_def)
  note r = getDb_rows[OF g]
  note c = cancel_once_store[of now jobId "w_db w1", folded s1_def]
  have len: "length (jobs s1) = length (jobs (w_db w))" "length (job_items s1) = length (job_items (w_db w))"
    using r c by auto
  have jobsP: "\<forall>k<length (jobs (w_db w)).
            job_id (jobs (w_db w) ! k) = jobId \<longrightarrow>
              job_status (jobs s1 ! k) = Canceled \<and>
              (job_finished_at (jobs (w_db w) ! k) \<noteq> None \<longrightarrow>
                 job_finished_at (jobs s1 ! k) = job_finished_at (jobs (w_db w) ! k))"
    using r c by auto
  have itemsP: "\<forall>k<length (job_items (w_db w)).
            item_status (job_items (w_db w) ! k) \<in> {ItemDone, ItemFailed, ItemSkipped} \<longrightarrow>
              job_items s1 ! k = job_items (w_db w) ! k"
  proof (intro allI impI)
    fix k assume k: "k < length (job_items (w_db w))"
      and t: "item_status (job_items (w_db w) ! k) \<in> {ItemDone, ItemFailed, ItemSkipped}"
    then have "job_items (w_db w1) ! k = job_items (w_db w) ! k" using r by auto
    moreover have "k < length (job_items (w_db w1))" using r k by simp
    ultimately show "job_items s1 ! k = job_items (w_db w) ! k" using c t by auto
  qed
  note tw = cancel_twice_store[of now2 jobId now "w_db w1", folded s1_def]
  show "let w' = snd (handleCancelJob e now kbId jobId w);
          w'' = snd (handleCancelJob e now2 kbId jobId w')
      in length (jobs (w_db w')) = length (jobs (w_db w)) \<and>
         length (job_items (w_db w')) = length (job_items (w_db w)) \<and>
         (\<forall>k<length (jobs (w_db w)).
            job_id (jobs (w_db w) ! k) = jobId \<longrightarrow>
              job_status (jobs (w_db w') ! k) = Canceled \<and>
              (job_finished_at (jobs (w_db w) ! k) \<noteq> None \<longrightarrow>
                 job_finished_at (jobs (w_db w') ! k) = job_finished_at (jobs (w_db w) ! k))) \<and>
         (\<forall>k<length (job_items (w_db w)).
            item_status (job_items (w_db w) ! k) \<in> {ItemDone, ItemFailed, ItemSkipped} \<longrightarrow>
              job_items (w_db w') ! k = job_items (w_db w) ! k) \<and>
         map job_status (jobs (w_db w'')) = map job_status (jobs (w_db w')) \<and>
         map job_finished_at (jobs (w_db w'')) = map job_finished_at (jobs (w_db w')) \<and>
         map item_status (job_items (w_db w'')) = map item_status (job_items (w_db w'))"
    unfolding Let_def w'_def[symmetric] w''_def[symmetric] w'db w''db
    using len jobsP itemsP tw by blast
qed

theorem cancel_and_pause_on_finished_jobs_witness:
  "jobs (w_db (snd (handlePauseJob ascii_env 13 ''kb'' ''A'' finished_worker))) ! 0 =
     jobs (w_db finished_worker) ! 0 \<and>
   job_status (jobs (w_db (snd (handleCancelJob ascii_env 13 ''kb'' ''A'' finished_worker))) ! 0) =
     Canceled \<and>
   job_finished_at (jobs (w_db (snd (handleCancelJob ascii_env 13 ''kb'' ''A'' finished_worker))) ! 0) =
     Some 12 \<and>
   job_items (w_db (snd (handleCancelJob ascii_env 13 ''kb'' ''A'' finished_worker))) ! 0 =
     job_items (w_db finished_worker) ! 0"
proof -
  have f: "length (jobs (w_db finished_worker)) = 1"
    "job_status (jobs (w_db finished_worker) ! 0) = Done"
    "job_id (jobs (w_db finished_worker) ! 0) = ''A''"
    "job_finished_at (jobs (w_db finished_worker) ! 0) = Some 12"
    "length (job_items (w_db finished_worker)) = 1"
    "item_status (job_items (w_db finished_worker) ! 0) = ItemDone"
    "fst (getDb ascii_env 13 finished_worker) = None"
    by code_simp+
  note t = cancel_and_pause_on_finished_jobs[of finished_worker ascii_env 13 "''kb''" "''A''" 14]
  have p: "jobs (w_db (snd (handlePauseJob ascii_env 13 ''kb'' ''A'' finished_worker))) ! 0 =
     jobs (w_db finished_worker) ! 0"
    using t f(1,2) by simp
  have c: "job_status (jobs (w_db (snd (handleCancelJob ascii_env 13 ''kb'' ''A'' finished_worker))) ! 0) =
     Canceled \<and>
   job_finished_at (jobs (w_db (snd (handleCancelJob ascii_env 13 ''kb'' ''A'' finished_worker))) ! 0) =
     Some 12 \<and>
   job_items (w_db (snd (handleCancelJob ascii_env 13 ''kb'' ''A'' finished_worker))) ! 0 =
     job_items (w_db finished_worker) ! 0"
    using t f unfolding Let_def by simp
  show ?thesis using p c by blast
qed

text \<open>
  The claim as stated fails: \<open>cancelJob\<close> on the job that is \<open>done\<close> changes its status
  to \<open>canceled\<close> (its \<open>finished_at\<close> and its item stay as they were).
\<close>

theorem cancel_leaves_done_counterexample:
  "map job_status (jobs (w_db finished_worker)) = [Done] \<and>
   map job_status (jobs (w_db (snd (handleCancelJob ascii_env 13 ''kb'' ''A'' finished_worker)))) =
     [Canceled] \<and>
   map job_finished_at (jobs (w_db (snd (handleCancelJob ascii_env 13 ''kb'' ''A''
     finished_worker)))) = [Some 12] \<and>
   map item_status (job_items (w_db (snd (handleCancelJob ascii_env 13 ''kb'' ''A''
     finished_worker)))) = [ItemDone]"
  by code_simp

text \<open>
  C2 does not hold of the code. After the steps of \<open>cancel_resume_import\<close> on a new
  knowledge base two jobs have status \<open>processing\<close>: \<open>resumeJob\<close> on the canceled job
  \<open>A\<close> starts \<open>processImportJob\<close>, which marks \<open>A\<close> \<open>processing\<close> and leaves its loop
  at once because \<open>A\<close> is in \<open>inMemoryCanceledJobs\<close>; no job is recorded as running then,
  so the next imported job starts too.
\<close>

theorem two_jobs_processing:
  "map (\<lambda>j. (job_id j, job_status j))
     (jobs (w_db (run_steps ascii_env cancel_resume_import (init_worker empty_store)))) =
     [(''A'', Processing), (''B'', Processing)] \<and>
   map (\<lambda>j. (job_id j, job_status j))
     (jobs (w_db (run_steps ascii_env (take 3 cancel_resume_import) (init_worker empty_store)))) =
     [(''A'', Canceled)] \<and>
   w_running (run_steps ascii_env (take 4 cancel_resume_import) (init_worker empty_store)) = None"
  by code_simp

section \<open>The request protocol: proofs\<close>

lemma map_of_remove_other: "k \<noteq> i \<Longrightarrow> map_of (remove_pending i ps) k = map_of ps k"
  by (induction ps) (auto simp: remove_pending_def)

lemma map_of_remove_same: "map_of (remove_pending i ps) i = None"
  by (induction ps) (auto simp: remove_pending_def)

lemma map_of_Some_mem: "map_of ps k = Some v \<Longrightarrow> k \<in> fst ` set ps"
  by (induction ps) (auto split: if_splits)

lemma discarded: "malformed msg \<Longrightarrow> on_message hs js msg = []"
  by (auto simp: malformed_def on_message_def split: inbound.splits option.splits)

lemma handlers_dom: "dom (handlers hs) = set handler_names"
  by (auto simp: handlers_def handler_names_def split: if_splits)

lemma object_prototype_dom: "dom (object_prototype js) = set object_prototype_names"
  by (auto simp: object_prototype_def object_prototype_names_def split: if_splits)

lemma get_property_own:
  "m \<in> set handler_names \<Longrightarrow> \<exists>h. handlers hs m = Some h \<and> get_property hs js m = Some (Method h)"
proof -
  assume "m \<in> set handler_names"
  then have "m \<in> dom (handlers hs)" using handlers_dom[of hs] by simp
  then obtain h where "handlers hs m = Some h" by blast
  then show ?thesis by (simp add: get_property_def)
qed

lemma get_property_none:
  "m \<notin> set handler_names \<Longrightarrow> m \<notin> set object_prototype_names \<Longrightarrow> get_property hs js m = None"
  using handlers_dom[of hs] object_prototype_dom[of js]
  by (auto simp: get_property_def split: option.splits)

lemma get_property_inherited:
  "m \<notin> set handler_names \<Longrightarrow> get_property hs js m = object_prototype js m"
  using handlers_dom[of hs] by (auto simp: get_property_def split: option.splits)

lemma inherited_throws:
  assumes "object_prototype js m = Some (Method h)" "h p = Some (Inl err)"
  shows "err = type_error"
  using assms by (auto simp: object_prototype_def split: if_splits)

lemma unknown_method:
  assumes "i \<noteq> []" "m \<noteq> []" "m \<notin> set handler_names" "m \<notin> set object_prototype_names"
  shows "on_message hs js (Request (Some i) (Some m) params) = [Response i (Inl (UnknownMethod m))]"
proof -
  have "get_property hs js m = None" using assms(3,4) by (rule get_property_none)
  then show ?thesis using assms(1,2) by (simp add: on_message_def)
qed

lemma toString_property:
  "get_property hs js ''toString'' = Some (Method (\<lambda>params. Some (Inr (js_undefined_tag js))))"
  by (simp add: get_property_def handlers_def object_prototype_def)

lemma constructor_property:
  "get_property hs js ''constructor'' = Some (Method (\<lambda>params. Some (Inr (js_Object js params))))"
  by (simp add: get_property_def handlers_def object_prototype_def)

lemma inherited_answered:
  assumes "i \<noteq> []" "m = ''toString'' \<or> m = ''constructor''"
  shows "\<exists>r. on_message hs js (Request (Some i) (Some m) params) = [Response i (Inr r)]"
  using assms(2)
proof
  assume "m = ''toString''"
  then show ?thesis using assms(1) by (simp add: on_message_def toString_property)
next
  assume "m = ''constructor''"
  then show ?thesis using assms(1) by (simp add: on_message_def constructor_property)
qed

lemma error_response_origin:
  assumes "Response j (Inl err) \<in> set (on_message hs js msg)"
  shows "\<not> malformed msg \<and>
      (\<exists>m p. msg = Request (Some j) (Some m) p \<and>
         (m \<notin> set handler_names \<and> m \<notin> set object_prototype_names \<and> err = UnknownMethod m \<or>
          m \<notin> set handler_names \<and> m \<in> set object_prototype_names \<and> err = type_error \<or>
          (\<exists>h. handlers hs m = Some h \<and> h p = Some (Inl err))))"
proof (cases msg)
  case NotAnObject
  then show ?thesis using assms by (simp add: on_message_def)
next
  case (Request i mo p)
  show ?thesis
  proof (cases i)
    case None
    then show ?thesis using assms Request by (simp add: on_message_def)
  next
    case (Some i')
    note i = Some
    show ?thesis
    proof (cases mo)
      case None
      then show ?thesis using assms Request i by (simp add: on_message_def)
    next
      case (Some m)
      note m = Some
      have ne: "i' \<noteq> [] \<and> m \<noteq> []"
      proof (rule ccontr)
        assume "\<not> (i' \<noteq> [] \<and> m \<noteq> [])"
        then have "on_message hs js msg = []" using Request i m by (auto simp: on_message_def)
        with assms show False by simp
      qed
      then have nm: "\<not> malformed msg" using Request i m by (simp add: malformed_def)
      have om: "on_message hs js msg =
          (case get_property hs js m of
             None \<Rightarrow> [Response i' (Inl (UnknownMethod m))]
           | Some NotCallable \<Rightarrow> [Response i' (Inl type_error)]
           | Some (Method handler) \<Rightarrow>
               (case handler p of
                  None \<Rightarrow> []
                | Some (Inr result) \<Rightarrow> [Response i' (Inr result)]
                | Some (Inl err) \<Rightarrow> [Response i' (Inl err)]))"
        using Request i m ne by (simp add: on_message_def)
      show ?thesis
      proof (cases "get_property hs js m")
        case None
        then have e: "i' = j" "err = UnknownMethod m" using assms om by simp_all
        have "m \<notin> set handler_names" using None get_property_own[of m hs js] by auto
        moreover from this have "m \<notin> set object_prototype_names"
          using None get_property_inherited[of m hs js] object_prototype_dom[of js] by auto
        ultimately show ?thesis using nm Request i m e by blast
      next
        case (Some pr)
        note pr = Some
        show ?thesis
        proof (cases "m \<in> set handler_names")
          case True
          from get_property_own[OF True, of hs js] obtain h where
            h: "handlers hs m = Some h" "get_property hs js m = Some (Method h)" by blast
          have "i' = j \<and> h p = Some (Inl err)"
            using assms om h(2) by (auto split: option.splits sum.splits)
          then show ?thesis using nm Request i m h(1) by blast
        next
          case False
          then have inh: "object_prototype js m = Some pr"
            using pr get_property_inherited[of m hs js] by simp
          then have mem: "m \<in> set object_prototype_names" using object_prototype_dom[of js] by auto
          have "i' = j \<and> err = type_error"
          proof (cases pr)
            case NotCallable
            then show ?thesis using assms om pr by simp
          next
            case (Method h)
            then have "i' = j \<and> h p = Some (Inl err)"
              using assms om pr by (auto split: option.splits sum.splits)
            with inherited_throws[OF inh[unfolded Method], of p err] show ?thesis by blast
          qed
          then show ?thesis using nm Request i m False mem by blast
        qed
      qed
    qed
  qed
qed

lemma pending_call_ends:
  assumes "map_of (c_pending c) k = Some meth" "\<forall>res. ev \<noteq> Arrives (Response k res)"
    "\<forall>meth'. ev \<noteq> Call k meth'"
  shows "\<exists>extra. c_settled (client_step ev c) = c_settled c @ extra \<and>
     ((map_of (c_pending (client_step ev c)) k = Some meth \<and> k \<notin> fst ` set extra) \<or>
      (ev = TimerFires k \<and> map_of (c_pending (client_step ev c)) k = None \<and>
         extra = [(k, Inl (Timeout meth))]) \<or>
      (ev = Dispose \<and> c_pending (client_step ev c) = [] \<and>
         (k, Inl WorkerExited) \<in> set extra))"
proof (cases ev)
  case (Call i m)
  then have "i \<noteq> k" using assms(3) by auto
  then show ?thesis using Call assms(1) by (simp add: map_of_remove_other)
next
  case (Arrives r)
  obtain i res where r: "r = Response i res" by (cases r)
  then have "i \<noteq> k" using assms(2) Arrives by auto
  then show ?thesis using Arrives r assms(1)
    by (cases "map_of (c_pending c) i") (auto simp: map_of_remove_other)
next
  case (TimerFires i)
  then show ?thesis using assms(1)
    by (cases "i = k"; cases "map_of (c_pending c) i")
       (auto simp: map_of_remove_other map_of_remove_same)
next
  case Dispose
  then show ?thesis using map_of_Some_mem[OF assms(1)] by force
qed




section \<open>The progress of a job: proofs\<close>

subsection \<open>The order on job rows\<close>

lemma job_le_refl [simp]: "job_le j j"
  by (simp add: job_le_def)

lemma job_le_trans: "job_le a b \<Longrightarrow> job_le b c \<Longrightarrow> job_le a c"
  by (auto simp: job_le_def)

lemma jobs_le_nth:
  "jobs_le js js' = (length js \<le> length js' \<and> (\<forall>k<length js. job_le (js ! k) (js' ! k)))"
  by (auto simp: jobs_le_def list_all2_conv_all_nth)

lemma jobs_le_refl [simp]: "jobs_le js js"
  by (simp add: jobs_le_nth)

lemma jobs_le_trans: "jobs_le a b \<Longrightarrow> jobs_le b c \<Longrightarrow> jobs_le a c"
  unfolding jobs_le_nth using job_le_trans by (metis (no_types, lifting) le_trans less_le_trans)

lemma jobs_le_map: "(\<And>j. j \<in> set js \<Longrightarrow> job_le j (f j)) \<Longrightarrow> jobs_le js (map f js)"
  by (simp add: jobs_le_nth)

lemma jobs_le_append [simp]: "jobs_le js (js @ extra)"
  by (simp add: jobs_le_nth nth_append)

lemma jobs_le_mem:
  assumes "jobs_le js js'" "r \<in> set js"
  shows "\<exists>r'\<in>set js'. job_le r r'"
proof -
  from assms(2) obtain k where k: "k < length js" "js ! k = r" by (auto simp: in_set_conv_nth)
  with assms(1) have "job_le r (js' ! k)" "k < length js'" by (auto simp: jobs_le_nth)
  then show ?thesis by (metis nth_mem)
qed

lemma worker_le_refl [simp]: "worker_le w w"
  by (simp add: worker_le_def)

lemma worker_le_trans: "worker_le a b \<Longrightarrow> worker_le b c \<Longrightarrow> worker_le a c"
  using jobs_le_trans by (fastforce simp: worker_le_def)

subsection \<open>The invariant under the statements of the worker\<close>

lemma doneCount_jobs [simp]: "doneCount (s\<lparr>jobs := js\<rparr>) jobId = doneCount s jobId"
  by (simp add: doneCount_def)

lemma itemCount_jobs [simp]: "itemCount (s\<lparr>jobs := js\<rparr>) jobId = itemCount s jobId"
  by (simp add: itemCount_def)

lemma doneCount_le_itemCount: "doneCount s jobId \<le> itemCount s jobId"
proof -
  have "length (filter (\<lambda>i. item_job_id i = jobId \<and> Q i) xs)
      \<le> length (filter (\<lambda>i. item_job_id i = jobId) xs)" for xs :: "job_item list" and Q
    by (induction xs) auto
  then show ?thesis by (simp add: doneCount_def itemCount_def)
qed

lemma rows_inv_jobs_map:
  assumes "rows_inv s"
    and "\<And>j. j \<in> set (jobs s) \<Longrightarrow> job_id (f j) = job_id j \<and> progress_total (f j) = progress_total j \<and>
            progress_current (f j) \<le> doneCount s (job_id j)"
  shows "rows_inv (s\<lparr>jobs := map f (jobs s)\<rparr>)"
proof -
  have ids: "map job_id (map f (jobs s)) = map job_id (jobs s)"
    using assms(2) by (simp add: comp_def)
  then have img: "job_id ` set (map f (jobs s)) = job_id ` set (jobs s)"
    by (metis set_map)
  have "progress_current j' \<le> doneCount s (job_id j') \<and> itemCount s (job_id j') = progress_total j'"
    if "j' \<in> set (map f (jobs s))" for j'
  proof -
    from that obtain j where j: "j \<in> set (jobs s)" "j' = f j" by auto
    then show ?thesis using assms(1) assms(2)[OF j(1)] by (auto simp: rows_inv_def)
  qed
  then show ?thesis using assms(1) ids img
    by (simp add: rows_inv_def del: set_map map_map)
qed

lemma filter_length_mono:
  "(\<And>x. x \<in> set xs \<Longrightarrow> Q x \<Longrightarrow> Q' x) \<Longrightarrow> length (filter Q xs) \<le> length (filter Q' xs)"
proof (induction xs)
  case Nil
  then show ?case by simp
next
  case (Cons x xs)
  then have "length (filter Q xs) \<le> length (filter Q' xs)" by simp
  then show ?case using Cons.prems[of x] by auto
qed

lemma filter_length_same:
  "(\<And>x. x \<in> set xs \<Longrightarrow> Q' x = Q x) \<Longrightarrow> length (filter Q' xs) = length (filter Q xs)"
  by (induction xs) auto

lemma rows_inv_items_map:
  assumes "rows_inv s"
    and "\<And>i. i \<in> set (job_items s) \<Longrightarrow> item_id (g i) = item_id i \<and> item_job_id (g i) = item_job_id i \<and>
            (item_status i \<in> {ItemDone, ItemFailed, ItemSkipped} \<longrightarrow>
             item_status (g i) \<in> {ItemDone, ItemFailed, ItemSkipped})"
  shows "rows_inv (s\<lparr>job_items := map g (job_items s)\<rparr>)"
proof -
  let ?s' = "s\<lparr>job_items := map g (job_items s)\<rparr>"
  have ids: "map item_id (map g (job_items s)) = map item_id (job_items s)"
    using assms(2) by (simp add: comp_def)
  have dc: "doneCount s jobId \<le> doneCount ?s' jobId" for jobId
  proof -
    have "length (filter (\<lambda>i. item_job_id i = jobId \<and>
                  item_status i \<in> {ItemDone, ItemFailed, ItemSkipped}) (job_items s))
       \<le> length (filter (\<lambda>i. item_job_id (g i) = jobId \<and>
                  item_status (g i) \<in> {ItemDone, ItemFailed, ItemSkipped}) (job_items s))"
      by (rule filter_length_mono) (use assms(2) in blast)
    then show ?thesis by (simp add: doneCount_def comp_def del: insert_iff)
  qed
  have ic: "itemCount ?s' jobId = itemCount s jobId" for jobId
  proof -
    have "length (filter (\<lambda>i. item_job_id (g i) = jobId) (job_items s))
       = length (filter (\<lambda>i. item_job_id i = jobId) (job_items s))"
      by (rule filter_length_same) (use assms(2) in simp)
    then show ?thesis by (simp add: itemCount_def comp_def)
  qed
  have fk: "\<forall>i\<in>set (job_items ?s'). item_job_id i \<in> job_id ` set (jobs ?s')"
    using assms by (auto simp: rows_inv_def)
  have "distinct (map item_id (job_items ?s'))"
    using assms(1) ids by (simp add: rows_inv_def del: map_map)
  moreover have "\<forall>j\<in>set (jobs ?s'). progress_current j \<le> doneCount ?s' (job_id j) \<and>
                         itemCount ?s' (job_id j) = progress_total j"
    using assms(1) dc ic by (auto simp: rows_inv_def intro: le_trans)
  ultimately show ?thesis using assms(1) fk by (simp add: rows_inv_def)
qed

lemma rows_inv_cong:
  "jobs s' = jobs s \<Longrightarrow> job_items s' = job_items s \<Longrightarrow> rows_inv s' = rows_inv s"
  by (simp add: rows_inv_def doneCount_def itemCount_def)

lemma update_jobs_keep:
  assumes "rows_inv s"
    and "\<And>j. job_id (f j) = job_id j \<and> progress_total (f j) = progress_total j \<and>
            progress_current (f j) = progress_current j"
  shows "rows_inv (update_jobs P f s) \<and> jobs_le (jobs s) (jobs (update_jobs P f s))"
proof -
  have "rows_inv (update_jobs P f s)"
    unfolding update_jobs_def using assms
    by (intro rows_inv_jobs_map) (auto simp: rows_inv_def)
  moreover have "jobs_le (jobs s) (jobs (update_jobs P f s))"
    unfolding update_jobs_def using assms(2)
    by (auto intro!: jobs_le_map simp: job_le_def)
  ultimately show ?thesis by simp
qed

lemma set_progress_inv:
  assumes "rows_inv s"
  shows "rows_inv (set_progress now (doneCount s jobId) jobId s) \<and>
         jobs_le (jobs s) (jobs (set_progress now (doneCount s jobId) jobId s))"
proof -
  have "rows_inv (set_progress now (doneCount s jobId) jobId s)"
    unfolding set_progress_def update_jobs_def using assms
    by (intro rows_inv_jobs_map) (auto simp: rows_inv_def)
  moreover have "jobs_le (jobs s) (jobs (set_progress now (doneCount s jobId) jobId s))"
    unfolding set_progress_def update_jobs_def using assms
    by (auto intro!: jobs_le_map simp: job_le_def rows_inv_def)
  ultimately show ?thesis by simp
qed

lemma update_items_inv:
  assumes "rows_inv s"
    and "\<And>i. item_id (g i) = item_id i \<and> item_job_id (g i) = item_job_id i"
    and "\<And>i. i \<in> set (job_items s) \<Longrightarrow> P i \<Longrightarrow>
            item_status i \<in> {ItemDone, ItemFailed, ItemSkipped} \<Longrightarrow>
            item_status (g i) \<in> {ItemDone, ItemFailed, ItemSkipped}"
  shows "rows_inv (update_items P g s) \<and> jobs (update_items P g s) = jobs s"
proof -
  have "rows_inv (update_items P g s)"
    unfolding update_items_def using assms
    by (intro rows_inv_items_map) auto
  then show ?thesis by (simp add: update_items_def)
qed

subsection \<open>The invariant of the worker\<close>

lemma keeps_refl [simp]: "keeps w w"
  by (simp add: keeps_def)

lemma keeps_trans: "keeps a b \<Longrightarrow> keeps b c \<Longrightarrow> keeps a c"
  using worker_le_trans by (auto simp: keeps_def)

lemma keeps_same:
  "w_db w' = w_db w \<Longrightarrow> w_events w' = w_events w \<Longrightarrow> keeps w w'"
  by (simp add: keeps_def worker_inv_def worker_le_def)

lemma keeps_db:
  assumes "worker_inv w \<Longrightarrow> rows_inv s' \<and> jobs_le (jobs (w_db w)) (jobs s')"
    and "w_db w' = s'" "w_events w' = w_events w"
  shows "keeps w w'"
proof -
  have "worker_inv w' \<and> worker_le w w'" if w: "worker_inv w"
  proof -
    from assms(1)[OF w] have s: "rows_inv s'" and le: "jobs_le (jobs (w_db w)) (jobs s')" by auto
    have "\<exists>r\<in>set (jobs s'). job_le j r" if "Some j \<in> set (w_events w)" for j
    proof -
      from w that obtain r where "r \<in> set (jobs (w_db w))" "job_le j r"
        by (auto simp: worker_inv_def seen_inv_def)
      with jobs_le_mem[OF le] show ?thesis using job_le_trans by blast
    qed
    then show ?thesis using w s le assms(2,3) by (simp add: worker_inv_def seen_inv_def worker_le_def)
  qed
  then show ?thesis by (simp add: keeps_def)
qed

lemma distinct_job_id:
  "distinct (map job_id js) \<Longrightarrow> r \<in> set js \<Longrightarrow> r' \<in> set js \<Longrightarrow> job_id r = job_id r' \<Longrightarrow> r = r'"
  by (meson distinct_map inj_onD)

lemma keeps_send: "keeps w (sendJobUpdate jobId w)"
proof -
  let ?x = "jobSummary (w_db w) jobId"
  have "worker_inv (sendJobUpdate jobId w)" if w: "worker_inv w"
  proof -
    have d: "distinct (map job_id (jobs (w_db w)))" using w by (simp add: worker_inv_def seen_inv_def rows_inv_def)
    have x: "r \<in> set (jobs (w_db w))" if "?x = Some r" for r
      using that by (auto simp: jobSummary_def find_Some_iff)
    have "obs_le ev ?x" if ev: "ev \<in> set (w_events w)" for ev
    proof (cases ev)
      case None
      then show ?thesis by (simp add: obs_le_def)
    next
      case (Some j)
      show ?thesis
      proof (cases ?x)
        case None
        then show ?thesis by (simp add: obs_le_def split: option.splits)
      next
        case (Some r)
        note r = Some
        from w ev \<open>ev = Some j\<close> obtain r0 where r0: "r0 \<in> set (jobs (w_db w))" "job_le j r0"
          by (auto simp: worker_inv_def seen_inv_def)
        have "job_le j r" if "job_id r = job_id j"
        proof -
          have "job_id r0 = job_id r" using that r0(2) by (simp add: job_le_def)
          with distinct_job_id[OF d r0(1) x[OF r]] have "r0 = r" by simp
          with r0(2) show ?thesis by simp
        qed
        then show ?thesis using r \<open>ev = Some j\<close> by (simp add: obs_le_def)
      qed
    qed
    moreover have "\<exists>r\<in>set (jobs (w_db w)). job_le j r" if "?x = Some j" for j
      using x[OF that] job_le_refl by blast
    ultimately show ?thesis using w
      by (auto simp: worker_inv_def seen_inv_def sendJobUpdate_def sorted_wrt_append)
  qed
  then show ?thesis by (simp add: keeps_def worker_le_def sendJobUpdate_def)
qed

lemma keeps_update_jobs:
  assumes "\<And>j. job_id (f j) = job_id j \<and> progress_total (f j) = progress_total j \<and>
            progress_current (f j) = progress_current j"
    and "w_db w' = update_jobs P f (w_db w)" "w_events w' = w_events w"
  shows "keeps w w'"
  using update_jobs_keep[of "w_db w" f P] assms
  by (intro keeps_db[where s' = "update_jobs P f (w_db w)"]) (simp_all add: worker_inv_def seen_inv_def)

lemma keeps_recover:
  assumes "jobs (w_db w') = jobs (recover_jobs now (w_db w))"
    and "job_items (w_db w') = job_items (recover_items now (w_db w))"
    and "w_events w' = w_events w"
  shows "keeps w w'"
proof (rule keeps_db[where s' = "w_db w'"])
  assume w: "worker_inv w"
  then have s: "rows_inv (w_db w)" by (simp add: worker_inv_def seen_inv_def)
  let ?s1 = "recover_jobs now (w_db w)"
  have "recover_jobs now (w_db w) =
      update_jobs (\<lambda>j. job_status j = Processing) (\<lambda>j. j\<lparr>job_status := Paused, job_updated_at := now\<rparr>)
        (w_db w)"
    by (simp add: recover_jobs_def update_jobs_def)
  with update_jobs_keep[OF s, of "\<lambda>j. j\<lparr>job_status := Paused, job_updated_at := now\<rparr>"
      "\<lambda>j. job_status j = Processing"]
  have s1: "rows_inv ?s1" and le: "jobs_le (jobs (w_db w)) (jobs ?s1)" by simp_all
  have "recover_items now ?s1 =
      update_items (\<lambda>i. item_status i = ItemProcessing)
        (\<lambda>i. i\<lparr>item_status := ItemPending, item_updated_at := now\<rparr>) ?s1"
    by (simp add: recover_items_def update_items_def)
  with update_items_inv[OF s1, of "\<lambda>i. i\<lparr>item_status := ItemPending, item_updated_at := now\<rparr>"
      "\<lambda>i. item_status i = ItemProcessing"]
  have s2: "rows_inv (recover_items now ?s1)" by simp
  have "rows_inv (w_db w') = rows_inv (recover_items now ?s1)"
    using assms by (intro rows_inv_cong) (simp_all add: recover_items_def recover_jobs_def)
  then show "rows_inv (w_db w') \<and> jobs_le (jobs (w_db w)) (jobs (w_db w'))"
    using s2 le assms(1) by simp
qed (simp_all add: assms)

lemma keeps_getDb:
  assumes "getDb e now w = (r, w1)"
  shows "keeps w w1"
proof -
  from getDb_effect[OF assms] have ev: "w_events w1 = w_events w" by simp
  from getDb_effect[OF assms] consider
    "jobs (w_db w1) = jobs (w_db w)" "job_items (w_db w1) = job_items (w_db w)"
    | "jobs (w_db w1) = jobs (recover_jobs now (w_db w))"
      "job_items (w_db w1) = job_items (recover_items now (w_db w))"
    by blast
  then show ?thesis
  proof cases
    case 1
    show ?thesis
    proof (rule keeps_db[where s' = "w_db w1"])
      assume "worker_inv w"
      then show "rows_inv (w_db w1) \<and> jobs_le (jobs (w_db w)) (jobs (w_db w1))"
        using rows_inv_cong[OF 1] 1(1) by (simp add: worker_inv_def seen_inv_def)
    qed (simp_all add: ev)
  next
    case 2
    then show ?thesis using ev by (rule keeps_recover)
  qed
qed

lemma next_pending_item_mem:
  assumes "next_pending_item s jobId = Some i"
  shows "i \<in> set (job_items s) \<and> item_job_id i = jobId \<and> item_status i = ItemPending"
proof -
  from assms obtain is' where
    "sort_key item_created_at
       (filter (\<lambda>i. item_job_id i = jobId \<and> item_status i = ItemPending) (job_items s)) = i # is'"
    by (auto simp: next_pending_item_def split: list.splits)
  from hd_sort_key_mem[OF this] show ?thesis by simp
qed

lemma distinct_item_id:
  "distinct (map item_id xs) \<Longrightarrow> r \<in> set xs \<Longrightarrow> r' \<in> set xs \<Longrightarrow> item_id r = item_id r' \<Longrightarrow> r = r'"
  by (meson distinct_map inj_onD)

lemma keeps_mark_item:
  assumes "next_pending_item (w_db w) jobId = Some i"
    and "w_db w' = mark_item_processing now (item_id i) (w_db w)" "w_events w' = w_events w"
  shows "keeps w w'"
proof (rule keeps_db[where s' = "mark_item_processing now (item_id i) (w_db w)"])
  assume w: "worker_inv w"
  then have s: "rows_inv (w_db w)" by (simp add: worker_inv_def seen_inv_def)
  from next_pending_item_mem[OF assms(1)] have i: "i \<in> set (job_items (w_db w))"
    "item_status i = ItemPending" by auto
  have "item_status i' \<notin> {ItemDone, ItemFailed, ItemSkipped}"
    if "i' \<in> set (job_items (w_db w))" "item_id i' = item_id i" for i'
    using distinct_item_id[OF _ that(1) i(1) that(2)] s i(2) by (simp add: rows_inv_def)
  with update_items_inv[OF s, of "\<lambda>i. i\<lparr>item_status := ItemProcessing, item_started_at := Some now,
              item_updated_at := now\<rparr>" "\<lambda>i'. item_id i' = item_id i"]
  show "rows_inv (mark_item_processing now (item_id i) (w_db w)) \<and>
      jobs_le (jobs (w_db w)) (jobs (mark_item_processing now (item_id i) (w_db w)))"
    by (simp add: mark_item_processing_def)
qed (simp_all add: assms)

lemma keeps_loop_iteration: "keeps w (outcome_worker (loop_iteration now jobId w))"
proof -
  have fin: "keeps w (sendJobUpdate jobId (w\<lparr>w_db := mark_job_done now jobId (w_db w)\<rparr>))"
    by (rule keeps_trans[OF _ keeps_send]) (rule keeps_update_jobs[where P = "\<lambda>j. job_id j = jobId"
          and f = "\<lambda>j. j\<lparr>job_status := Done, job_finished_at := Some now, job_updated_at := now,
              job_heartbeat_at := Some now\<rparr>"], simp_all add: mark_job_done_def)
  have susp: "keeps w (w\<lparr>w_db := mark_item_processing now (item_id i) (w_db w),
                                   w_inflight := Some (jobId, item_id i, item_source_path i)\<rparr>)"
    if "next_pending_item (w_db w) jobId = Some i" for i
    using that by (rule keeps_mark_item) simp_all
  show ?thesis using fin susp
    by (auto simp: loop_iteration_def outcome_worker_def split: option.splits JobStatus.splits)
qed

lemma keeps_job_run:
  assumes "job_run now jobId w = Some outcome"
  shows "keeps w (outcome_worker outcome)"
proof -
  let ?w1 = "w\<lparr>w_running := Some jobId, w_db := mark_job_processing now jobId (w_db w)\<rparr>"
  have "keeps w ?w1"
    by (rule keeps_update_jobs[where P = "\<lambda>j. job_id j = jobId"
          and f = "\<lambda>j. j\<lparr>job_status := Processing,
              job_started_at := (case job_started_at j of None \<Rightarrow> Some now | Some t \<Rightarrow> Some t),
              job_updated_at := now, job_heartbeat_at := Some now\<rparr>"])
       (simp_all add: mark_job_processing_def)
  from keeps_trans[OF keeps_trans[OF this keeps_send[of ?w1 jobId]] keeps_loop_iteration]
  show ?thesis using assms by (auto simp: job_run_def split: if_splits)
qed

lemma keeps_running: "keeps w (w\<lparr>w_running := r\<rparr>)"
  by (rule keeps_same) simp_all

lemma keeps_schedule: "keeps w (scheduleNextPendingJob now w)"
proof (induction now w rule: scheduleNextPendingJob.induct)
  case (1 now w)
  show ?case
  proof (cases "next_pending_job (w_db w)")
    case None
    then show ?thesis by (simp add: scheduleNextPendingJob.simps)
  next
    case (Some jobId)
    note j = Some
    show ?thesis
    proof (cases "job_run now jobId w")
      case None
      then show ?thesis using j by (simp add: scheduleNextPendingJob.simps)
    next
      case (Some outcome)
      note r = keeps_job_run[OF Some]
      show ?thesis
      proof (cases outcome)
        case (Suspended w')
        then show ?thesis using j Some r
          by (simp add: scheduleNextPendingJob.simps[of now w] outcome_worker_def)
      next
        case (Exited w')
        from 1[OF j Some Exited]
        have "keeps (w'\<lparr>w_running := None\<rparr>) (scheduleNextPendingJob now (w'\<lparr>w_running := None\<rparr>))" .
        from keeps_trans[OF keeps_trans[OF _ keeps_running] this, of w] r Exited
        have "keeps w (scheduleNextPendingJob now (w'\<lparr>w_running := None\<rparr>))"
          by (simp add: outcome_worker_def)
        then show ?thesis using j Some Exited by (simp add: scheduleNextPendingJob.simps[of now w])
      qed
    qed
  qed
qed

lemma keeps_after_exit: "keeps (outcome_worker outcome) (after_exit now outcome)"
  using keeps_trans[OF keeps_running keeps_schedule]
  by (cases outcome) (simp_all add: after_exit_def outcome_worker_def)

lemma keeps_exited: "keeps w (after_exit now (Exited w))"
  using keeps_after_exit[of "Exited w" now] by (simp add: outcome_worker_def)

lemma keeps_processImportJob: "keeps w (processImportJob now jobId w)"
proof (cases "job_run now jobId w")
  case None
  then show ?thesis by (simp add: processImportJob_def)
next
  case (Some outcome)
  have "processImportJob now jobId w = after_exit now outcome"
    using Some by (cases outcome) (simp_all add: processImportJob_def after_exit_def)
  with keeps_trans[OF keeps_job_run[OF Some] keeps_after_exit] show ?thesis by simp
qed

subsection \<open>The handlers\<close>

lemma insert_items_effect:
  assumes "insert_items itemIds jobId now files k s = Inr s'"
  shows "jobs s' = jobs s \<and>
     (\<exists>new. job_items s' = job_items s @ new \<and> length new = length files \<and>
        (\<forall>i\<in>set new. item_job_id i = jobId \<and> item_status i = ItemPending)) \<and>
     (distinct (map item_id (job_items s)) \<longrightarrow> distinct (map item_id (job_items s')))"
  using assms
proof (induction files arbitrary: k s)
  case Nil
  then show ?case by simp
next
  case (Cons f files)
  from Cons.prems obtain s1 where s1: "insertItem (itemIds k) jobId f now s = Inr s1"
    and rest: "insert_items itemIds jobId now files (Suc k) s1 = Inr s'"
    by (auto split: sum.splits)
  let ?i = "\<lparr>item_id = itemIds k, item_job_id = jobId, item_source_path = f,
          item_status = ItemPending, item_error_message = None, item_created_at = now,
          item_updated_at = now, item_started_at = None, item_finished_at = None\<rparr>"
  from s1 have fresh: "itemIds k \<notin> item_id ` set (job_items s)"
    and e1: "jobs s1 = jobs s" "job_items s1 = job_items s @ [?i]"
    by (auto simp: insertItem_def split: if_splits)
  from Cons.IH[OF rest] obtain new where n: "jobs s' = jobs s1" "job_items s' = job_items s1 @ new"
    "length new = length files" "\<forall>i\<in>set new. item_job_id i = jobId \<and> item_status i = ItemPending"
    and d: "distinct (map item_id (job_items s1)) \<longrightarrow> distinct (map item_id (job_items s'))"
    by blast
  have a: "job_items s' = job_items s @ (?i # new)" using n(2) e1(2) by simp
  have b: "length (?i # new) = length (f # files)" using n(3) by simp
  have c: "\<forall>i\<in>set (?i # new). item_job_id i = jobId \<and> item_status i = ItemPending"
    using n(4) by simp
  have "\<exists>new. job_items s' = job_items s @ new \<and> length new = length (f # files) \<and>
        (\<forall>i\<in>set new. item_job_id i = jobId \<and> item_status i = ItemPending)"
    using a b c by (intro exI[of _ "?i # new"] conjI)
  moreover have "distinct (map item_id (job_items s)) \<longrightarrow> distinct (map item_id (job_items s'))"
    using d e1(2) fresh by simp
  moreover have "jobs s' = jobs s" using n(1) e1(1) by simp
  ultimately show ?case by (intro conjI)
qed

lemma insert_job_with_items_inv:
  assumes "rows_inv s" "insert_job_with_items jobId itemIds sources files now s = Inr s'"
  shows "rows_inv s' \<and> jobs_le (jobs s) (jobs s')"
proof -
  let ?j = "\<lparr>job_id = jobId, job_type = ''import_files'', job_status = Pending,
          job_payload = sources, progress_current = 0, progress_total = length files,
          job_error_message = None, job_created_at = now, job_started_at = None,
          job_finished_at = None, job_updated_at = now, job_heartbeat_at = None\<rparr>"
  from assms(2) obtain s1 where s1: "insertJob jobId sources (length files) now s = Inr s1"
    and it: "insert_items itemIds jobId now files 0 s1 = Inr s'"
    by (auto simp: insert_job_with_items_def split: sum.splits)
  from s1 have fresh: "jobId \<notin> job_id ` set (jobs s)"
    and e1: "jobs s1 = jobs s @ [?j]" "job_items s1 = job_items s"
    by (auto simp: insertJob_def split: if_splits)
  from insert_items_effect[OF it] e1 obtain new where
    js: "jobs s' = jobs s @ [?j]" and is': "job_items s' = job_items s @ new"
    and len: "length new = length files"
    and new: "\<forall>i\<in>set new. item_job_id i = jobId \<and> item_status i = ItemPending"
    and d: "distinct (map item_id (job_items s)) \<longrightarrow> distinct (map item_id (job_items s'))"
    by auto
  have none: "filter (\<lambda>i. item_job_id i = jobId) (job_items s) = []"
    using assms(1) fresh by (auto simp: rows_inv_def filter_empty_conv)
  have newdone: "filter (\<lambda>i. item_job_id i = jid \<and>
      item_status i \<in> {ItemDone, ItemFailed, ItemSkipped}) new = []" for jid
    using new by (auto simp: filter_empty_conv)
  have dc: "doneCount s' jid = doneCount s jid" for jid
    using newdone[of jid] by (simp add: doneCount_def is' del: insert_iff)
  have newall: "filter (\<lambda>i. item_job_id i = jobId) new = new"
    using new by (simp add: filter_id_conv)
  have newother: "filter (\<lambda>i. item_job_id i = jid) new = []" if "jid \<noteq> jobId" for jid
    using new that by (auto simp: filter_empty_conv)
  have ic_new: "itemCount s' jobId = length files"
    using none newall len by (simp add: itemCount_def is')
  have ic_old: "itemCount s' jid = itemCount s jid" if "jid \<noteq> jobId" for jid
    using newother[OF that] by (simp add: itemCount_def is')
  have "distinct (map job_id (jobs s'))" using assms(1) fresh js by (simp add: rows_inv_def)
  moreover have "distinct (map item_id (job_items s'))" using assms(1) d by (simp add: rows_inv_def)
  moreover have "\<forall>j\<in>set (jobs s'). progress_current j \<le> doneCount s' (job_id j) \<and>
                         itemCount s' (job_id j) = progress_total j"
  proof
    fix j assume "j \<in> set (jobs s')"
    then consider "j = ?j" | "j \<in> set (jobs s)" using js by auto
    then show "progress_current j \<le> doneCount s' (job_id j) \<and>
                         itemCount s' (job_id j) = progress_total j"
    proof cases
      case 1
      then show ?thesis using ic_new by simp
    next
      case 2
      then have "job_id j \<noteq> jobId" using fresh by auto
      from ic_old[OF this] dc[of "job_id j"] 2 assms(1) show ?thesis by (simp add: rows_inv_def)
    qed
  qed
  moreover have "\<forall>i\<in>set (job_items s'). item_job_id i \<in> job_id ` set (jobs s')"
    using assms(1) new by (auto simp: rows_inv_def is' js)
  ultimately have "rows_inv s'" by (simp add: rows_inv_def)
  then show ?thesis by (simp add: js)
qed

lemma keeps_fst:
  "keeps w (snd (a, w1)) = keeps w w1"
  by simp

lemma keeps_handleImportFiles: "keeps w (snd (handleImportFiles e jobId itemIds now kbId sources w))"
proof -
  obtain r w1 where g: "getDb e now w = (r, w1)" by (cases "getDb e now w")
  note k1 = keeps_getDb[OF g]
  show ?thesis
  proof (cases "kbId = [] \<or> sources = [] \<or> r \<noteq> None \<or> resolveImportFileList e sources = []")
    case True
    then show ?thesis using g k1
      by (auto simp: handleImportFiles_def Let_def split: option.splits)
  next
    case False
    then have r: "r = None" by simp
    let ?files = "resolveImportFileList e sources"
    show ?thesis
    proof (cases "insert_job_with_items jobId itemIds sources ?files now (w_db w1)")
      case (Inl err)
      then show ?thesis using False g k1 r by (simp add: handleImportFiles_def)
    next
      case (Inr s)
      let ?w2 = "w1\<lparr>w_db := s\<rparr>"
      let ?w3 = "if w_running ?w2 = None then processImportJob now jobId ?w2 else ?w2"
      have k2: "keeps w1 ?w2"
        using insert_job_with_items_inv[OF _ Inr]
        by (intro keeps_db[where s' = s]) (simp_all add: worker_inv_def seen_inv_def)
      have k3: "keeps ?w2 ?w3" using keeps_processImportJob by simp
      have "snd (handleImportFiles e jobId itemIds now kbId sources w) = sendJobUpdate jobId ?w3"
        using False g r Inr by (simp add: handleImportFiles_def Let_def)
      then show ?thesis
        using keeps_trans[OF keeps_trans[OF keeps_trans[OF k1 k2] k3] keeps_send] by simp
    qed
  qed
qed

lemma keeps_handleEnsureInitialized: "keeps w (snd (handleEnsureInitialized e now kbId w))"
proof -
  obtain r w1 where g: "getDb e now w = (r, w1)" by (cases "getDb e now w")
  show ?thesis using keeps_getDb[OF g] g
    by (auto simp: handleEnsureInitialized_def split: option.splits)
qed

lemma keeps_handlePauseJob: "keeps w (snd (handlePauseJob e now kbId jobId w))"
proof -
  obtain r w1 where g: "getDb e now w = (r, w1)" by (cases "getDb e now w")
  have "keeps w1 (w1\<lparr>w_db := pause_job now jobId (w_db w1)\<rparr>)"
    by (rule keeps_update_jobs[where P = "\<lambda>j. job_id j = jobId \<and> job_status j \<in> {Pending, Processing}"
          and f = "\<lambda>j. j\<lparr>job_status := Paused, job_updated_at := now\<rparr>"])
       (simp_all add: pause_job_def)
  from keeps_trans[OF keeps_trans[OF keeps_getDb[OF g] this] keeps_send]
  show ?thesis using keeps_getDb[OF g] g
    by (auto simp: handlePauseJob_def split: option.splits)
qed

lemma keeps_handleResumeJob: "keeps w (snd (handleResumeJob e now kbId jobId w))"
proof -
  obtain r w1 where g: "getDb e now w = (r, w1)" by (cases "getDb e now w")
  let ?w2 = "w1\<lparr>w_db := resume_job now jobId (w_db w1)\<rparr>"
  let ?w3 = "if w_running ?w2 = None then processImportJob now jobId ?w2 else ?w2"
  have k2: "keeps w1 ?w2"
    by (rule keeps_update_jobs[where P = "\<lambda>j. job_id j = jobId \<and> job_status j \<in> {Paused, Pending}"
          and f = "\<lambda>j. j\<lparr>job_status := Pending, job_updated_at := now\<rparr>"])
       (simp_all add: resume_job_def)
  have k3: "keeps ?w2 ?w3" using keeps_processImportJob by simp
  have "keeps w (sendJobUpdate jobId ?w3)"
    by (rule keeps_trans[OF keeps_trans[OF keeps_trans[OF keeps_getDb[OF g] k2] k3] keeps_send])
  then show ?thesis using keeps_getDb[OF g] g
    by (auto simp: handleResumeJob_def Let_def split: option.splits)
qed

lemma keeps_cancel:
  "keeps w (w\<lparr>w_db := cancel_items now jobId (cancel_job now jobId (w_db w))\<rparr>)"
proof -
  let ?w1 = "w\<lparr>w_db := cancel_job now jobId (w_db w)\<rparr>"
  have a: "keeps w ?w1"
    by (rule keeps_update_jobs[where P = "\<lambda>j. job_id j = jobId"
          and f = "\<lambda>j. j\<lparr>job_status := Canceled,
              job_finished_at := (case job_finished_at j of None \<Rightarrow> Some now | Some t \<Rightarrow> Some t),
              job_updated_at := now\<rparr>"])
       (simp_all add: cancel_job_def)
  have b: "keeps ?w1 (?w1\<lparr>w_db := cancel_items now jobId (w_db ?w1)\<rparr>)"
  proof (rule keeps_db[where s' = "cancel_items now jobId (w_db ?w1)"])
    assume "worker_inv ?w1"
    then have "rows_inv (w_db ?w1)" by (simp add: worker_inv_def seen_inv_def)
    from update_items_inv[OF this, of "\<lambda>i. i\<lparr>item_status := ItemSkipped, item_updated_at := now\<rparr>"
        "\<lambda>i. item_job_id i = jobId \<and> item_status i \<in> {ItemPending, ItemProcessing}"]
    show "rows_inv (cancel_items now jobId (w_db ?w1)) \<and>
        jobs_le (jobs (w_db ?w1)) (jobs (cancel_items now jobId (w_db ?w1)))"
      by (simp add: cancel_items_def)
  qed simp_all
  from keeps_trans[OF a b] show ?thesis by simp
qed

lemma keeps_handleCancelJob: "keeps w (snd (handleCancelJob e now kbId jobId w))"
proof -
  let ?w0 = "w\<lparr>w_canceled := insert jobId (w_canceled w)\<rparr>"
  obtain r w1 where g: "getDb e now ?w0 = (r, w1)" by (cases "getDb e now ?w0")
  have k0: "keeps w ?w0" by (rule keeps_same) simp_all
  note k1 = keeps_trans[OF k0 keeps_getDb[OF g]]
  from keeps_trans[OF keeps_trans[OF k1 keeps_cancel] keeps_send]
  show ?thesis using k1 g
    by (auto simp: handleCancelJob_def split: option.splits)
qed

subsection \<open>The end of a file\<close>

lemma insertChunk_rows:
  "insertChunk cid d k content now s = Inr s' \<Longrightarrow> jobs s' = jobs s \<and> job_items s' = job_items s"
  by (auto simp: insertChunk_def split: if_splits)

lemma insert_parts_rows:
  "insert_parts ids d now parts s k = Inr (s', k') \<Longrightarrow>
   jobs s' = jobs s \<and> job_items s' = job_items s"
proof (induction parts arbitrary: s k)
  case Nil
  then show ?case by simp
next
  case (Cons part parts)
  from Cons.prems obtain s1 where s1: "insertChunk (ids k) d k part now s = Inr s1"
    and rest: "insert_parts ids d now parts s1 (Suc k) = Inr (s', k')"
    by (auto split: sum.splits)
  from Cons.IH[OF rest] insertChunk_rows[OF s1] show ?case by simp
qed

lemma index_text_rows:
  assumes "index_text ids d now tx st = Some (Inr st')"
  shows "jobs (st_store st') = jobs (st_store st) \<and>
         job_items (st_store st') = job_items (st_store st)"
proof (cases "chunker_push 2000 200 (st_carry st) tx")
  case None
  then show ?thesis using assms by (simp add: index_text_def)
next
  case (Some pc)
  obtain parts carry' where pc: "pc = (parts, carry')" by (cases pc)
  show ?thesis
  proof (cases "insert_parts ids d now parts (st_store st) (st_chunkIndex st)")
    case (Inl err)
    then show ?thesis using assms Some pc by (simp add: index_text_def)
  next
    case (Inr sk)
    obtain s' k where sk: "sk = (s', k)" by (cases sk)
    have "st' = st\<lparr>st_carry := carry', st_store := s', st_chunkIndex := k\<rparr>"
      using assms Some pc Inr sk by (simp add: index_text_def)
    with insert_parts_rows[OF Inr[unfolded sk]] show ?thesis by simp
  qed
qed

lemma step_buffer_rows:
  assumes "step_buffer e ids d now buf st = Some (Inr st')"
  shows "jobs (st_store st') = jobs (st_store st) \<and>
         job_items (st_store st') = job_items (st_store st)"
proof (cases "st_canIndex st")
  case False
  then have "st' = st\<lparr>st_hashed := st_hashed st @ buf, st_blob := st_blob st @ buf\<rparr>"
    using assms by (simp add: step_buffer_def Let_def)
  then show ?thesis by simp
next
  case True
  show ?thesis
  proof (cases "\<not> st_decidedBinary st \<and> bufferLooksBinary buf")
    case True
    then have "st' = st\<lparr>st_hashed := st_hashed st @ buf, st_blob := st_blob st @ buf,
        st_decidedBinary := True, st_canIndex := False\<rparr>"
      using assms \<open>st_canIndex st\<close> by (simp add: step_buffer_def Let_def)
    then show ?thesis by simp
  next
    case False
    obtain tx pending' where dw: "decoder_write e (st_pending st) buf = (tx, pending')"
      by (cases "decoder_write e (st_pending st) buf")
    have "index_text ids d now tx
        (st\<lparr>st_hashed := st_hashed st @ buf, st_blob := st_blob st @ buf,
            st_decidedBinary := True, st_pending := pending'\<rparr>) = Some (Inr st')"
      using assms \<open>st_canIndex st\<close> False dw by (simp add: step_buffer_def Let_def)
    from index_text_rows[OF this] show ?thesis by simp
  qed
qed

lemma stream_loop_rows:
  "stream_loop e ids d now bufs st = Some (Inr st') \<Longrightarrow>
   jobs (st_store st') = jobs (st_store st) \<and> job_items (st_store st') = job_items (st_store st)"
proof (induction bufs arbitrary: st)
  case Nil
  then show ?case by simp
next
  case (Cons buf bufs)
  from Cons.prems obtain st1 where s1: "step_buffer e ids d now buf st = Some (Inr st1)"
    and rest: "stream_loop e ids d now bufs st1 = Some (Inr st')"
    by (auto split: option.splits sum.splits)
  from Cons.IH[OF rest] step_buffer_rows[OF s1] show ?case by simp
qed

lemma finish_index_rows:
  assumes "finish_index e ids d now st = Some (Inr st')"
  shows "jobs (st_store st') = jobs (st_store st) \<and>
         job_items (st_store st') = job_items (st_store st)"
proof (cases "st_canIndex st")
  case False
  then show ?thesis using assms by (simp add: finish_index_def)
next
  case True
  show ?thesis
  proof (cases "index_text ids d now (decoder_end e (st_pending st)) st")
    case None
    then show ?thesis using assms True by (simp add: finish_index_def)
  next
    case (Some y)
    show ?thesis
    proof (cases y)
      case (Inl err)
      then show ?thesis using assms True Some by (simp add: finish_index_def)
    next
      case (Inr st1)
      note r1 = index_text_rows[OF Some[unfolded Inr]]
      obtain rest carry' where cf: "chunker_flush (st_carry st1) = (rest, carry')"
        by (cases "chunker_flush (st_carry st1)")
      show ?thesis
      proof (cases rest)
        case None
        then have "st' = st1\<lparr>st_carry := carry'\<rparr>"
          using assms True Some Inr cf by (simp add: finish_index_def)
        then show ?thesis using r1 by simp
      next
        case (Some x)
        note x = Some
        show ?thesis
        proof (cases "insertChunk (ids (st_chunkIndex st1)) d (st_chunkIndex st1) x now (st_store st1)")
          case (Inl err)
          then show ?thesis using assms True \<open>index_text ids d now (decoder_end e (st_pending st)) st = Some y\<close>
              \<open>y = Inr st1\<close> cf x by (simp add: finish_index_def)
        next
          case (Inr s')
          then have "st_store st' = s'"
            using assms True \<open>index_text ids d now (decoder_end e (st_pending st)) st = Some y\<close>
              \<open>y = Inr st1\<close> cf x by (auto simp: finish_index_def)
          with insertChunk_rows[OF Inr] r1 show ?thesis by simp
        qed
      qed
    qed
  qed
qed

lemma import_body_rows:
  assumes "import_body e d ids now path sizeBytes bufs rerr s = Some (Inr (s', blob, can))"
  shows "jobs s' = jobs s \<and> job_items s' = job_items s"
proof -
  from assms obtain s1 st st' where
    d: "insertDocument d (basename e path) path (getBlobRelPath e d path) (guessMimeType e path)
          sizeBytes now s = Inr s1"
    and l: "stream_loop e ids d now bufs
                  \<lparr>st_store = s1, st_hashed = [], st_blob = [], st_pending = [], st_carry = [],
                    st_chunkIndex = 0, st_decidedBinary = False,
                    st_canIndex = isSupportedTextExtension e path\<rparr> = Some (Inr st)"
    and f: "finish_index e ids d now st = Some (Inr st')"
    and s': "s' = updateSha (sha256_hex e (st_hashed st')) now d (st_store st')"
    by (auto simp: import_body_def split: sum.splits option.splits)
  from d have "jobs s1 = jobs s \<and> job_items s1 = job_items s"
    by (auto simp: insertDocument_def split: if_splits)
  with stream_loop_rows[OF l] finish_index_rows[OF f] s' show ?thesis
    by (simp add: updateSha_def)
qed

lemma importOneFile_rows:
  assumes "importOneFile e d ids now node path item (s, b) = Some (res, s', b')"
  shows "jobs s' = jobs s \<and>
     (job_items s' = job_items s \<or> job_items s' = job_items (touch_item now item s)) \<and>
     res_status res \<in> {ItemDone, ItemFailed, ItemSkipped}"
proof (cases node)
  case (Regular sizeBytes bufs rerr)
  show ?thesis
  proof (cases "import_body e d ids now path sizeBytes bufs rerr s")
    case None
    then show ?thesis using assms Regular by (simp add: importOneFile_def)
  next
    case (Some y)
    show ?thesis
    proof (cases y)
      case (Inl err)
      then show ?thesis using assms Regular Some by (auto simp: importOneFile_def touch_item_def)
    next
      case (Inr t)
      obtain s1 blob can where t: "t = (s1, blob, can)" by (cases t)
      from import_body_rows[OF Some[unfolded Inr t]] show ?thesis
        using assms Regular Some Inr t
        by (cases can) (auto simp: importOneFile_def touch_item_def)
    qed
  qed
qed (use assms in \<open>auto simp: importOneFile_def\<close>)

lemma keeps_touch:
  assumes "jobs (w_db w') = jobs (w_db w)"
    and "job_items (w_db w') = job_items (w_db w) \<or>
         job_items (w_db w') = job_items (touch_item now item (w_db w))"
    and "w_events w' = w_events w"
  shows "keeps w w'"
proof (rule keeps_db[where s' = "w_db w'"])
  assume "worker_inv w"
  then have s: "rows_inv (w_db w)" by (simp add: worker_inv_def seen_inv_def)
  have "touch_item now item (w_db w) =
      update_items (\<lambda>i. item_id i = item) (\<lambda>i. i\<lparr>item_updated_at := now\<rparr>) (w_db w)"
    by (simp add: touch_item_def update_items_def)
  with update_items_inv[OF s, of "\<lambda>i. i\<lparr>item_updated_at := now\<rparr>" "\<lambda>i. item_id i = item"]
  have t: "rows_inv (touch_item now item (w_db w))" "jobs (touch_item now item (w_db w)) = jobs (w_db w)"
    by simp_all
  from assms(2) have "rows_inv (w_db w')"
  proof
    assume "job_items (w_db w') = job_items (w_db w)"
    with rows_inv_cong[OF assms(1) this] s show ?thesis by simp
  next
    assume a: "job_items (w_db w') = job_items (touch_item now item (w_db w))"
    have "rows_inv (w_db w') = rows_inv (touch_item now item (w_db w))"
      by (rule rows_inv_cong) (simp_all add: assms(1) t(2) a)
    with t(1) show ?thesis by simp
  qed
  then show "rows_inv (w_db w') \<and> jobs_le (jobs (w_db w)) (jobs (w_db w'))"
    using assms(1) by simp
qed (simp_all add: assms)

lemma keeps_file_settled:
  assumes "res_status result \<in> {ItemDone, ItemFailed, ItemSkipped}"
  shows "keeps w (file_settled now result w)"
proof (cases "w_inflight w")
  case None
  then show ?thesis by (simp add: file_settled_def)
next
  case (Some t)
  obtain jobId itemId sourcePath where t: "t = (jobId, itemId, sourcePath)" by (cases t)
  let ?s1 = "finish_item now result itemId (w_db w)"
  let ?s2 = "set_progress now (doneCount ?s1 jobId) jobId ?s1"
  let ?w1 = "w\<lparr>w_db := ?s1\<rparr>"
  let ?w2 = "w\<lparr>w_db := ?s2, w_inflight := None\<rparr>"
  let ?out = "loop_iteration now jobId (sendJobUpdate jobId ?w2)"
  have k1: "keeps w ?w1"
  proof (rule keeps_db[where s' = ?s1])
    assume "worker_inv w"
    then have s: "rows_inv (w_db w)" by (simp add: worker_inv_def seen_inv_def)
    from update_items_inv[OF s, of "\<lambda>i. i\<lparr>item_status := res_status result,
          item_error_message := res_error result, item_finished_at := Some now,
          item_updated_at := now\<rparr>" "\<lambda>i. item_id i = itemId"] assms
    show "rows_inv ?s1 \<and> jobs_le (jobs (w_db w)) (jobs ?s1)"
      by (simp add: finish_item_def)
  qed simp_all
  have k2: "keeps ?w1 ?w2"
  proof (rule keeps_db[where s' = ?s2])
    assume "worker_inv ?w1"
    then have "rows_inv ?s1" by (simp add: worker_inv_def seen_inv_def)
    from set_progress_inv[OF this]
    show "rows_inv ?s2 \<and> jobs_le (jobs (w_db ?w1)) (jobs ?s2)" by simp
  qed simp_all
  have "file_settled now result w = after_exit now ?out"
    using Some t by (simp add: file_settled_def Let_def)
  with keeps_trans[OF keeps_trans[OF keeps_trans[OF keeps_trans[OF k1 k2] keeps_send]
        keeps_loop_iteration] keeps_after_exit]
  show ?thesis by simp
qed

lemma keeps_file_done: "keeps w (file_done e documentId chunkIds now node w)"
proof (cases "w_inflight w")
  case None
  then show ?thesis by (simp add: file_done_def)
next
  case (Some t)
  obtain jobId itemId sourcePath where t: "t = (jobId, itemId, sourcePath)" by (cases t)
  show ?thesis
  proof (cases "importOneFile e documentId chunkIds now node sourcePath itemId (w_db w, w_blobs w)")
    case None
    then show ?thesis using Some t by (simp add: file_done_def)
  next
    case (Some y)
    obtain result s b where y: "y = (result, s, b)" by (cases y)
    from importOneFile_rows[OF Some[unfolded y]]
    have r: "jobs s = jobs (w_db w)"
      "job_items s = job_items (w_db w) \<or> job_items s = job_items (touch_item now itemId (w_db w))"
      "res_status result \<in> {ItemDone, ItemFailed, ItemSkipped}" by auto
    have "keeps w (w\<lparr>w_db := s, w_blobs := b\<rparr>)"
      by (rule keeps_touch[where now = now and item = itemId]) (use r in simp_all)
    from keeps_trans[OF this keeps_file_settled[OF r(3)]]
    show ?thesis using \<open>w_inflight w = Some t\<close> t Some y by (simp add: file_done_def)
  qed
qed

lemma keeps_file_throws: "keeps w (file_throws now err w)"
proof (cases "w_inflight w")
  case None
  then show ?thesis by (simp add: file_throws_def)
next
  case (Some t)
  obtain jobId itemId sourcePath where t: "t = (jobId, itemId, sourcePath)" by (cases t)
  let ?w1 = "w\<lparr>w_db := mark_job_failed now err jobId (w_db w), w_inflight := None\<rparr>"
  have "keeps w ?w1"
    by (rule keeps_update_jobs[where P = "\<lambda>j. job_id j = jobId"
          and f = "\<lambda>j. j\<lparr>job_status := Failed, job_error_message := Some err,
              job_finished_at := Some now, job_updated_at := now\<rparr>"])
       (simp_all add: mark_job_failed_def)
  from keeps_trans[OF keeps_trans[OF this keeps_send] keeps_exited]
  show ?thesis using Some t by (simp add: file_throws_def)
qed

lemma keeps_do_step: "keeps w (do_step e st w)"
proof (cases st)
  case (CancelElsewhere jobId)
  then show ?thesis by (simp add: keeps_same)
next
  case Restart
  then show ?thesis by (simp add: keeps_same restart_def)
qed (simp_all add: keeps_handleImportFiles keeps_handleEnsureInitialized keeps_handlePauseJob
    keeps_handleResumeJob keeps_handleCancelJob keeps_file_done keeps_file_throws)

lemma worker_inv_init: "worker_inv (init_worker empty_store)"
  by (simp add: worker_inv_def seen_inv_def rows_inv_def init_worker_def empty_store_def)

lemma worker_inv_run: "worker_inv w \<Longrightarrow> worker_inv (run_steps e steps w)"
proof (induction steps arbitrary: w)
  case Nil
  then show ?case by (simp add: run_steps_def)
next
  case (Cons st steps)
  from keeps_do_step[of w e st] Cons.prems have "worker_inv (do_step e st w)" by (simp add: keeps_def)
  from Cons.IH[OF this] show ?case by (simp add: run_steps_def)
qed

lemma loop_inv_cong:
  assumes "jobs (w_db w') = jobs (w_db w)" "job_items (w_db w') = job_items (w_db w)"
    "w_opened w' = w_opened w" "w_inflight w' = w_inflight w" "w_running w' = w_running w"
  shows "loop_inv w' = loop_inv w"
  using assms by (simp add: loop_inv_def progress_inv_def processing_inv_def inflight_inv_def has_live_def doneCount_def)

lemma worker_inv_sinv: "worker_inv w \<Longrightarrow> rows_inv (w_db w)"
  by (simp add: worker_inv_def seen_inv_def)

lemma item_job_unique:
  assumes "rows_inv s" "i \<in> set (job_items s)" "i' \<in> set (job_items s)" "item_id i' = item_id i"
  shows "i' = i"
  using distinct_item_id[of "job_items s" i' i] assms by (simp add: rows_inv_def)

lemma doneCount_update_items:
  assumes "\<And>i. i \<in> set (job_items s) \<Longrightarrow> P i \<Longrightarrow>
      (item_job_id (g i) = jobId \<and> item_status (g i) \<in> {ItemDone, ItemFailed, ItemSkipped}) =
      (item_job_id i = jobId \<and> item_status i \<in> {ItemDone, ItemFailed, ItemSkipped})"
  shows "doneCount (update_items P g s) jobId = doneCount s jobId"
proof -
  have "length (filter (\<lambda>i. item_job_id (if P i then g i else i) = jobId \<and>
        item_status (if P i then g i else i) \<in> {ItemDone, ItemFailed, ItemSkipped}) (job_items s))
      = length (filter (\<lambda>i. item_job_id i = jobId \<and>
        item_status i \<in> {ItemDone, ItemFailed, ItemSkipped}) (job_items s))"
    by (rule filter_length_same) (use assms in auto)
  then show ?thesis by (simp add: doneCount_def update_items_def comp_def del: insert_iff)
qed

lemma has_live_items [simp]: "has_live (update_items P g s) jobId = has_live s jobId"
  by (simp add: has_live_def update_items_def)

lemma loop_inv_update_jobs:
  assumes "loop_inv w"
    and f: "\<And>j. job_id (f j) = job_id j \<and> progress_total (f j) = progress_total j \<and>
            progress_current (f j) = progress_current j"
    and st: "\<And>j. j \<in> set (jobs (w_db w)) \<Longrightarrow> P j \<Longrightarrow>
            (live (job_status (f j)) \<longrightarrow> live (job_status j)) \<and>
            (job_status (f j) = Done \<longrightarrow> job_status j = Done \<or> progress_current j = progress_total j)"
    and db: "w_db w' = update_jobs P f (w_db w)"
    and fields: "w_opened w' = w_opened w" "w_running w' = w_running w"
    and infl: "w_inflight w' = w_inflight w \<or>
         (w_inflight w' = None \<and>
          (\<forall>jobId itemId p. w_inflight w = Some (jobId, itemId, p) \<longrightarrow> \<not> has_live (w_db w') jobId))"
  shows "loop_inv w'"
proof -
  let ?s = "w_db w"
  let ?s' = "update_jobs P f ?s"
  have dc: "doneCount ?s' jid = doneCount ?s jid" for jid
    by (simp add: update_jobs_def)
  have a: "progress_inv ?s'"
    unfolding progress_inv_def
  proof
    fix j' assume "j' \<in> set (jobs ?s')"
    then obtain j where j: "j \<in> set (jobs ?s)" "j' = (if P j then f j else j)"
      by (auto simp: update_jobs_def)
    from assms(1) j(1) have old: "job_status j = Done \<longrightarrow> progress_current j = progress_total j"
      "live (job_status j) \<longrightarrow> progress_current j = doneCount ?s (job_id j)"
      by (auto simp: loop_inv_def progress_inv_def)
    show "(job_status j' = Done \<longrightarrow> progress_current j' = progress_total j') \<and>
        (live (job_status j') \<longrightarrow> progress_current j' = doneCount ?s' (job_id j'))"
      using old st[OF j(1)] f[of j] j(2) dc by (cases "P j") auto
  qed
  have hl: "has_live ?s jid" if "has_live ?s' jid" for jid
  proof -
    from that obtain j where j: "j \<in> set (jobs ?s)" "job_id (if P j then f j else j) = jid"
      "live (job_status (if P j then f j else j))"
      by (auto simp: has_live_def update_jobs_def)
    then have "job_id j = jid \<and> live (job_status j)" using st[OF j(1)] f[of j] by (cases "P j") auto
    with j(1) show ?thesis by (auto simp: has_live_def)
  qed
  have items: "job_items ?s' = job_items ?s" by (simp add: update_jobs_def)
  have b: "processing_inv w'"
    unfolding processing_inv_def
  proof (intro impI ballI)
    fix i assume o: "w_opened w'" and i: "i \<in> set (job_items (w_db w'))"
      and p: "item_status i = ItemProcessing \<and> has_live (w_db w') (item_job_id i)"
    from assms(1) o i p fields(1) obtain pth where
      old: "w_inflight w = Some (item_job_id i, item_id i, pth)"
      using hl[of "item_job_id i"] by (auto simp: loop_inv_def processing_inv_def db items)
    from infl show "\<exists>p. w_inflight w' = Some (item_job_id i, item_id i, p)"
    proof
      assume "w_inflight w' = w_inflight w"
      with old show ?thesis by simp
    next
      assume "w_inflight w' = None \<and>
          (\<forall>jobId itemId p. w_inflight w = Some (jobId, itemId, p) \<longrightarrow> \<not> has_live (w_db w') jobId)"
      with old p show ?thesis by blast
    qed
  qed
  have c: "inflight_inv w'"
    using assms(1) infl fields by (auto simp: loop_inv_def inflight_inv_def db items)
  show ?thesis using a b c by (simp add: loop_inv_def db)
qed

lemma loop_inv_update_items:
  assumes "loop_inv w"
    and g: "\<And>i. item_id (g i) = item_id i \<and> item_job_id (g i) = item_job_id i"
    and st: "\<And>i. i \<in> set (job_items (w_db w)) \<Longrightarrow> P i \<Longrightarrow>
            (item_status (g i) = ItemProcessing \<longrightarrow> item_status i = ItemProcessing) \<and>
            ((item_status (g i) \<in> {ItemDone, ItemFailed, ItemSkipped}) =
             (item_status i \<in> {ItemDone, ItemFailed, ItemSkipped}) \<or>
             \<not> has_live (w_db w) (item_job_id i))"
    and db: "w_db w' = update_items P g (w_db w)"
    and fields: "w_opened w' = w_opened w" "w_running w' = w_running w" "w_inflight w' = w_inflight w"
  shows "loop_inv w'"
proof -
  let ?s = "w_db w"
  let ?s' = "update_items P g ?s"
  have js: "jobs ?s' = jobs ?s" by (simp add: update_items_def)
  have a: "progress_inv ?s'"
    unfolding progress_inv_def
  proof
    fix j assume "j \<in> set (jobs ?s')"
    then have j: "j \<in> set (jobs ?s)" by (simp add: js)
    from assms(1) j have old: "job_status j = Done \<longrightarrow> progress_current j = progress_total j"
      "live (job_status j) \<longrightarrow> progress_current j = doneCount ?s (job_id j)"
      by (auto simp: loop_inv_def progress_inv_def)
    have "doneCount ?s' (job_id j) = doneCount ?s (job_id j)" if l: "live (job_status j)"
    proof (rule doneCount_update_items)
      fix i assume i: "i \<in> set (job_items ?s)" "P i"
      show "(item_job_id (g i) = job_id j \<and> item_status (g i) \<in> {ItemDone, ItemFailed, ItemSkipped}) =
          (item_job_id i = job_id j \<and> item_status i \<in> {ItemDone, ItemFailed, ItemSkipped})"
      proof (cases "item_job_id i = job_id j")
        case True
        then have "has_live ?s (item_job_id i)" using j l by (auto simp: has_live_def)
        with st[OF i] g[of i] show ?thesis by (simp del: insert_iff)
      next
        case False
        then show ?thesis using g[of i] by simp
      qed
    qed
    with old show "(job_status j = Done \<longrightarrow> progress_current j = progress_total j) \<and>
        (live (job_status j) \<longrightarrow> progress_current j = doneCount ?s' (job_id j))"
      by simp
  qed
  have b: "processing_inv w'"
    unfolding processing_inv_def
  proof (intro impI ballI)
    fix i' assume o: "w_opened w'" and i': "i' \<in> set (job_items (w_db w'))"
      and p: "item_status i' = ItemProcessing \<and> has_live (w_db w') (item_job_id i')"
    from i' obtain i where i: "i \<in> set (job_items ?s)" "i' = (if P i then g i else i)"
      by (auto simp: db update_items_def)
    have "item_status i = ItemProcessing \<and> item_id i' = item_id i \<and> item_job_id i' = item_job_id i"
      using st[OF i(1)] g[of i] i(2) p by (cases "P i") auto
    moreover have "has_live ?s (item_job_id i')" using p by (simp add: db)
    ultimately show "\<exists>p. w_inflight w' = Some (item_job_id i', item_id i', p)"
      using assms(1) o i(1) fields by (auto simp: loop_inv_def processing_inv_def)
  qed
  have c: "inflight_inv w'"
    unfolding inflight_inv_def
  proof (intro allI impI)
    fix jobId itemId p assume "w_inflight w' = Some (jobId, itemId, p)"
    then have inf: "w_inflight w = Some (jobId, itemId, p)" using fields(3) by simp
    from assms(1) have "inflight_inv w" by (simp add: loop_inv_def)
    from this[unfolded inflight_inv_def, rule_format, OF inf]
    obtain i where i: "w_opened w" "w_running w = Some jobId"
      "i \<in> set (job_items ?s)" "item_id i = itemId" "item_job_id i = jobId"
      by blast
    have "(if P i then g i else i) \<in> set (job_items ?s')"
      using i(3) by (auto simp: update_items_def)
    moreover have "item_id (if P i then g i else i) = itemId \<and>
        item_job_id (if P i then g i else i) = jobId"
      using g[of i] i(4,5) by simp
    ultimately show "w_opened w' \<and> w_running w' = Some jobId \<and>
        (\<exists>i\<in>set (job_items (w_db w')). item_id i = itemId \<and> item_job_id i = jobId)"
      using i(1,2) fields db by metis
  qed
  show ?thesis using a b c by (simp add: loop_inv_def db)
qed

lemma loop_inv_fields:
  assumes "loop_inv w" "w_db w' = w_db w" "w_opened w' = w_opened w" "w_inflight w' = w_inflight w"
    "w_running w' = w_running w"
  shows "loop_inv w'"
  using loop_inv_cong[of w' w] assms by simp

lemma loop_inv_running:
  assumes "loop_inv w" "w_inflight w = None"
  shows "loop_inv (w\<lparr>w_running := r\<rparr>)"
  using assms by (simp add: loop_inv_def processing_inv_def inflight_inv_def)

lemma loop_inv_restart: "loop_inv w \<Longrightarrow> loop_inv (restart w)"
  by (simp add: loop_inv_def processing_inv_def inflight_inv_def restart_def)

lemma loop_inv_suspend:
  assumes "worker_inv w" "loop_inv w" "w_opened w" "w_inflight w = None" "w_running w = Some jobId"
    and n: "next_pending_item (w_db w) jobId = Some i"
  shows "loop_inv (w\<lparr>w_db := mark_item_processing now (item_id i) (w_db w),
                  w_inflight := Some (jobId, item_id i, item_source_path i)\<rparr>)"
proof -
  let ?s = "w_db w"
  let ?P = "\<lambda>i'. item_id i' = item_id i"
  let ?g = "\<lambda>i. i\<lparr>item_status := ItemProcessing, item_started_at := Some now,
              item_updated_at := now\<rparr>"
  let ?s' = "update_items ?P ?g ?s"
  let ?w' = "w\<lparr>w_db := ?s', w_inflight := Some (jobId, item_id i, item_source_path i)\<rparr>"
  from next_pending_item_mem[OF n] have i: "i \<in> set (job_items ?s)" "item_job_id i = jobId"
    "item_status i = ItemPending" by auto
  have uniq: "i' = i" if "i' \<in> set (job_items ?s)" "item_id i' = item_id i" for i'
    using item_job_unique[OF worker_inv_sinv[OF assms(1)] i(1) that] .
  have dc: "doneCount ?s' jid = doneCount ?s jid" for jid
  proof (rule doneCount_update_items)
    fix i' assume "i' \<in> set (job_items ?s)" "item_id i' = item_id i"
    from uniq[OF this] i(3)
    show "(item_job_id (?g i') = jid \<and> item_status (?g i') \<in> {ItemDone, ItemFailed, ItemSkipped}) =
        (item_job_id i' = jid \<and> item_status i' \<in> {ItemDone, ItemFailed, ItemSkipped})"
      by simp
  qed
  have a: "progress_inv ?s'"
    using assms(2) dc by (simp add: loop_inv_def progress_inv_def) (simp add: update_items_def)
  have b: "processing_inv ?w'"
    unfolding processing_inv_def
  proof (intro impI ballI)
    fix i' assume i': "i' \<in> set (job_items (w_db ?w'))"
      and p: "item_status i' = ItemProcessing \<and> has_live (w_db ?w') (item_job_id i')"
    from i' obtain i0 where i0: "i0 \<in> set (job_items ?s)" "i' = (if ?P i0 then ?g i0 else i0)"
      by (auto simp: update_items_def)
    show "\<exists>p. w_inflight ?w' = Some (item_job_id i', item_id i', p)"
    proof (cases "?P i0")
      case True
      from uniq[OF i0(1) True] i0(2) i(2) show ?thesis by simp
    next
      case False
      then have "item_status i0 = ItemProcessing \<and> has_live ?s (item_job_id i0)"
        using p i0(2) by simp
      with assms(2,3) i0(1) have "\<exists>p. w_inflight w = Some (item_job_id i0, item_id i0, p)"
        by (auto simp: loop_inv_def processing_inv_def)
      with assms(4) show ?thesis by simp
    qed
  qed
  have "?g i \<in> set (job_items ?s')" using i(1) by (force simp: update_items_def)
  then have c: "inflight_inv ?w'"
    using assms(3,5) i(2) by (auto simp: inflight_inv_def intro!: bexI[of _ "?g i"])
  show ?thesis using a b c by (simp add: loop_inv_def mark_item_processing_def)
qed

lemma has_live_set_progress [simp]: "has_live (set_progress now n jobId s) jid = has_live s jid"
proof -
  have "(\<exists>j\<in>set (map (\<lambda>j. if P j then f j else j) js). job_id j = jid \<and> live (job_status j)) =
      (\<exists>j\<in>set js. job_id j = jid \<and> live (job_status j))"
    if "\<And>j. job_id (f j) = job_id j \<and> job_status (f j) = job_status j"
    for js :: "job list" and P f
    using that by (induction js) auto
  then show ?thesis by (simp add: has_live_def set_progress_def update_jobs_def)
qed

lemma loop_inv_settle:
  assumes "worker_inv w" "loop_inv w" and inf: "w_inflight w = Some (jobId, itemId, p)"
    and res: "res_status result \<in> {ItemDone, ItemFailed, ItemSkipped}"
  shows "loop_inv (w\<lparr>w_db := set_progress now (doneCount (finish_item now result itemId (w_db w)) jobId)
                           jobId (finish_item now result itemId (w_db w)),
                  w_inflight := None\<rparr>)"
proof -
  let ?s = "w_db w"
  let ?P = "\<lambda>i. item_id i = itemId"
  let ?g = "\<lambda>i. i\<lparr>item_status := res_status result, item_error_message := res_error result,
              item_finished_at := Some now, item_updated_at := now\<rparr>"
  let ?s1 = "update_items ?P ?g ?s"
  let ?f = "\<lambda>j. j\<lparr>progress_current := doneCount ?s1 jobId, job_updated_at := now,
              job_heartbeat_at := Some now\<rparr>"
  let ?s2 = "update_jobs (\<lambda>j. job_id j = jobId) ?f ?s1"
  let ?w' = "w\<lparr>w_db := ?s2, w_inflight := None\<rparr>"
  note s = worker_inv_sinv[OF assms(1)]
  have s1: "rows_inv ?s1" using update_items_inv[OF s, of ?g ?P] res by simp
  from assms(2) have "inflight_inv w" by (simp add: loop_inv_def)
  from this[unfolded inflight_inv_def, rule_format, OF inf] obtain i0 where
    i0: "w_opened w" "i0 \<in> set (job_items ?s)" "item_id i0 = itemId" "item_job_id i0 = jobId"
    by blast
  have job: "item_job_id i = jobId" if "i \<in> set (job_items ?s)" "item_id i = itemId" for i
    using item_job_unique[OF s i0(2) that(1)] that(2) i0(3,4) by simp
  have dc1: "doneCount ?s1 jid = doneCount ?s jid" if "jid \<noteq> jobId" for jid
  proof (rule doneCount_update_items)
    fix i assume "i \<in> set (job_items ?s)" "item_id i = itemId"
    from job[OF this] that
    show "(item_job_id (?g i) = jid \<and> item_status (?g i) \<in> {ItemDone, ItemFailed, ItemSkipped}) =
        (item_job_id i = jid \<and> item_status i \<in> {ItemDone, ItemFailed, ItemSkipped})"
      by simp
  qed
  have dc2: "doneCount ?s2 jid = doneCount ?s1 jid" for jid
    by (simp add: update_jobs_def)
  have js1: "jobs ?s1 = jobs ?s" by (simp add: update_items_def)
  have a: "progress_inv ?s2"
    unfolding progress_inv_def
  proof
    fix j' assume "j' \<in> set (jobs ?s2)"
    then obtain j where j: "j \<in> set (jobs ?s)" "j' = (if job_id j = jobId then ?f j else j)"
      by (auto simp: update_jobs_def js1)
    from assms(2) j(1) have old: "job_status j = Done \<longrightarrow> progress_current j = progress_total j"
      "live (job_status j) \<longrightarrow> progress_current j = doneCount ?s (job_id j)"
      by (auto simp: loop_inv_def progress_inv_def)
    show "(job_status j' = Done \<longrightarrow> progress_current j' = progress_total j') \<and>
        (live (job_status j') \<longrightarrow> progress_current j' = doneCount ?s2 (job_id j'))"
    proof (cases "job_id j = jobId")
      case True
      from s1 j(1) True have "progress_current j \<le> doneCount ?s1 jobId"
        "itemCount ?s1 jobId = progress_total j"
        by (auto simp: rows_inv_def js1)
      with doneCount_le_itemCount[of ?s1 jobId]
      have "job_status j = Done \<longrightarrow> doneCount ?s1 jobId = progress_total j"
        using old(1) by auto
      then show ?thesis using True j(2) dc2 by simp
    next
      case False
      then show ?thesis using j(2) old dc1[OF False] dc2 by simp
    qed
  qed
  have hl: "has_live ?s2 jid = has_live ?s jid" for jid
    using has_live_set_progress[of now "doneCount ?s1 jobId" jobId ?s1 jid]
    by (simp add: set_progress_def)
  have b: "processing_inv ?w'"
    unfolding processing_inv_def
  proof (intro impI ballI)
    fix i' assume i': "i' \<in> set (job_items (w_db ?w'))"
      and p: "item_status i' = ItemProcessing \<and> has_live (w_db ?w') (item_job_id i')"
    from i' obtain i where i: "i \<in> set (job_items ?s)" "i' = (if ?P i then ?g i else i)"
      by (auto simp: update_items_def update_jobs_def)
    have np: "\<not> ?P i" using p i(2) res by auto
    then have "item_status i = ItemProcessing \<and> has_live ?s (item_job_id i)"
      using p i(2) hl by simp
    with assms(2) i0(1) i(1) have "\<exists>p. w_inflight w = Some (item_job_id i, item_id i, p)"
      by (auto simp: loop_inv_def processing_inv_def)
    with inf np show "\<exists>p. w_inflight ?w' = Some (item_job_id i', item_id i', p)" by simp
  qed
  have c: "inflight_inv ?w'" by (simp add: inflight_inv_def)
  show ?thesis using a b c by (simp add: loop_inv_def finish_item_def set_progress_def)
qed

lemma insert_job_with_items_effect:
  assumes "insert_job_with_items jobId itemIds sources files now s = Inr s'"
  shows "jobId \<notin> job_id ` set (jobs s) \<and>
     (\<exists>j new. jobs s' = jobs s @ [j] \<and> job_id j = jobId \<and> job_status j = Pending \<and>
        progress_current j = 0 \<and> job_items s' = job_items s @ new \<and>
        (\<forall>i\<in>set new. item_job_id i = jobId \<and> item_status i = ItemPending))"
proof -
  let ?j = "\<lparr>job_id = jobId, job_type = ''import_files'', job_status = Pending,
          job_payload = sources, progress_current = 0, progress_total = length files,
          job_error_message = None, job_created_at = now, job_started_at = None,
          job_finished_at = None, job_updated_at = now, job_heartbeat_at = None\<rparr>"
  from assms obtain s1 where s1: "insertJob jobId sources (length files) now s = Inr s1"
    and it: "insert_items itemIds jobId now files 0 s1 = Inr s'"
    by (auto simp: insert_job_with_items_def split: sum.splits)
  from s1 have fresh: "jobId \<notin> job_id ` set (jobs s)"
    and e1: "jobs s1 = jobs s @ [?j]" "job_items s1 = job_items s"
    by (auto simp: insertJob_def split: if_splits)
  from insert_items_effect[OF it] e1 obtain new where
    "jobs s' = jobs s @ [?j]" "job_items s' = job_items s @ new"
    "\<forall>i\<in>set new. item_job_id i = jobId \<and> item_status i = ItemPending"
    by auto
  then have "jobs s' = jobs s @ [?j] \<and> job_id ?j = jobId \<and> job_status ?j = Pending \<and>
        progress_current ?j = 0 \<and> job_items s' = job_items s @ new \<and>
        (\<forall>i\<in>set new. item_job_id i = jobId \<and> item_status i = ItemPending)"
    by simp
  then show ?thesis using fresh by blast
qed

lemma loop_inv_insert:
  assumes "worker_inv w" "loop_inv w"
    and ins: "insert_job_with_items jobId itemIds sources files now (w_db w) = Inr s'"
  shows "loop_inv (w\<lparr>w_db := s'\<rparr>)"
proof -
  let ?s = "w_db w"
  note s = worker_inv_sinv[OF assms(1)]
  from insert_job_with_items_effect[OF ins] obtain j new where
    fresh: "jobId \<notin> job_id ` set (jobs ?s)"
    and js: "jobs s' = jobs ?s @ [j]" and j: "job_id j = jobId" "job_status j = Pending"
      "progress_current j = 0"
    and is': "job_items s' = job_items ?s @ new"
    and new: "\<forall>i\<in>set new. item_job_id i = jobId \<and> item_status i = ItemPending"
    by blast
  have newdone: "filter (\<lambda>i. item_job_id i = jid \<and>
      item_status i \<in> {ItemDone, ItemFailed, ItemSkipped}) new = []" for jid
    using new by (auto simp: filter_empty_conv)
  have dc: "doneCount s' jid = doneCount ?s jid" for jid
    using newdone[of jid] by (simp add: doneCount_def is' del: insert_iff)
  have fk: "item_job_id i \<noteq> jobId" if "i \<in> set (job_items ?s)" for i
    using s fresh that by (auto simp: rows_inv_def)
  have "filter (\<lambda>i. item_job_id i = jobId \<and>
      item_status i \<in> {ItemDone, ItemFailed, ItemSkipped}) (job_items ?s) = []"
    using fk by (auto simp: filter_empty_conv)
  then have zero: "doneCount ?s jobId = 0" by (simp add: doneCount_def del: insert_iff)
  have a: "progress_inv s'"
    unfolding progress_inv_def
  proof
    fix j' assume "j' \<in> set (jobs s')"
    then consider "j' = j" | "j' \<in> set (jobs ?s)" using js by auto
    then show "(job_status j' = Done \<longrightarrow> progress_current j' = progress_total j') \<and>
        (live (job_status j') \<longrightarrow> progress_current j' = doneCount s' (job_id j'))"
    proof cases
      case 1
      then show ?thesis using j dc zero by simp
    next
      case 2
      with assms(2) show ?thesis using dc by (auto simp: loop_inv_def progress_inv_def)
    qed
  qed
  have b: "processing_inv (w\<lparr>w_db := s'\<rparr>)"
    unfolding processing_inv_def
  proof (intro impI ballI)
    fix i assume o: "w_opened (w\<lparr>w_db := s'\<rparr>)" and i: "i \<in> set (job_items (w_db (w\<lparr>w_db := s'\<rparr>)))"
      and p: "item_status i = ItemProcessing \<and> has_live (w_db (w\<lparr>w_db := s'\<rparr>)) (item_job_id i)"
    from i p new have old: "i \<in> set (job_items ?s)" by (auto simp: is')
    from p obtain j' where j': "j' \<in> set (jobs s')" "job_id j' = item_job_id i" "live (job_status j')"
      by (auto simp: has_live_def)
    have "j' \<noteq> j" using fk[OF old] j' j(1) by auto
    then have "j' \<in> set (jobs ?s)" using j'(1) js by simp
    then have "has_live ?s (item_job_id i)" using j' by (auto simp: has_live_def)
    with assms(2) o old p show "\<exists>p. w_inflight (w\<lparr>w_db := s'\<rparr>) = Some (item_job_id i, item_id i, p)"
      by (auto simp: loop_inv_def processing_inv_def)
  qed
  have c: "inflight_inv (w\<lparr>w_db := s'\<rparr>)"
    using assms(2) by (auto simp: loop_inv_def inflight_inv_def is')
  show ?thesis using a b c by (simp add: loop_inv_def)
qed

lemma getDb_cases:
  assumes "getDb e now w = (r, w1)"
  shows "(w_opened w \<and> w1 = w \<and> r = None) \<or>
     (\<not> w_opened w \<and> r \<noteq> None \<and> \<not> w_opened w1 \<and>
        jobs (w_db w1) = jobs (w_db w) \<and> job_items (w_db w1) = job_items (w_db w)) \<or>
     (\<not> w_opened w \<and> r = None \<and> w_opened w1 \<and>
        jobs (w_db w1) = jobs (recover_jobs now (w_db w)) \<and>
        job_items (w_db w1) = job_items (recover_items now (w_db w)))"
proof (cases "w_opened w")
  case True
  then show ?thesis using assms by (simp add: getDb_def)
next
  case False
  obtain r0 c where m: "migrateKnowledgeMetaDb (sql_ok e) KNOWLEDGE_META_MIGRATIONS now
      (open_conn (w_db w)) = (r0, c)"
    by (cases "migrateKnowledgeMetaDb (sql_ok e) KNOWLEDGE_META_MIGRATIONS now (open_conn (w_db w))")
  from migrate_tables[OF m] have t: "jobs (cur c) = jobs (w_db w)" "job_items (cur c) = job_items (w_db w)"
    by (simp_all add: open_conn_def)
  show ?thesis
  proof (cases r0)
    case None
    then show ?thesis using assms False m t
      by (auto simp: getDb_def getDb_open_def openKnowledgeMetaDb_def recover_cur
          recover_items_def recover_jobs_def)
  next
    case (Some err)
    then show ?thesis using assms False m t
      by (auto simp: getDb_def getDb_open_def openKnowledgeMetaDb_def)
  qed
qed

lemma loop_inv_recover:
  assumes "loop_inv w" "\<not> w_opened w"
    and rows: "jobs (w_db w1) = jobs (recover_jobs now (w_db w))"
      "job_items (w_db w1) = job_items (recover_items now (w_db w))"
    and fields: "w_opened w1" "w_inflight w1 = w_inflight w" "w_running w1 = w_running w"
  shows "loop_inv w1"
proof -
  let ?fj = "\<lambda>j. j\<lparr>job_status := Paused, job_updated_at := now\<rparr>"
  let ?gi = "\<lambda>i. i\<lparr>item_status := ItemPending, item_updated_at := now\<rparr>"
  let ?wa = "w\<lparr>w_db := update_jobs (\<lambda>j. job_status j = Processing) ?fj (w_db w)\<rparr>"
  let ?wb = "?wa\<lparr>w_db := update_items (\<lambda>i. item_status i = ItemProcessing) ?gi (w_db ?wa)\<rparr>"
  have la: "loop_inv ?wa"
    by (rule loop_inv_update_jobs[OF assms(1), where P = "\<lambda>j. job_status j = Processing" and f = ?fj])
       (simp_all add: live_def)
  have lb: "loop_inv ?wb"
    by (rule loop_inv_update_items[OF la, where P = "\<lambda>i. item_status i = ItemProcessing" and g = ?gi])
       simp_all
  have inf: "w_inflight w = None"
    using assms(1,2) by (cases "w_inflight w") (auto simp: loop_inv_def inflight_inv_def)
  have nop: "item_status i \<noteq> ItemProcessing" if "i \<in> set (job_items (w_db ?wb))" for i
    using that by (auto simp: update_items_def update_jobs_def)
  have "loop_inv (?wb\<lparr>w_opened := True\<rparr>)"
    using lb nop inf by (simp add: loop_inv_def processing_inv_def inflight_inv_def)
  moreover have "loop_inv w1 = loop_inv (?wb\<lparr>w_opened := True\<rparr>)"
    by (rule loop_inv_cong)
       (simp_all add: rows fields recover_jobs_def recover_items_def update_jobs_def update_items_def)
  ultimately show ?thesis by simp
qed

lemma loop_inv_getDb:
  assumes "worker_inv w" "loop_inv w" "getDb e now w = (r, w1)"
  shows "loop_inv w1 \<and> (r = None \<longrightarrow> w_opened w1)"
proof -
  from getDb_effect[OF assms(3)] have f: "w_running w1 = w_running w" "w_inflight w1 = w_inflight w"
    by simp_all
  from getDb_cases[OF assms(3)] consider "w1 = w" "w_opened w" "r = None"
    | "\<not> w_opened w" "r \<noteq> None" "\<not> w_opened w1" "jobs (w_db w1) = jobs (w_db w)"
      "job_items (w_db w1) = job_items (w_db w)"
    | "\<not> w_opened w" "r = None" "w_opened w1" "jobs (w_db w1) = jobs (recover_jobs now (w_db w))"
        "job_items (w_db w1) = job_items (recover_items now (w_db w))"
    by blast
  then show ?thesis
  proof cases
    case 1
    then show ?thesis using assms(2) by simp
  next
    case 2
    have "loop_inv w1 = loop_inv w" by (rule loop_inv_cong) (simp_all add: 2 f)
    then show ?thesis using assms(2) 2 by simp
  next
    case 3
    from loop_inv_recover[OF assms(2) 3(1) 3(4,5) 3(3) f(2,1)] 3 show ?thesis by simp
  qed
qed

lemma no_pending_items:
  assumes "next_pending_item s jobId = None" "i \<in> set (job_items s)" "item_job_id i = jobId"
  shows "item_status i \<noteq> ItemPending"
proof -
  let ?xs = "filter (\<lambda>i. item_job_id i = jobId \<and> item_status i = ItemPending) (job_items s)"
  from assms(1) have "sort_key item_created_at ?xs = []"
    by (simp add: next_pending_item_def split: list.splits)
  then have "?xs = []" by (metis length_0_conv length_sort)
  then show ?thesis using assms(2,3) by (auto simp: filter_empty_conv)
qed

lemma rows_live_of_status:
  assumes "worker_inv w" "job_status_of (w_db w) jobId = Some st" "live st"
  shows "rows_live (w_db w) jobId"
  unfolding rows_live_def
proof (intro ballI impI)
  fix j assume j: "j \<in> set (jobs (w_db w))" "job_id j = jobId"
  from assms(2) obtain j' where f: "find (\<lambda>j. job_id j = jobId) (jobs (w_db w)) = Some j'"
    "job_status j' = st"
    by (auto simp: job_status_of_def)
  then have "j' \<in> set (jobs (w_db w))" "job_id j' = jobId"
    by (auto simp: find_Some_iff)
  with distinct_job_id[of "jobs (w_db w)" j' j] j worker_inv_sinv[OF assms(1)] have "j' = j"
    by (simp add: rows_inv_def)
  then show "live (job_status j)" using f(2) assms(3) by simp
qed

lemma rows_live_of_absent:
  assumes "job_status_of (w_db w) jobId = None"
  shows "rows_live (w_db w) jobId"
  using assms by (auto simp: rows_live_def job_status_of_def find_None_iff)

lemma all_items_finished:
  assumes "ok_state w" "w_inflight w = None" "rows_live (w_db w) jobId"
    and "next_pending_item (w_db w) jobId = None"
    and j: "j \<in> set (jobs (w_db w))" "job_id j = jobId"
  shows "progress_current j = progress_total j"
proof -
  let ?s = "w_db w"
  from assms(1) have wi: "worker_inv w" and li: "loop_inv w" and op: "w_opened w"
    by (simp_all add: ok_state_def)
  from assms(3) j have l: "live (job_status j)" by (simp add: rows_live_def)
  then have hl: "has_live ?s jobId" using j by (auto simp: has_live_def)
  have fin: "item_status i \<in> {ItemDone, ItemFailed, ItemSkipped}"
    if i: "i \<in> set (job_items ?s)" "item_job_id i = jobId" for i
  proof -
    have "item_status i \<noteq> ItemPending" using no_pending_items[OF assms(4) i] .
    moreover have "item_status i \<noteq> ItemProcessing"
    proof
      assume "item_status i = ItemProcessing"
      with li op i hl have "\<exists>p. w_inflight w = Some (item_job_id i, item_id i, p)"
        by (auto simp: loop_inv_def processing_inv_def)
      with assms(2) show False by simp
    qed
    ultimately show ?thesis by (cases "item_status i") simp_all
  qed
  have "length (filter (\<lambda>i. item_job_id i = jobId \<and>
        item_status i \<in> {ItemDone, ItemFailed, ItemSkipped}) (job_items ?s))
      = length (filter (\<lambda>i. item_job_id i = jobId) (job_items ?s))"
    by (rule filter_length_same) (use fin in blast)
  then have "doneCount ?s jobId = itemCount ?s jobId"
    by (simp add: doneCount_def itemCount_def)
  moreover have "progress_current j = doneCount ?s jobId"
    using li j l by (auto simp: loop_inv_def progress_inv_def)
  moreover have "itemCount ?s jobId = progress_total j"
    using worker_inv_sinv[OF wi] j by (auto simp: rows_inv_def)
  ultimately show ?thesis by simp
qed

lemma loop_inv_send: "loop_inv w \<Longrightarrow> loop_inv (sendJobUpdate jobId w)"
  by (rule loop_inv_fields) (simp_all add: sendJobUpdate_def)

lemma ok_send: "ok_state w \<Longrightarrow> ok_state (sendJobUpdate jobId w)"
  using keeps_send[of w jobId] loop_inv_send[of w jobId]
  by (simp add: ok_state_def keeps_def) (simp add: sendJobUpdate_def)

lemma lk_loop:
  assumes "ok_state w" "w_inflight w = None" "w_running w = Some jobId"
  shows "ok_outcome (loop_iteration now jobId w)"
proof -
  from assms(1) have wi: "worker_inv w" and li: "loop_inv w" and op: "w_opened w"
    by (simp_all add: ok_state_def)
  have same: "ok_outcome (Exited w)"
    using assms(1,2) by (simp add: ok_outcome_def outcome_worker_def)
  show ?thesis
  proof (cases "jobId \<in> w_canceled w")
    case True
    then show ?thesis using same by (simp add: loop_iteration_def)
  next
    case False
    note nc = False
    show ?thesis
    proof (cases "job_status_of (w_db w) jobId")
      case None
      then show ?thesis using same nc by (simp add: loop_iteration_def)
    next
      case (Some st)
      show ?thesis
      proof (cases "st = Pending \<or> st = Processing")
        case False
        then show ?thesis using same nc Some by (cases st) (simp_all add: loop_iteration_def)
      next
        case True
        then have l: "live st" by (auto simp: live_def)
        note rl = rows_live_of_status[OF wi Some l]
        show ?thesis
        proof (cases "next_pending_item (w_db w) jobId")
          case None
          let ?w1 = "w\<lparr>w_db := mark_job_done now jobId (w_db w)\<rparr>"
          have "loop_inv ?w1"
          proof (rule loop_inv_update_jobs[OF li, where P = "\<lambda>j. job_id j = jobId"
                and f = "\<lambda>j. j\<lparr>job_status := Done, job_finished_at := Some now,
                  job_updated_at := now, job_heartbeat_at := Some now\<rparr>"])
            fix j assume "j \<in> set (jobs (w_db w))" "job_id j = jobId"
            from all_items_finished[OF assms(1,2) rl None this]
            show "(live (job_status (j\<lparr>job_status := Done, job_finished_at := Some now,
                  job_updated_at := now, job_heartbeat_at := Some now\<rparr>)) \<longrightarrow> live (job_status j)) \<and>
               (job_status (j\<lparr>job_status := Done, job_finished_at := Some now,
                  job_updated_at := now, job_heartbeat_at := Some now\<rparr>) = Done \<longrightarrow>
                job_status j = Done \<or> progress_current j = progress_total j)"
              by (simp add: live_def)
          qed (simp_all add: mark_job_done_def)
          moreover have "worker_inv ?w1"
            using keeps_update_jobs[where w = w and w' = ?w1 and P = "\<lambda>j. job_id j = jobId"
                and f = "\<lambda>j. j\<lparr>job_status := Done, job_finished_at := Some now,
                  job_updated_at := now, job_heartbeat_at := Some now\<rparr>"] wi
            by (simp add: keeps_def mark_job_done_def)
          ultimately have "ok_state ?w1" using op by (simp add: ok_state_def)
          from ok_send[OF this, of jobId] have "ok_outcome (Exited (sendJobUpdate jobId ?w1))"
            using assms(2) by (simp add: ok_outcome_def outcome_worker_def sendJobUpdate_def)
          moreover have "loop_iteration now jobId w = Exited (sendJobUpdate jobId ?w1)"
            using nc Some True None by (auto simp: loop_iteration_def)
          ultimately show ?thesis by simp
        next
          case (Some i)
          let ?w1 = "w\<lparr>w_db := mark_item_processing now (item_id i) (w_db w),
                       w_inflight := Some (jobId, item_id i, item_source_path i)\<rparr>"
          have "loop_inv ?w1" by (rule loop_inv_suspend[OF wi li op assms(2,3) Some])
          moreover have "worker_inv ?w1"
            using keeps_mark_item[OF Some, of ?w1 now] wi by (simp add: keeps_def)
          ultimately have "ok_outcome (Suspended ?w1)"
            using op by (simp add: ok_outcome_def ok_state_def outcome_worker_def)
          moreover have "loop_iteration now jobId w = Suspended ?w1"
            using nc \<open>job_status_of (w_db w) jobId = Some st\<close> True Some
            by (auto simp: loop_iteration_def)
          ultimately show ?thesis by simp
        qed
      qed
    qed
  qed
qed

lemma lk_job_run:
  assumes "ok_state w" "w_inflight w = None" "rows_live (w_db w) jobId"
    and "job_run now jobId w = Some outcome"
  shows "ok_outcome outcome"
proof -
  from assms(1) have wi: "worker_inv w" and li: "loop_inv w" and op: "w_opened w"
    by (simp_all add: ok_state_def)
  let ?f = "\<lambda>j. j\<lparr>job_status := Processing,
              job_started_at := (case job_started_at j of None \<Rightarrow> Some now | Some t \<Rightarrow> Some t),
              job_updated_at := now, job_heartbeat_at := Some now\<rparr>"
  let ?w1 = "w\<lparr>w_running := Some jobId, w_db := mark_job_processing now jobId (w_db w)\<rparr>"
  have l0: "loop_inv (w\<lparr>w_running := Some jobId\<rparr>)" by (rule loop_inv_running[OF li assms(2)])
  have "loop_inv ?w1"
  proof (rule loop_inv_update_jobs[OF l0, where P = "\<lambda>j. job_id j = jobId" and f = ?f])
    fix j assume "j \<in> set (jobs (w_db (w\<lparr>w_running := Some jobId\<rparr>)))" "job_id j = jobId"
    with assms(3) show "(live (job_status (?f j)) \<longrightarrow> live (job_status j)) \<and>
        (job_status (?f j) = Done \<longrightarrow> job_status j = Done \<or> progress_current j = progress_total j)"
      by (simp add: rows_live_def)
  qed (simp_all add: mark_job_processing_def)
  moreover have "worker_inv ?w1"
    using keeps_update_jobs[where w = w and w' = ?w1 and P = "\<lambda>j. job_id j = jobId" and f = ?f] wi
    by (simp add: keeps_def mark_job_processing_def)
  ultimately have "ok_state ?w1" using op by (simp add: ok_state_def)
  from ok_send[OF this, of jobId]
  have "ok_outcome (loop_iteration now jobId (sendJobUpdate jobId ?w1))"
    by (rule lk_loop) (simp_all add: sendJobUpdate_def assms(2))
  then show ?thesis using assms(4) by (auto simp: job_run_def split: if_splits)
qed

lemma ok_idle:
  assumes "ok_state w" "w_inflight w = None"
  shows "ok_state (w\<lparr>w_running := r\<rparr>)"
  using assms keeps_running[of w r] loop_inv_running[of w r] by (simp add: ok_state_def keeps_def)

lemma rows_live_pending:
  assumes "worker_inv w" "j \<in> set (jobs (w_db w))" "job_id j = jobId" "live (job_status j)"
  shows "rows_live (w_db w) jobId"
  unfolding rows_live_def
proof (intro ballI impI)
  fix j' assume "j' \<in> set (jobs (w_db w))" "job_id j' = jobId"
  with distinct_job_id[of "jobs (w_db w)" j' j] assms worker_inv_sinv[OF assms(1)] have "j' = j"
    by (simp add: rows_inv_def)
  then show "live (job_status j')" using assms(4) by simp
qed

lemma lk_schedule:
  assumes "ok_state w" "w_inflight w = None"
  shows "ok_state (scheduleNextPendingJob now w)"
  using assms
proof (induction now w rule: scheduleNextPendingJob.induct)
  case (1 now w)
  show ?case
  proof (cases "next_pending_job (w_db w)")
    case None
    then show ?thesis using 1(2) by (simp add: scheduleNextPendingJob.simps)
  next
    case (Some jobId)
    note j = Some
    from next_pending_job_pending[OF j] obtain r where
      r: "r \<in> set (jobs (w_db w))" "job_id r = jobId" "job_status r = Pending" by blast
    have rl: "rows_live (w_db w) jobId"
      using rows_live_pending[OF _ r(1,2)] r(3) 1(2) by (simp add: ok_state_def live_def)
    show ?thesis
    proof (cases "job_run now jobId w")
      case None
      then show ?thesis using j 1(2) by (simp add: scheduleNextPendingJob.simps)
    next
      case (Some outcome)
      note o = lk_job_run[OF 1(2,3) rl Some]
      show ?thesis
      proof (cases outcome)
        case (Suspended w')
        then show ?thesis using j Some o
          by (simp add: scheduleNextPendingJob.simps[of now w] ok_outcome_def outcome_worker_def)
      next
        case (Exited w')
        from o Exited have w': "ok_state w'" "w_inflight w' = None"
          by (simp_all add: ok_outcome_def outcome_worker_def)
        have "ok_state (scheduleNextPendingJob now (w'\<lparr>w_running := None\<rparr>))"
          by (rule 1(1)[OF j Some Exited ok_idle[OF w']]) (simp add: w'(2))
        then show ?thesis using j Some Exited by (simp add: scheduleNextPendingJob.simps[of now w])
      qed
    qed
  qed
qed

lemma lk_after_exit:
  assumes "ok_outcome outcome"
  shows "ok_state (after_exit now outcome)"
proof (cases outcome)
  case (Suspended w')
  then show ?thesis using assms by (simp add: after_exit_def ok_outcome_def outcome_worker_def)
next
  case (Exited w')
  with assms have w': "ok_state w'" "w_inflight w' = None"
    by (simp_all add: ok_outcome_def outcome_worker_def)
  have "ok_state (scheduleNextPendingJob now (w'\<lparr>w_running := None\<rparr>))"
    by (rule lk_schedule[OF ok_idle[OF w']]) (simp add: w'(2))
  then show ?thesis using Exited by (simp add: after_exit_def)
qed

lemma lk_process:
  assumes "ok_state w" "w_inflight w = None" "rows_live (w_db w) jobId"
  shows "ok_state (processImportJob now jobId w)"
proof (cases "job_run now jobId w")
  case None
  then show ?thesis using assms(1) by (simp add: processImportJob_def)
next
  case (Some outcome)
  have "processImportJob now jobId w = after_exit now outcome"
    using Some by (cases outcome) (simp_all add: processImportJob_def after_exit_def)
  with lk_after_exit[OF lk_job_run[OF assms Some]] show ?thesis by simp
qed

lemma worker_inv_getDb: "worker_inv w \<Longrightarrow> getDb e now w = (r, w1) \<Longrightarrow> worker_inv w1"
  using keeps_getDb[of e now w r w1] by (simp add: keeps_def)

lemma inflight_idle:
  assumes "loop_inv w" "w_running w = None"
  shows "w_inflight w = None"
proof (cases "w_inflight w")
  case (Some t)
  obtain a b c where "t = (a, b, c)" by (cases t)
  with assms Some show ?thesis by (auto simp: loop_inv_def inflight_inv_def)
qed simp

lemma lh_import:
  assumes "worker_inv w" "loop_inv w"
  shows "loop_inv (snd (handleImportFiles e jobId itemIds now kbId sources w))"
proof -
  obtain r w1 where g: "getDb e now w = (r, w1)" by (cases "getDb e now w")
  note wi1 = worker_inv_getDb[OF assms(1) g]
  from loop_inv_getDb[OF assms g] have l1: "loop_inv w1" and op: "r = None \<longrightarrow> w_opened w1" by simp_all
  show ?thesis
  proof (cases "kbId = [] \<or> sources = [] \<or> r \<noteq> None \<or> resolveImportFileList e sources = []")
    case True
    then show ?thesis using g l1 assms(2)
      by (auto simp: handleImportFiles_def Let_def split: option.splits)
  next
    case False
    then have r: "r = None" by simp
    let ?files = "resolveImportFileList e sources"
    show ?thesis
    proof (cases "insert_job_with_items jobId itemIds sources ?files now (w_db w1)")
      case (Inl err)
      then show ?thesis using False g l1 r by (simp add: handleImportFiles_def)
    next
      case (Inr s)
      let ?w2 = "w1\<lparr>w_db := s\<rparr>"
      let ?w3 = "if w_running ?w2 = None then processImportJob now jobId ?w2 else ?w2"
      have wi2: "worker_inv ?w2"
        using keeps_db[where w = w1 and w' = ?w2 and s' = s]
          insert_job_with_items_inv[OF worker_inv_sinv[OF wi1] Inr] wi1
        by (simp add: keeps_def)
      have l2: "loop_inv ?w2" by (rule loop_inv_insert[OF wi1 l1 Inr])
      have ok2: "ok_state ?w2" using wi2 l2 op r by (simp add: ok_state_def)
      from insert_job_with_items_effect[OF Inr] obtain j new where
        js: "jobs s = jobs (w_db w1) @ [j]" and j0: "job_id j = jobId" "job_status j = Pending"
        by blast
      have j: "j \<in> set (jobs s)" "job_id j = jobId" "job_status j = Pending"
        using js j0 by simp_all
      have rl: "rows_live (w_db ?w2) jobId"
        by (rule rows_live_pending[OF wi2, of j]) (simp_all add: j live_def)
      have "loop_inv ?w3"
      proof (cases "w_running w1")
        case None
        then have idle: "w_running ?w2 = None" by simp
        from lk_process[OF ok2 inflight_idle[OF l2 idle] rl, of now] None show ?thesis
          by (simp add: ok_state_def)
      next
        case (Some x)
        then show ?thesis using l2 by simp
      qed
      then have "loop_inv (sendJobUpdate jobId ?w3)" by (rule loop_inv_send)
      moreover have "snd (handleImportFiles e jobId itemIds now kbId sources w) =
          sendJobUpdate jobId ?w3"
        using False g r Inr by (simp add: handleImportFiles_def Let_def)
      ultimately show ?thesis by simp
    qed
  qed
qed

lemma lh_ensure:
  assumes "worker_inv w" "loop_inv w"
  shows "loop_inv (snd (handleEnsureInitialized e now kbId w))"
proof -
  obtain r w1 where g: "getDb e now w = (r, w1)" by (cases "getDb e now w")
  from loop_inv_getDb[OF assms g] show ?thesis using g assms(2)
    by (auto simp: handleEnsureInitialized_def split: option.splits)
qed

lemma lh_pause:
  assumes "worker_inv w" "loop_inv w"
  shows "loop_inv (snd (handlePauseJob e now kbId jobId w))"
proof -
  obtain r w1 where g: "getDb e now w = (r, w1)" by (cases "getDb e now w")
  from loop_inv_getDb[OF assms g] have l1: "loop_inv w1" by simp
  have "loop_inv (w1\<lparr>w_db := pause_job now jobId (w_db w1)\<rparr>)"
    by (rule loop_inv_update_jobs[OF l1,
          where P = "\<lambda>j. job_id j = jobId \<and> job_status j \<in> {Pending, Processing}"
          and f = "\<lambda>j. j\<lparr>job_status := Paused, job_updated_at := now\<rparr>"])
       (auto simp: pause_job_def live_def)
  from loop_inv_send[OF this] show ?thesis using g l1 assms(2)
    by (auto simp: handlePauseJob_def split: option.splits)
qed

lemma rows_live_update_jobs:
  assumes "rows_live s jobId" "\<And>j. job_id (f j) = job_id j"
    "\<And>j. live (job_status j) \<Longrightarrow> live (job_status (f j))"
  shows "rows_live (update_jobs P f s) jobId"
  unfolding rows_live_def
proof (intro ballI impI)
  fix j' assume "j' \<in> set (jobs (update_jobs P f s))" "job_id j' = jobId"
  then obtain j where j: "j \<in> set (jobs s)" "j' = (if P j then f j else j)"
    by (auto simp: update_jobs_def)
  with \<open>job_id j' = jobId\<close> assms(2)[of j] have "job_id j = jobId" by (cases "P j") simp_all
  with assms(1) j(1) have "live (job_status j)" by (simp add: rows_live_def)
  with assms(3)[of j] j(2) show "live (job_status j')" by (cases "P j") simp_all
qed

lemma rows_live_getDb:
  assumes "rows_live (w_db w) jobId" "getDb e now w = (r, w1)"
  shows "rows_live (w_db w1) jobId"
proof -
  from getDb_cases[OF assms(2)] consider "jobs (w_db w1) = jobs (w_db w)"
    | "jobs (w_db w1) = jobs (recover_jobs now (w_db w))"
    by auto
  then show ?thesis
  proof cases
    case 1
    then show ?thesis using assms(1) by (simp add: rows_live_def)
  next
    case 2
    have "rows_live (update_jobs (\<lambda>j. job_status j = Processing)
        (\<lambda>j. j\<lparr>job_status := Paused, job_updated_at := now\<rparr>) (w_db w)) jobId"
      by (rule rows_live_update_jobs[OF assms(1)]) (simp_all add: live_def)
    then show ?thesis using 2 by (simp add: rows_live_def recover_jobs_def update_jobs_def)
  qed
qed

lemma lh_resume:
  assumes "worker_inv w" "loop_inv w"
    and ok: "job_status_of (w_db w) jobId \<notin> {Some Done, Some Failed, Some Canceled}"
  shows "loop_inv (snd (handleResumeJob e now kbId jobId w))"
proof -
  obtain r w1 where g: "getDb e now w = (r, w1)" by (cases "getDb e now w")
  note wi1 = worker_inv_getDb[OF assms(1) g]
  from loop_inv_getDb[OF assms(1,2) g] have l1: "loop_inv w1" and op: "r = None \<longrightarrow> w_opened w1" by simp_all
  have rl0: "rows_live (w_db w) jobId"
  proof (cases "job_status_of (w_db w) jobId")
    case None
    then show ?thesis by (rule rows_live_of_absent)
  next
    case (Some st)
    with ok have "live st" by (cases st) (simp_all add: live_def)
    from rows_live_of_status[OF assms(1) Some this] show ?thesis .
  qed
  note rl1 = rows_live_getDb[OF rl0 g]
  let ?f = "\<lambda>j. j\<lparr>job_status := Pending, job_updated_at := now\<rparr>"
  let ?P = "\<lambda>j. job_id j = jobId \<and> job_status j \<in> {Paused, Pending}"
  let ?w2 = "w1\<lparr>w_db := resume_job now jobId (w_db w1)\<rparr>"
  let ?w3 = "if w_running ?w2 = None then processImportJob now jobId ?w2 else ?w2"
  have l2: "loop_inv ?w2"
  proof (rule loop_inv_update_jobs[OF l1, where P = ?P and f = ?f])
    fix j assume "j \<in> set (jobs (w_db w1))" "?P j"
    then have "live (job_status j)" by (auto simp: live_def)
    then show "(live (job_status (?f j)) \<longrightarrow> live (job_status j)) \<and>
        (job_status (?f j) = Done \<longrightarrow> job_status j = Done \<or> progress_current j = progress_total j)"
      by simp
  qed (simp_all add: resume_job_def)
  have wi2: "worker_inv ?w2"
    using keeps_update_jobs[where w = w1 and w' = ?w2 and P = ?P and f = ?f] wi1
    by (simp add: keeps_def resume_job_def)
  have "rows_live (update_jobs ?P ?f (w_db w1)) jobId"
    by (rule rows_live_update_jobs[OF rl1]) (simp_all add: live_def)
  then have rl2: "rows_live (w_db ?w2) jobId" by (simp add: resume_job_def)
  have l3: "loop_inv ?w3" if "r = None"
  proof (cases "w_running w1")
    case None
    then have idle: "w_running ?w2 = None" by simp
    have "ok_state ?w2" using wi2 l2 op that by (simp add: ok_state_def)
    from lk_process[OF this inflight_idle[OF l2 idle] rl2, of now] None show ?thesis
      by (simp add: ok_state_def)
  next
    case (Some x)
    then show ?thesis using l2 by simp
  qed
  show ?thesis
  proof (cases "kbId = [] \<or> jobId = [] \<or> r \<noteq> None")
    case True
    then show ?thesis using g l1 assms(2) by (auto simp: handleResumeJob_def split: option.splits)
  next
    case False
    then have "snd (handleResumeJob e now kbId jobId w) = sendJobUpdate jobId ?w3"
      using g by (simp add: handleResumeJob_def Let_def)
    with loop_inv_send[OF l3] False show ?thesis by simp
  qed
qed

lemma not_live_after:
  assumes "\<And>j. job_id (f j) = job_id j" "\<And>j. \<not> live (job_status (f j))"
  shows "\<not> has_live (update_jobs (\<lambda>j. job_id j = jobId) f s) jobId"
proof -
  have "\<forall>j'\<in>set (map (\<lambda>j. if job_id j = jobId then f j else j) js).
      job_id j' = jobId \<longrightarrow> \<not> live (job_status j')" for js
    by (induction js) (use assms in auto)
  then show ?thesis by (auto simp: has_live_def update_jobs_def)
qed

lemma lh_cancel:
  assumes "worker_inv w" "loop_inv w"
  shows "loop_inv (snd (handleCancelJob e now kbId jobId w))"
proof -
  let ?w0 = "w\<lparr>w_canceled := insert jobId (w_canceled w)\<rparr>"
  obtain r w1 where g: "getDb e now ?w0 = (r, w1)" by (cases "getDb e now ?w0")
  have wi0: "worker_inv ?w0" using assms(1) by (simp add: worker_inv_def)
  have l0: "loop_inv ?w0" by (rule loop_inv_fields[OF assms(2)]) simp_all
  from loop_inv_getDb[OF wi0 l0 g] have l1: "loop_inv w1" by simp
  let ?f = "\<lambda>j. j\<lparr>job_status := Canceled,
              job_finished_at := (case job_finished_at j of None \<Rightarrow> Some now | Some t \<Rightarrow> Some t),
              job_updated_at := now\<rparr>"
  let ?wa = "w1\<lparr>w_db := cancel_job now jobId (w_db w1)\<rparr>"
  let ?wb = "w1\<lparr>w_db := cancel_items now jobId (cancel_job now jobId (w_db w1))\<rparr>"
  have la: "loop_inv ?wa"
    by (rule loop_inv_update_jobs[OF l1, where P = "\<lambda>j. job_id j = jobId" and f = ?f])
       (simp_all add: cancel_job_def live_def)
  have nl: "\<not> has_live (w_db ?wa) jobId"
    using not_live_after[of ?f jobId "w_db w1"] by (simp add: cancel_job_def live_def)
  have lb: "loop_inv ?wb"
  proof (rule loop_inv_update_items[OF la,
          where P = "\<lambda>i. item_job_id i = jobId \<and> item_status i \<in> {ItemPending, ItemProcessing}"
          and g = "\<lambda>i. i\<lparr>item_status := ItemSkipped, item_updated_at := now\<rparr>"])
    fix i assume "i \<in> set (job_items (w_db ?wa))"
      "item_job_id i = jobId \<and> item_status i \<in> {ItemPending, ItemProcessing}"
    with nl show "(item_status (i\<lparr>item_status := ItemSkipped, item_updated_at := now\<rparr>) = ItemProcessing \<longrightarrow>
          item_status i = ItemProcessing) \<and>
       ((item_status (i\<lparr>item_status := ItemSkipped, item_updated_at := now\<rparr>)
           \<in> {ItemDone, ItemFailed, ItemSkipped}) =
        (item_status i \<in> {ItemDone, ItemFailed, ItemSkipped}) \<or>
        \<not> has_live (w_db ?wa) (item_job_id i))"
      by simp
  qed (simp_all add: cancel_items_def)
  from loop_inv_send[OF lb] show ?thesis using g l1 assms(2)
    by (auto simp: handleCancelJob_def split: option.splits)
qed

lemma lh_file_settled:
  assumes "worker_inv w" "loop_inv w" "res_status result \<in> {ItemDone, ItemFailed, ItemSkipped}"
  shows "loop_inv (file_settled now result w)"
proof (cases "w_inflight w")
  case None
  then show ?thesis using assms(2) by (simp add: file_settled_def)
next
  case (Some t)
  obtain jobId itemId sourcePath where t: "t = (jobId, itemId, sourcePath)" by (cases t)
  note inf = Some[unfolded t]
  let ?s1 = "finish_item now result itemId (w_db w)"
  let ?s2 = "set_progress now (doneCount ?s1 jobId) jobId ?s1"
  let ?w2 = "w\<lparr>w_db := ?s2, w_inflight := None\<rparr>"
  let ?out = "loop_iteration now jobId (sendJobUpdate jobId ?w2)"
  from assms(2) inf have op: "w_opened w" and run: "w_running w = Some jobId"
    by (auto simp: loop_inv_def inflight_inv_def)
  have l2: "loop_inv ?w2" by (rule loop_inv_settle[OF assms(1,2) inf assms(3)])
  have "rows_inv ?s1"
    using update_items_inv[OF worker_inv_sinv[OF assms(1)], of "\<lambda>i. i\<lparr>item_status := res_status result,
          item_error_message := res_error result, item_finished_at := Some now,
          item_updated_at := now\<rparr>" "\<lambda>i. item_id i = itemId"] assms(3)
    by (simp add: finish_item_def)
  from set_progress_inv[OF this, of now jobId]
  have "rows_inv ?s2" "jobs_le (jobs ?s1) (jobs ?s2)" by simp_all
  moreover have "jobs ?s1 = jobs (w_db w)" by (simp add: finish_item_def update_items_def)
  ultimately have wi2: "worker_inv ?w2"
    using keeps_db[where w = w and w' = ?w2 and s' = ?s2] assms(1) by (simp add: keeps_def)
  have "ok_state ?w2" using wi2 l2 op by (simp add: ok_state_def)
  from ok_send[OF this, of jobId] have "ok_outcome ?out"
    by (rule lk_loop) (simp_all add: sendJobUpdate_def run)
  from lk_after_exit[OF this, of now] have "loop_inv (after_exit now ?out)" by (simp add: ok_state_def)
  moreover have "file_settled now result w = after_exit now ?out"
    using Some t by (simp add: file_settled_def Let_def)
  ultimately show ?thesis by simp
qed

lemma lh_file_done:
  assumes "worker_inv w" "loop_inv w"
  shows "loop_inv (file_done e documentId chunkIds now node w)"
proof (cases "w_inflight w")
  case None
  then show ?thesis using assms(2) by (simp add: file_done_def)
next
  case (Some t)
  obtain jobId itemId sourcePath where t: "t = (jobId, itemId, sourcePath)" by (cases t)
  show ?thesis
  proof (cases "importOneFile e documentId chunkIds now node sourcePath itemId (w_db w, w_blobs w)")
    case None
    then show ?thesis using Some t assms(2) by (simp add: file_done_def)
  next
    case (Some y)
    obtain result s b where y: "y = (result, s, b)" by (cases y)
    let ?w1 = "w\<lparr>w_db := s, w_blobs := b\<rparr>"
    from importOneFile_rows[OF Some[unfolded y]]
    have r: "jobs s = jobs (w_db w)"
      "job_items s = job_items (w_db w) \<or> job_items s = job_items (touch_item now itemId (w_db w))"
      "res_status result \<in> {ItemDone, ItemFailed, ItemSkipped}" by auto
    have wi1: "worker_inv ?w1"
      using keeps_touch[where w = w and w' = ?w1 and now = now and item = itemId] r assms(1)
      by (simp add: keeps_def)
    let ?wt = "w\<lparr>w_db := update_items (\<lambda>i. item_id i = itemId) (\<lambda>i. i\<lparr>item_updated_at := now\<rparr>)
                        (w_db w)\<rparr>"
    have lt: "loop_inv ?wt"
      by (rule loop_inv_update_items[OF assms(2), where P = "\<lambda>i. item_id i = itemId"
            and g = "\<lambda>i. i\<lparr>item_updated_at := now\<rparr>"]) simp_all
    from r(2) have l1: "loop_inv ?w1"
    proof
      assume "job_items s = job_items (w_db w)"
      then have "loop_inv ?w1 = loop_inv w" using r(1) by (intro loop_inv_cong) simp_all
      with assms(2) show ?thesis by simp
    next
      assume "job_items s = job_items (touch_item now itemId (w_db w))"
      then have "loop_inv ?w1 = loop_inv ?wt" using r(1)
        by (intro loop_inv_cong) (simp_all add: touch_item_def update_items_def)
      with lt show ?thesis by simp
    qed
    from lh_file_settled[OF wi1 l1 r(3), of now]
    show ?thesis using \<open>w_inflight w = Some t\<close> t Some y by (simp add: file_done_def)
  qed
qed

lemma lh_file_throws:
  assumes "worker_inv w" "loop_inv w"
  shows "loop_inv (file_throws now err w)"
proof (cases "w_inflight w")
  case None
  then show ?thesis using assms(2) by (simp add: file_throws_def)
next
  case (Some t)
  obtain jobId itemId sourcePath where t: "t = (jobId, itemId, sourcePath)" by (cases t)
  note inf = Some[unfolded t]
  let ?f = "\<lambda>j. j\<lparr>job_status := Failed, job_error_message := Some err,
              job_finished_at := Some now, job_updated_at := now\<rparr>"
  let ?w1 = "w\<lparr>w_db := mark_job_failed now err jobId (w_db w), w_inflight := None\<rparr>"
  from assms(2) inf have op: "w_opened w" by (auto simp: loop_inv_def inflight_inv_def)
  have nl: "\<not> has_live (w_db ?w1) jobId"
    using not_live_after[of ?f jobId "w_db w"] by (simp add: mark_job_failed_def live_def)
  have l1: "loop_inv ?w1"
    by (rule loop_inv_update_jobs[OF assms(2), where P = "\<lambda>j. job_id j = jobId" and f = ?f])
       (use nl inf in \<open>simp_all add: mark_job_failed_def live_def\<close>)
  have wi1: "worker_inv ?w1"
    using keeps_update_jobs[where w = w and w' = ?w1 and P = "\<lambda>j. job_id j = jobId" and f = ?f]
      assms(1)
    by (simp add: keeps_def mark_job_failed_def)
  have "ok_state ?w1" using wi1 l1 op by (simp add: ok_state_def)
  from ok_send[OF this, of jobId] have "ok_outcome (Exited (sendJobUpdate jobId ?w1))"
    by (simp add: ok_outcome_def outcome_worker_def sendJobUpdate_def)
  from lk_after_exit[OF this, of now] show ?thesis using Some t
    by (simp add: file_throws_def ok_state_def)
qed

lemma lh_do_step:
  assumes "worker_inv w" "loop_inv w" "resume_allowed st w"
  shows "loop_inv (do_step e st w)"
proof (cases st)
  case (ImportFiles jobId itemIds now kbId sources)
  then show ?thesis using lh_import[OF assms(1,2)] by simp
next
  case (EnsureInitialized now kbId)
  then show ?thesis using lh_ensure[OF assms(1,2)] by simp
next
  case (PauseJob now kbId jobId)
  then show ?thesis using lh_pause[OF assms(1,2)] by simp
next
  case (ResumeJob now kbId jobId)
  then show ?thesis using lh_resume[OF assms(1,2)] assms(3) by (simp add: resume_allowed_def)
next
  case (CancelJob now kbId jobId)
  then show ?thesis using lh_cancel[OF assms(1,2)] by simp
next
  case (CancelElsewhere jobId)
  then show ?thesis using loop_inv_fields[OF assms(2), of "w\<lparr>w_canceled := insert jobId (w_canceled w)\<rparr>"]
    by simp
next
  case (FileDone documentId chunkIds now node)
  then show ?thesis using lh_file_done[OF assms(1,2)] by simp
next
  case (FileThrows now err)
  then show ?thesis using lh_file_throws[OF assms(1,2)] by simp
next
  case Restart
  then show ?thesis using loop_inv_restart[OF assms(2)] by simp
qed

lemma loop_inv_init: "loop_inv (init_worker empty_store)"
  by (simp add: loop_inv_def progress_inv_def processing_inv_def inflight_inv_def init_worker_def empty_store_def)

lemma loop_inv_run:
  "worker_inv w \<Longrightarrow> loop_inv w \<Longrightarrow> resumes_allowed e steps w \<Longrightarrow> loop_inv (run_steps e steps w)"
proof (induction steps arbitrary: w)
  case Nil
  then show ?case by (simp add: run_steps_def)
next
  case (Cons st steps)
  from keeps_do_step[of w e st] Cons.prems(1) have wi: "worker_inv (do_step e st w)"
    by (simp add: keeps_def)
  from lh_do_step[OF Cons.prems(1,2)] Cons.prems(3) have li: "loop_inv (do_step e st w)" by simp
  from Cons.IH[OF wi li] Cons.prems(3) show ?case by (simp add: run_steps_def)
qed

lemma keeps_run: "keeps w (run_steps e steps w)"
proof (induction steps arbitrary: w)
  case Nil
  then show ?case by (simp add: run_steps_def)
next
  case (Cons st steps)
  from keeps_trans[OF keeps_do_step[of w e st] Cons.IH[of "do_step e st w"]]
  show ?case by (simp add: run_steps_def)
qed

lemma run_steps_append: "run_steps e (steps @ later) w = run_steps e later (run_steps e steps w)"
  by (simp add: run_steps_def)

lemma worker_inv_bounded:
  assumes "worker_inv w"
  shows "(\<forall>j\<in>set (jobs (w_db w)). progress_current j \<le> progress_total j) \<and>
     (\<forall>j. Some j \<in> set (w_events w) \<longrightarrow> progress_current j \<le> progress_total j)"
proof -
  have b: "progress_current j \<le> progress_total j" if "j \<in> set (jobs (w_db w))" for j
  proof -
    from worker_inv_sinv[OF assms] that have "progress_current j \<le> doneCount (w_db w) (job_id j)"
      "itemCount (w_db w) (job_id j) = progress_total j"
      by (auto simp: rows_inv_def)
    with doneCount_le_itemCount[of "w_db w" "job_id j"] show ?thesis by simp
  qed
  have "progress_current j \<le> progress_total j" if "Some j \<in> set (w_events w)" for j
  proof -
    from assms that obtain r where "r \<in> set (jobs (w_db w))" "job_le j r"
      by (auto simp: worker_inv_def seen_inv_def)
    with b[of r] show ?thesis by (simp add: job_le_def)
  qed
  with b show ?thesis by blast
qed




end
